(* ===== verification/Prelude.thy ===== *)
theory Prelude
  imports Complex_Main "HOL-Library.Monad_Syntax"
begin

text \<open>
  Shared vocabulary of the development: the collections of facts that the component
  theories hand to the simplifier, lemmas on lists and on the option monad (an exception
  thrown by JavaScript is the value None), and the generic state machine of which the
  stateful components are instances.
\<close>

named_theorems js_eval \<open>evaluation of the JavaScript primitives on concrete values\<close>
named_theorems js_props \<open>property reads and writes of JavaScript objects\<close>

subsection \<open>Computations that may throw\<close>

text \<open>A computation that may throw a TypeError; the dashboard raises no other exception.\<close>

type_synonym 'a throws = "'a option"

definition mapM :: "('a \<Rightarrow> 'b throws) \<Rightarrow> 'a list \<Rightarrow> 'b list throws" where
  "mapM f xs = those (map f xs)"

lemma mapM_Nil [simp]: "mapM f [] = Some []"
  by (simp add: mapM_def)

lemma mapM_Cons [simp]:
  "mapM f (x # xs) = do { y \<leftarrow> f x; ys \<leftarrow> mapM f xs; Some (y # ys) }"
  by (cases "f x"; cases "those (map f xs)") (simp_all add: mapM_def)

lemma mapM_Some_iff: "mapM f xs = Some ys \<longleftrightarrow> list_all2 (\<lambda>x y. f x = Some y) xs ys"
proof (induction xs arbitrary: ys)
  case Nil
  then show ?case by auto
next
  case (Cons x xs)
  then show ?case
    by (cases ys) (auto simp: bind_eq_Some_conv)
qed

lemma mapM_total: "(\<And>x. x \<in> set xs \<Longrightarrow> \<exists>y. f x = Some y) \<Longrightarrow> \<exists>ys. mapM f xs = Some ys"
proof (induction xs)
  case Nil
  then show ?case by simp
next
  case (Cons x xs)
  obtain y where "f x = Some y" using Cons.prems by force
  moreover obtain ys where "mapM f xs = Some ys" using Cons by force
  ultimately show ?case by simp
qed

lemma mapM_pure [simp]: "mapM (\<lambda>x. Some (g x)) xs = Some (map g xs)"
  by (induction xs) simp_all

lemma mapM_length: "mapM f xs = Some ys \<Longrightarrow> length ys = length xs"
  by (auto simp: mapM_Some_iff dest: list_all2_lengthD)

lemma mapM_in_set:
  assumes "mapM f xs = Some ys" "y \<in> set ys"
  shows "\<exists>x \<in> set xs. f x = Some y"
  using assms by (induction xs arbitrary: ys) (auto simp: bind_eq_Some_conv)

lemma bind_total [intro]:
  "m = Some x \<Longrightarrow> (\<exists>y. f x = Some y) \<Longrightarrow> \<exists>y. (m \<bind> f) = Some y"
  by simp

subsection \<open>The end of a list\<close>

text \<open>\<open>last_n n xs\<close> is JavaScript's \<open>xs.slice(-n)\<close> for a positive \<open>n\<close>.\<close>

definition last_n :: "nat \<Rightarrow> 'a list \<Rightarrow> 'a list" where
  "last_n n xs = drop (length xs - n) xs"

lemma length_last_n [simp]: "length (last_n n xs) = min n (length xs)"
  by (simp add: last_n_def)

lemma set_last_n: "set (last_n n xs) \<subseteq> set xs"
  by (simp add: last_n_def set_drop_subset)

lemma last_n_short [simp]: "length xs \<le> n \<Longrightarrow> last_n n xs = xs"
  by (simp add: last_n_def)

lemma last_n_append_last_n: "last_n n (last_n n xs @ ys) = last_n n (xs @ ys)"
proof (cases "length xs \<le> n")
  case True
  then show ?thesis by simp
next
  case False
  then have "length xs - n + length ys = length (xs @ ys) - n" by simp
  with False show ?thesis
    by (auto simp: last_n_def add.commute)
qed

lemma sorted_wrt_last_n: "sorted_wrt P xs \<Longrightarrow> sorted_wrt P (last_n n xs)"
  by (simp add: last_n_def sorted_wrt_drop)

lemma last_last_n [simp]: "0 < n \<Longrightarrow> xs \<noteq> [] \<Longrightarrow> last (last_n n xs) = last xs"
  by (simp add: last_n_def)

subsection \<open>State machines\<close>

text \<open>
  A stateful component is a start state and a step for each event; \<open>run\<close> plays a
  sequence of events. An invariant of every step holds after every run.
\<close>

primrec run :: "('e \<Rightarrow> 's \<Rightarrow> 's) \<Rightarrow> 'e list \<Rightarrow> 's \<Rightarrow> 's" where
  "run step [] s = s"
| "run step (e # es) s = run step es (step e s)"

lemma run_append: "run step (es @ fs) s = run step fs (run step es s)"
  by (induction es arbitrary: s) simp_all

locale machine =
  fixes step :: "'e \<Rightarrow> 's \<Rightarrow> 's"
    and start :: 's
    and inv :: "'s \<Rightarrow> bool"
  assumes inv_start: "inv start"
    and inv_step: "inv s \<Longrightarrow> inv (step e s)"
begin

lemma inv_run_from: "inv s \<Longrightarrow> inv (run step es s)"
  by (induction es arbitrary: s) (simp_all add: inv_step)

lemma inv_run: "inv (run step es start)"
  by (rule inv_run_from [OF inv_start])

end

text \<open>An invariant that only the admissible events keep holds after every run of such events.\<close>

locale guarded_machine =
  fixes step :: "'e \<Rightarrow> 's \<Rightarrow> 's"
    and inv :: "'s \<Rightarrow> bool"
    and admissible :: "'e \<Rightarrow> bool"
  assumes inv_step: "inv s \<Longrightarrow> admissible e \<Longrightarrow> inv (step e s)"
begin

lemma inv_run: "inv s \<Longrightarrow> list_all admissible es \<Longrightarrow> inv (run step es s)"
  by (induction es arbitrary: s) (simp_all add: inv_step)

end

sublocale machine \<subseteq> guarded: guarded_machine step inv "\<lambda>_. True"
  by unfold_locales (rule inv_step)

text \<open>
  Steps that may be undefined, and the simulation of such a machine by an abstract one: each
  concrete step has the effect of the abstract step, and is defined when it is.
\<close>

primrec run_opt :: "('e \<Rightarrow> 's \<Rightarrow> 's option) \<Rightarrow> 'e list \<Rightarrow> 's \<Rightarrow> 's option" where
  "run_opt step [] s = Some s"
| "run_opt step (e # es) s = do { s' \<leftarrow> step e s; run_opt step es s' }"

lemma run_opt_append: "run_opt step (es @ fs) s = do { s' \<leftarrow> run_opt step es s; run_opt step fs s' }"
  by (induction es arbitrary: s) (simp_all add: bind_assoc)

locale forward_simulation =
  fixes cstep :: "'e \<Rightarrow> 's \<Rightarrow> 's option"
    and astep :: "'e \<Rightarrow> 'a \<Rightarrow> 'a option"
    and view :: "'s \<Rightarrow> 'a"
    and admissible :: "'e \<Rightarrow> bool"
  assumes forward_step: "admissible e \<Longrightarrow> cstep e s = Some s' \<Longrightarrow> astep e (view s) = Some (view s')"
begin

lemma forward_run:
  "list_all admissible es \<Longrightarrow> run_opt cstep es s = Some s' \<Longrightarrow> run_opt astep es (view s) = Some (view s')"
proof (induction es arbitrary: s)
  case (Cons e es)
  then obtain s1 where "cstep e s = Some s1" "run_opt cstep es s1 = Some s'"
    by (auto simp: bind_eq_Some_conv)
  with Cons forward_step [of e s s1] show ?case by simp
qed simp

end

text \<open>An exact simulation is also defined exactly when the abstract machine is.\<close>

locale simulation =
  fixes cstep :: "'e \<Rightarrow> 's \<Rightarrow> 's option"
    and astep :: "'e \<Rightarrow> 'a \<Rightarrow> 'a option"
    and view :: "'s \<Rightarrow> 'a"
  assumes sim_step: "map_option view (cstep e s) = astep e (view s)"
begin

lemma sim_run: "map_option view (run_opt cstep es s) = run_opt astep es (view s)"
proof (induction es arbitrary: s)
  case (Cons e es)
  from Cons show ?case using sim_step [of e s, symmetric] by (cases "cstep e s") simp_all
qed simp

end

sublocale simulation \<subseteq> forward: forward_simulation cstep astep view "\<lambda>_. True"
proof
  fix e s s'
  assume "cstep e s = Some s'"
  then show "astep e (view s) = Some (view s')" using sim_step [of e s] by simp
qed

subsection \<open>Texts that can be read back\<close>

text \<open>
  A writer and a reader: what is read from the text of an admissible value is the image of the
  value, which need not be the value itself when the text drops a part of it.
\<close>

locale codec =
  fixes enc :: "'a \<Rightarrow> 'b"
    and dec :: "'b \<Rightarrow> 'c option"
    and image :: "'a \<Rightarrow> 'c"
    and ok :: "'a \<Rightarrow> bool"
  assumes dec_enc: "ok v \<Longrightarrow> dec (enc v) = Some (image v)"
begin

lemma dec_unique: "ok v \<Longrightarrow> dec (enc v) = Some d \<longleftrightarrow> d = image v"
  by (auto simp: dec_enc)

lemma enc_determines: "ok v \<Longrightarrow> ok w \<Longrightarrow> enc v = enc w \<Longrightarrow> image v = image w"
  using dec_enc [of v] dec_enc [of w] by simp

text \<open>A property of values that the image keeps arrives at the reader.\<close>

lemma dec_transfers: "ok v \<Longrightarrow> P v \<Longrightarrow> (\<And>v. P v \<Longrightarrow> Q (image v)) \<Longrightarrow> dec (enc v) = Some d \<Longrightarrow> Q d"
  by (simp add: dec_unique)

end

subsection \<open>Characters outside ASCII\<close>

text \<open>A string holds the UTF-8 bytes of the source's string; these are its other characters.\<close>

definition em_dash :: string where
  "em_dash = [CHR 0xE2, CHR 0x80, CHR 0x94]"

definition arrow_up :: string where
  "arrow_up = [CHR 0xE2, CHR 0x86, CHR 0x91]"

definition arrow_down :: string where
  "arrow_down = [CHR 0xE2, CHR 0x86, CHR 0x93]"

definition middle_dot :: string where
  "middle_dot = [CHR 0xC2, CHR 0xB7]"

definition minus_sign :: string where
  "minus_sign = [CHR 0xE2, CHR 0x88, CHR 0x92]"

end
