(* ===== verification/Rounding.thy ===== *)
theory Rounding
  imports Prelude "HOL-Library.Log_Nat"
begin

text \<open>
  Rounding of a rational to the nearest IEEE 754 binary64 value, ties to even, on the
  finite range (overflow and the two zeros are in theory \<open>JsNumber\<close>). \<open>rnd\<close> is monotone
  and fixes every representable value; the locale \<open>rounding\<close> names these two laws and
  proves what the dashboard's arithmetic needs from them.
\<close>

subsection \<open>Nearest integer, ties to even\<close>

definition round_half_even :: "rat \<Rightarrow> int" where
  "round_half_even x = (let f = \<lfloor>x\<rfloor>; d = x - of_int f in
     if d < 1/2 then f else if d > 1/2 then f + 1 else if even f then f else f + 1)"

lemma round_half_even_of_int [simp]: "round_half_even (of_int n) = n"
  by (simp add: round_half_even_def)

lemma round_half_even_bounds: "\<lfloor>x\<rfloor> \<le> round_half_even x \<and> round_half_even x \<le> \<lfloor>x\<rfloor> + 1"
  by (simp add: round_half_even_def Let_def)

lemma round_half_even_mono: "x \<le> y \<Longrightarrow> round_half_even x \<le> round_half_even y"
proof -
  assume le: "x \<le> y"
  show ?thesis
  proof (cases "\<lfloor>x\<rfloor> = \<lfloor>y\<rfloor>")
    case True
    with le show ?thesis by (auto simp: round_half_even_def Let_def)
  next
    case False
    with floor_mono [OF le] have "\<lfloor>x\<rfloor> + 1 \<le> \<lfloor>y\<rfloor>" by linarith
    then show ?thesis
      using round_half_even_bounds [of x] round_half_even_bounds [of y] by linarith
  qed
qed

lemma round_half_even_error: "\<bar>of_int (round_half_even x) - x\<bar> \<le> 1/2"
proof -
  have "of_int \<lfloor>x\<rfloor> \<le> x" "x < of_int \<lfloor>x\<rfloor> + 1" by linarith+
  then show ?thesis by (auto simp: round_half_even_def Let_def abs_le_iff)
qed

subsection \<open>The binade of a positive rational\<close>

definition ilog2 :: "rat \<Rightarrow> int" where
  "ilog2 x = (let (n, d) = quotient_of x;
                  e = int (floorlog 2 (nat n)) - int (floorlog 2 (nat d))
              in if 2 powi e \<le> x then e else e - 1)"

lemma powi_add2: "(2 :: rat) powi (a + b) = 2 powi a * 2 powi b"
  by (simp add: power_int_add)

lemma powi_pos2 [simp]: "(0 :: rat) < 2 powi a"
  by (simp add: zero_less_power_int)

lemma powi_mono2: "a \<le> b \<Longrightarrow> (2 :: rat) powi a \<le> 2 powi b"
  by (simp add: power_int_increasing)

lemma powi_strict_mono2: "a < b \<Longrightarrow> (2 :: rat) powi a < 2 powi b"
  by (simp add: power_int_strict_increasing)

lemma powi_nonneg_int: "0 \<le> a \<Longrightarrow> (2 :: rat) powi a = of_int (2 ^ nat a)"
  by (simp add: power_int_def)

lemma floorlog2_int:
  assumes "0 < n"
  shows "2 powi (int (floorlog 2 (nat n)) - 1) \<le> (of_int n :: rat)"
    and "(of_int n :: rat) < 2 powi (int (floorlog 2 (nat n)))"
proof -
  define m l where "m = nat n" and "l = floorlog 2 m"
  have m: "0 < m" and n: "(of_int n :: rat) = of_nat m" using assms by (auto simp: m_def)
  have b: "2 ^ (l - 1) \<le> m" "m < 2 ^ l"
    using floorlog_bounds [OF m, of 2] by (auto simp: l_def)
  have "0 < l" using m by (simp add: l_def floorlog_def)
  then have l: "int l - 1 = int (l - 1)" by simp
  have "(of_nat (2 ^ (l - 1)) :: rat) \<le> of_nat m" using b(1) by (rule of_nat_mono)
  then show "2 powi (int (floorlog 2 (nat n)) - 1) \<le> (of_int n :: rat)"
    unfolding n m_def [symmetric] l_def [symmetric] l by simp
  have "(of_nat m :: rat) < of_nat (2 ^ l)" using b(2) by (rule of_nat_less_iff [THEN iffD2])
  then show "(of_int n :: rat) < 2 powi (int (floorlog 2 (nat n)))"
    unfolding n m_def [symmetric] l_def [symmetric] by simp
qed

lemma ilog2_bounds:
  assumes "0 < x"
  shows "2 powi (ilog2 x) \<le> x" and "x < 2 powi (ilog2 x + 1)"
proof -
  obtain n d where q: "quotient_of x = (n, d)" by (cases "quotient_of x")
  have d: "0 < d" and x: "x = of_int n / of_int d"
    using q quotient_of_denom_pos quotient_of_div by blast+
  have n: "0 < n" using assms x d by (simp add: zero_less_divide_iff)
  let ?ln = "int (floorlog 2 (nat n))" and ?ld = "int (floorlog 2 (nat d))"
  have "x < 2 powi (?ln - ?ld + 1)"
  proof -
    have "2 powi ?ln = (2 powi (?ln - ?ld + 1) :: rat) * 2 powi (?ld - 1)"
      by (subst powi_add2 [symmetric]) simp
    also have "\<dots> \<le> 2 powi (?ln - ?ld + 1) * of_int d"
      using floorlog2_int(1) [OF d] by (simp add: mult_left_mono)
    finally have "of_int n < (2 powi (?ln - ?ld + 1) * of_int d :: rat)"
      using floorlog2_int(2) [OF n] by (rule less_le_trans [rotated])
    then show ?thesis using d by (simp add: x divide_less_eq)
  qed
  moreover have "2 powi (?ln - ?ld - 1) \<le> x"
  proof -
    have "2 powi (?ln - ?ld - 1) * of_int d \<le> (2 powi (?ln - ?ld - 1) :: rat) * 2 powi ?ld"
      using floorlog2_int(2) [OF d] by (simp add: mult_left_mono)
    also have "\<dots> = 2 powi (?ln - 1)" by (subst powi_add2 [symmetric]) simp
    finally show ?thesis using floorlog2_int(1) [OF n] d
      by (simp add: x le_divide_eq)
  qed
  moreover have "ilog2 x = (if 2 powi (?ln - ?ld) \<le> x then ?ln - ?ld else ?ln - ?ld - 1)"
    by (simp add: ilog2_def q)
  ultimately show "2 powi (ilog2 x) \<le> x" and "x < 2 powi (ilog2 x + 1)"
    by (auto split: if_splits)
qed

lemma ilog2_mono:
  assumes "0 < x" "x \<le> y"
  shows "ilog2 x \<le> ilog2 y"
proof (rule ccontr)
  assume "\<not> ilog2 x \<le> ilog2 y"
  then have "(2 :: rat) powi (ilog2 y + 1) \<le> 2 powi (ilog2 x)" by (intro powi_mono2) simp
  with ilog2_bounds [of x] ilog2_bounds(2) [of y] assms show False by simp
qed

lemma ilog2_eqI: "2 powi k \<le> x \<Longrightarrow> x < 2 powi (k + 1) \<Longrightarrow> ilog2 x = k"
proof -
  assume k: "2 powi k \<le> x" "x < 2 powi (k + 1)"
  then have x: "0 < x" using powi_pos2 [of k] by linarith
  have "(2 :: rat) powi k < 2 powi (ilog2 x + 1)" "(2 :: rat) powi (ilog2 x) < 2 powi (k + 1)"
    using k ilog2_bounds [OF x] by linarith+
  then have "k < ilog2 x + 1" "ilog2 x < k + 1"
    using powi_mono2 [of "ilog2 x + 1" k] powi_mono2 [of "k + 1" "ilog2 x"]
    by (meson not_le)+
  then show ?thesis by simp
qed

subsection \<open>Rounding to the nearest representable value\<close>

text \<open>
  The exponent of the last place of a positive value: 52 places below its binade, and
  never below the subnormal exponent.
\<close>

definition quantum_exp :: "rat \<Rightarrow> int" where
  "quantum_exp x = max (ilog2 x - 52) (-1074)"

definition rnd_pos :: "rat \<Rightarrow> rat" where
  "rnd_pos x = (let q = 2 powi (quantum_exp x) in of_int (round_half_even (x / q)) * q)"

definition rnd :: "rat \<Rightarrow> rat" where
  "rnd x = (if x = 0 then 0 else if 0 < x then rnd_pos x else - rnd_pos (- x))"

text \<open>The values of the format, leaving overflow aside.\<close>

definition representable :: "rat \<Rightarrow> bool" where
  "representable r \<longleftrightarrow> (\<exists>m e. r = of_int m * 2 powi e \<and> \<bar>m\<bar> \<le> 2 ^ 53 \<and> - 1074 \<le> e)"

lemma rnd_zero [simp]: "rnd 0 = 0"
  by (simp add: rnd_def)

lemma rnd_uminus [simp]: "rnd (- x) = - rnd x"
  by (simp add: rnd_def)

lemma rnd_pos_grid:
  assumes "quantum_exp x \<le> k" "of_int m * 2 powi k \<le> x"
  shows "of_int m * 2 powi k \<le> rnd_pos x"
proof -
  let ?e = "quantum_exp x" and ?j = "m * 2 ^ nat (k - quantum_exp x)"
  have "(2 :: rat) powi k = 2 powi (k - ?e) * 2 powi ?e"
    by (subst powi_add2 [symmetric]) simp
  with assms(1) have j: "(of_int m * 2 powi k :: rat) = of_int ?j * 2 powi ?e"
    by (simp add: powi_nonneg_int)
  with assms(2) have "of_int ?j \<le> x / 2 powi ?e" by (simp add: le_divide_eq)
  from round_half_even_mono [OF this]
  have "?j \<le> round_half_even (x / 2 powi ?e)" by (simp only: round_half_even_of_int)
  then have "(of_int ?j :: rat) \<le> of_int (round_half_even (x / 2 powi ?e))"
    by (simp only: of_int_le_iff)
  then show ?thesis unfolding j rnd_pos_def Let_def by (rule mult_right_mono) simp
qed

lemma rnd_pos_grid_le:
  assumes "quantum_exp x \<le> k" "x \<le> of_int m * 2 powi k"
  shows "rnd_pos x \<le> of_int m * 2 powi k"
proof -
  let ?e = "quantum_exp x" and ?j = "m * 2 ^ nat (k - quantum_exp x)"
  have "(2 :: rat) powi k = 2 powi (k - ?e) * 2 powi ?e"
    by (subst powi_add2 [symmetric]) simp
  with assms(1) have j: "(of_int m * 2 powi k :: rat) = of_int ?j * 2 powi ?e"
    by (simp add: powi_nonneg_int)
  with assms(2) have "x / 2 powi ?e \<le> of_int ?j" by (simp add: divide_le_eq)
  from round_half_even_mono [OF this]
  have "round_half_even (x / 2 powi ?e) \<le> ?j" by (simp only: round_half_even_of_int)
  then have "(of_int (round_half_even (x / 2 powi ?e)) :: rat) \<le> of_int ?j"
    by (simp only: of_int_le_iff)
  then show ?thesis unfolding j rnd_pos_def Let_def by (rule mult_right_mono) simp
qed

lemma rnd_pos_nonneg: "0 < x \<Longrightarrow> 0 \<le> rnd_pos x"
  using rnd_pos_grid [of x "quantum_exp x" 0] by simp

lemma rnd_pos_mono:
  assumes "0 < x" "x \<le> y"
  shows "rnd_pos x \<le> rnd_pos y"
proof (cases "quantum_exp x = quantum_exp y")
  case True
  have "x / 2 powi (quantum_exp y) \<le> y / 2 powi (quantum_exp y)"
    using assms(2) by (simp add: divide_right_mono)
  from round_half_even_mono [OF this] show ?thesis
    using True by (simp add: rnd_pos_def Let_def mult_right_mono)
next
  case False
  with ilog2_mono [OF assms] have "quantum_exp x < quantum_exp y"
    by (auto simp: quantum_exp_def)
  then have qy: "quantum_exp y = ilog2 y - 52" and xy: "ilog2 x < ilog2 y"
    and qx: "quantum_exp x \<le> ilog2 y"
    using ilog2_mono [OF assms] by (auto simp: quantum_exp_def max_def split: if_splits)
  have "2 powi (ilog2 x + 1) \<le> (2 powi (ilog2 y) :: rat)" using xy by (intro powi_mono2) simp
  with ilog2_bounds(2) [OF assms(1)] have "x \<le> of_int 1 * 2 powi (ilog2 y)" by simp
  from rnd_pos_grid_le [OF qx this] have "rnd_pos x \<le> 2 powi (ilog2 y)" by simp
  also have "\<dots> \<le> rnd_pos y"
    using rnd_pos_grid [of y "ilog2 y" 1] ilog2_bounds(1) [of y] assms qy by simp
  finally show ?thesis .
qed

lemma rnd_mono: "x \<le> y \<Longrightarrow> rnd x \<le> rnd y"
  using rnd_pos_mono [of x y] rnd_pos_mono [of "- y" "- x"]
    rnd_pos_nonneg [of y] rnd_pos_nonneg [of "- x"]
  by (auto simp: rnd_def)

text \<open>The error is at most half a unit in the last place of the binade above.\<close>

lemma rnd_error:
  assumes "0 \<le> x" "x < 2 powi k" "- 1021 \<le> k"
  shows "\<bar>rnd x - x\<bar> \<le> 2 powi (k - 54)"
proof (cases "x = 0")
  case True
  have "(0 :: rat) < 2 powi (k - 54)" by (rule powi_pos2)
  with True show ?thesis by simp
next
  case False
  with assms(1) have x: "0 < x" by simp
  have "ilog2 x < k"
  proof (rule ccontr)
    assume "\<not> ilog2 x < k"
    then have "(2 :: rat) powi k \<le> 2 powi (ilog2 x)" by (intro powi_mono2) simp
    with ilog2_bounds(1) [OF x] assms(2) show False by simp
  qed
  with assms(3) have "quantum_exp x \<le> k - 53" by (simp add: quantum_exp_def)
  define q :: rat where "q = 2 powi (quantum_exp x)"
  have q: "0 < q" unfolding q_def by (rule powi_pos2)
  have "\<bar>of_int (round_half_even (x / q)) - x / q\<bar> * q \<le> 1 / 2 * q"
    using q by (intro mult_right_mono round_half_even_error) simp
  moreover have "\<bar>of_int (round_half_even (x / q)) - x / q\<bar> * q = \<bar>rnd x - x\<bar>"
  proof -
    have "\<bar>of_int (round_half_even (x / q)) - x / q\<bar> * q = \<bar>(of_int (round_half_even (x / q)) - x / q) * q\<bar>"
      using q by (simp add: abs_mult)
    also have "(of_int (round_half_even (x / q)) - x / q) * q = rnd x - x"
      using q x by (simp add: rnd_def rnd_pos_def Let_def left_diff_distrib flip: q_def)
    finally show ?thesis .
  qed
  moreover have "1 / 2 * q \<le> 2 powi (k - 54)"
  proof -
    have "q \<le> 2 powi (k - 54 + 1)"
      unfolding q_def using \<open>quantum_exp x \<le> k - 53\<close> by (intro powi_mono2) simp
    then show ?thesis unfolding powi_add2 [of "k - 54" 1] by simp
  qed
  ultimately show ?thesis by simp
qed

lemma rnd_pos_representable:
  assumes "0 < r" "representable r"
  shows "rnd_pos r = r"
proof -
  from assms(2) obtain m e where r: "r = of_int m * 2 powi e" and m: "\<bar>m\<bar> \<le> 2 ^ 53"
    and e: "- 1074 \<le> e" by (auto simp: representable_def)
  have "\<exists>m' k. r = of_int m' * 2 powi k \<and> quantum_exp r \<le> k"
  proof (cases "quantum_exp r \<le> e")
    case True
    with r show ?thesis by blast
  next
    case False
    with e have q: "ilog2 r - 52 = quantum_exp r" "e < ilog2 r - 52"
      by (auto simp: quantum_exp_def max_def split: if_splits)
    have "of_int (2 ^ 53) * 2 powi e \<le> (2 powi (ilog2 r) :: rat)"
      using q(2) powi_mono2 [of "53 + e" "ilog2 r"] by (simp add: powi_add2)
    also have "\<dots> \<le> of_int m * 2 powi e" using ilog2_bounds(1) [OF assms(1)] r by simp
    finally have "(of_int (2 ^ 53) :: rat) \<le> of_int m" by simp
    then have "2 ^ 53 \<le> m" by (simp only: of_int_le_iff)
    with m have "m = 2 ^ 53" by simp
    then have r': "r = of_int 1 * 2 powi (e + 53)" using r by (simp add: powi_add2)
    then have "ilog2 r = e + 53" by (intro ilog2_eqI) (simp_all add: powi_add2)
    then have "quantum_exp r \<le> e + 53" using q(1) by simp
    with r' show ?thesis by blast
  qed
  then show ?thesis
    using rnd_pos_grid [of r] rnd_pos_grid_le [of r] by (metis order_antisym order_refl)
qed

lemma representable_minus: "representable r \<Longrightarrow> representable (- r)"
proof -
  assume "representable r"
  then obtain m e where "r = of_int m * 2 powi e" "\<bar>m\<bar> \<le> 2 ^ 53" "- 1074 \<le> e"
    by (auto simp: representable_def)
  then have "- r = of_int (- m) * 2 powi e \<and> \<bar>- m\<bar> \<le> 2 ^ 53 \<and> - 1074 \<le> e" by simp
  then show ?thesis unfolding representable_def by blast
qed

lemma representable_uminus [simp]: "representable (- r) = representable r"
  using representable_minus [of r] representable_minus [of "- r"] by auto

lemma rnd_representable: "representable r \<Longrightarrow> rnd r = r"
  using rnd_pos_representable [of r] rnd_pos_representable [of "- r"] by (simp add: rnd_def)

lemma representable_int: "\<bar>n\<bar> \<le> 2 ^ 53 \<Longrightarrow> representable (of_int n)"
  unfolding representable_def by (intro exI [of _ n] exI [of _ 0]) simp

lemma representable_dyadic: "\<bar>n\<bar> \<le> 2 ^ 53 \<Longrightarrow> k \<le> 1074 \<Longrightarrow> representable (of_int n / 2 ^ k)"
  unfolding representable_def
  by (intro exI [of _ n] exI [of _ "- int k"]) (simp add: power_int_minus divide_inverse)

lemma rnd_int [simp]: "\<bar>n\<bar> \<le> 2 ^ 53 \<Longrightarrow> rnd (of_int n) = of_int n"
  by (simp add: rnd_representable representable_int)

lemma representable_rnd_pos:
  assumes "0 < x"
  shows "representable (rnd_pos x)"
proof -
  let ?e = "quantum_exp x" and ?m = "round_half_even (x / 2 powi (quantum_exp x))"
  have "2 powi (ilog2 x + 1) \<le> (2 powi (53 + ?e) :: rat)"
    by (rule powi_mono2) (simp add: quantum_exp_def)
  then have "x < (2 ^ 53) * 2 powi ?e" using ilog2_bounds(2) [OF assms] by (simp add: powi_add2)
  then have "x / 2 powi ?e \<le> of_int (2 ^ 53)" by (simp add: divide_le_eq)
  from round_half_even_mono [OF this] have "?m \<le> 2 ^ 53" by (simp only: round_half_even_of_int)
  moreover have "0 \<le> ?m"
    using round_half_even_mono [of "of_int 0" "x / 2 powi ?e"] assms
    by (simp only: round_half_even_of_int) simp
  ultimately have "\<bar>?m\<bar> \<le> 2 ^ 53" by simp
  moreover have "- 1074 \<le> ?e" by (simp add: quantum_exp_def)
  ultimately show ?thesis unfolding representable_def rnd_pos_def Let_def by blast
qed

lemma representable_rnd [simp]: "representable (rnd x)"
  using representable_rnd_pos [of x] representable_rnd_pos [of "- x"] representable_int [of 0]
  by (simp add: rnd_def)

text \<open>Evaluation on a concrete value, given its binade.\<close>

lemma rnd_eval:
  assumes "2 powi k \<le> x" "x < 2 powi (k + 1)" "- 1022 \<le> k"
  shows "rnd x = of_int (round_half_even (x * 2 powi (52 - k))) / 2 powi (52 - k)"
proof -
  have x: "0 < x" using assms(1) powi_pos2 [of k] by linarith
  have q: "quantum_exp x = - (52 - k)"
    using ilog2_eqI [OF assms(1,2)] assms(3) by (simp add: quantum_exp_def)
  have "(2 :: rat) powi (quantum_exp x) = inverse (2 powi (52 - k))"
    unfolding q by (rule power_int_minus)
  then show ?thesis using x
    by (simp add: rnd_def rnd_pos_def divide_inverse)
qed

subsection \<open>What the clients of rounding rely on\<close>

text \<open>
  The dashboard divides two counts and scales the quotient. Its results stay in range
  because rounding is monotone and exact on the integers and dyadic fractions that bound
  them, which is all that this locale assumes.
\<close>

locale rounding =
  fixes fl :: "rat \<Rightarrow> rat"
  assumes fl_mono: "x \<le> y \<Longrightarrow> fl x \<le> fl y"
    and fl_exact: "\<bar>n\<bar> \<le> 2 ^ 53 \<Longrightarrow> k \<le> 1074 \<Longrightarrow> fl (of_int n / 2 ^ k) = of_int n / 2 ^ k"
begin

lemma fl_int: "\<bar>n\<bar> \<le> 2 ^ 53 \<Longrightarrow> fl (of_int n) = of_int n"
  using fl_exact [of n 0] by simp

lemma fl_between_ints:
  assumes "of_int a \<le> x" "x \<le> of_int b" "\<bar>a\<bar> \<le> 2 ^ 53" "\<bar>b\<bar> \<le> 2 ^ 53"
  shows "of_int a \<le> fl x" and "fl x \<le> of_int b"
  using fl_mono [OF assms(1)] fl_mono [OF assms(2)] assms(3,4) by (simp_all add: fl_int)

lemma fl_nonneg: "0 \<le> x \<Longrightarrow> 0 \<le> fl x"
  using fl_mono [of 0 x] fl_int [of 0] by simp

lemma fl_nonpos: "x \<le> 0 \<Longrightarrow> fl x \<le> 0"
  using fl_mono [of x 0] fl_int [of 0] by simp

lemma fl_ratio:
  assumes "0 \<le> a" "a \<le> b" "0 < b"
  shows "0 \<le> fl (a / b)" and "fl (a / b) \<le> 1"
proof -
  have "of_int 0 \<le> a / b" "a / b \<le> of_int 1" using assms by simp_all
  from fl_between_ints [OF this] show "0 \<le> fl (a / b)" and "fl (a / b) \<le> 1" by simp_all
qed

text \<open>The floor of a rounded quotient of integers is the integer quotient.\<close>

lemma floor_fl_div:
  assumes n: "0 \<le> n" and d: "0 < d" and small: "n + d \<le> 2 ^ 36" "d \<le> 2 ^ 17"
  shows "\<lfloor>fl (of_int n / of_int d)\<rfloor> = n div d"
proof -
  let ?q = "n div d"
  have eq: "?q * d + n mod d = n" by (rule div_mult_mod_eq)
  have qn: "?q * d \<le> n" using eq pos_mod_sign [OF d, of n] by linarith
  have qn': "n + 1 \<le> (?q + 1) * d"
    using eq pos_mod_bound [OF d, of n] unfolding distrib_right by linarith
  have q0: "0 \<le> ?q" using n d by (simp add: pos_imp_zdiv_nonneg_iff)
  have "?q \<le> ?q * d" using q0 d by (simp add: mult_le_cancel_left1)
  with qn small have qs: "?q + 1 \<le> 2 ^ 36" using d by linarith
  have "(of_int ?q :: rat) \<le> of_int n / of_int d"
    using d qn by (simp add: le_divide_eq flip: of_int_mult)
  from fl_mono [OF this] have lo: "of_int ?q \<le> fl (of_int n / of_int d)"
    using q0 qs by (simp add: fl_int)
  let ?y = "of_int ((?q + 1) * 2 ^ 17 - 1) / 2 ^ 17 :: rat"
  have "(of_int (n + 1) :: rat) \<le> of_int ((?q + 1) * d)" using qn' by (simp only: of_int_le_iff)
  then have "(of_int n + 1) / of_int d \<le> (of_int (?q + 1) :: rat)"
    using d by (simp add: divide_le_eq)
  then have "of_int n / of_int d \<le> (of_int (?q + 1) - 1 / of_int d :: rat)"
    unfolding add_divide_distrib by linarith
  also have "\<dots> \<le> of_int (?q + 1) - 1 / 2 ^ 17"
  proof -
    have "(of_int d :: rat) \<le> of_int (2 ^ 17)" using small(2) by (simp only: of_int_le_iff)
    then have "(1 :: rat) / 2 ^ 17 \<le> 1 / of_int d" using d by (simp add: frac_le)
    then show ?thesis by simp
  qed
  also have "\<dots> = ?y" by (simp add: diff_divide_distrib)
  finally have "fl (of_int n / of_int d) \<le> fl ?y" by (rule fl_mono)
  also have "\<dots> = ?y" using q0 qs by (intro fl_exact) (auto simp: abs_le_iff)
  also have "\<dots> < of_int (?q + 1)" by simp
  finally show ?thesis using lo by (simp add: floor_eq_iff)
qed

end

interpretation binary64: rounding rnd
  by unfold_locales (simp_all add: rnd_mono rnd_representable representable_dyadic)

end
