(* ===== verification/JsNumber.thy ===== *)
theory JsNumber
  imports Rounding
begin

text \<open>
  ECMAScript's Number type: the finite binary64 values as rationals beside the negative
  zero, the infinities and NaN; the arithmetic, the comparisons and the \<open>Math\<close> functions
  that the dashboard uses; and the two conversions to text, \<open>Number::toString\<close> and
  \<open>toFixed\<close>.
\<close>

datatype number = NaN | PosInf | NegInf | NegZero | Fin rat

text \<open>A finite Number holds a representable value of the format.\<close>

primrec wf_number :: "number \<Rightarrow> bool" where
  "wf_number NaN = True"
| "wf_number PosInf = True"
| "wf_number NegInf = True"
| "wf_number NegZero = True"
| "wf_number (Fin x) = (representable x \<and> \<bar>x\<bar> < 2 ^ 1024)"

text \<open>The Number value for a mathematical value, as ECMAScript defines it.\<close>

definition number_value :: "rat \<Rightarrow> number" where
  "number_value x = (let r = rnd x in
     if 2 ^ 1024 \<le> r then PosInf
     else if r \<le> - (2 ^ 1024) then NegInf
     else if r = 0 \<and> x < 0 then NegZero
     else Fin r)"

lemma wf_number_value [simp]: "wf_number (number_value x)"
  by (auto simp: number_value_def Let_def abs_less_iff)

lemma number_value_fin:
  "\<bar>x\<bar> < 2 ^ 1024 \<Longrightarrow> representable x \<Longrightarrow> number_value x = Fin x"
  by (auto simp: number_value_def rnd_representable abs_less_iff)

lemma number_value_int:
  assumes "\<bar>n\<bar> \<le> 2 ^ 53"
  shows "number_value (of_int n) = Fin (of_int n)"
proof (rule number_value_fin)
  have "(\<bar>of_int n\<bar> :: rat) \<le> of_int (2 ^ 53)"
    using assms by (simp only: of_int_abs [symmetric] of_int_le_iff)
  also have "\<dots> < 2 ^ 1024" by simp
  finally show "\<bar>of_int n :: rat\<bar> < 2 ^ 1024" .
qed (rule representable_int [OF assms])

lemma number_value_nat:
  assumes "n \<le> 2 ^ 53"
  shows "number_value (of_nat n) = Fin (of_nat n)"
proof -
  have "\<bar>int n\<bar> \<le> 2 ^ 53" using assms by simp
  from number_value_int [OF this] show ?thesis by simp
qed

lemma number_value_nonneg_cases:
  "0 \<le> x \<Longrightarrow> number_value x = (if 2 ^ 1024 \<le> rnd x then PosInf else Fin (rnd x))"
  using binary64.fl_nonneg [of x] by (simp add: number_value_def)

lemma number_value_small:
  assumes "0 \<le> x" "x \<le> of_int n" "n \<le> 2 ^ 53"
  shows "number_value x = Fin (rnd x)" and "0 \<le> rnd x" and "rnd x \<le> of_int n"
proof -
  have n: "0 \<le> n" using assms(1,2) by (metis of_int_0_le_iff order_trans)
  have r: "0 \<le> rnd x" "rnd x \<le> of_int n"
    using binary64.fl_between_ints [of 0 x n] assms n by simp_all
  have "(of_int n :: rat) \<le> of_int (2 ^ 53)" using assms(3) by (simp only: of_int_le_iff)
  also have "\<dots> < 2 ^ 1024" by simp
  finally have "rnd x < 2 ^ 1024" using r(2) by linarith
  then show "number_value x = Fin (rnd x)"
    using assms(1) r by (simp add: number_value_nonneg_cases)
  show "0 \<le> rnd x" "rnd x \<le> of_int n" by (fact r)+
qed

subsection \<open>Arithmetic\<close>

primrec sign_bit :: "number \<Rightarrow> bool" where
  "sign_bit NaN = False"
| "sign_bit PosInf = False"
| "sign_bit NegInf = True"
| "sign_bit NegZero = True"
| "sign_bit (Fin x) = (x < 0)"

definition signed_zero :: "bool \<Rightarrow> number" where
  "signed_zero s = (if s then NegZero else Fin 0)"

definition signed_inf :: "bool \<Rightarrow> number" where
  "signed_inf s = (if s then NegInf else PosInf)"

text \<open>The finite value, when there is one.\<close>

primrec finite_val :: "number \<Rightarrow> rat option" where
  "finite_val NaN = None"
| "finite_val PosInf = None"
| "finite_val NegInf = None"
| "finite_val NegZero = Some 0"
| "finite_val (Fin x) = Some x"

fun num_neg :: "number \<Rightarrow> number" where
  "num_neg NaN = NaN"
| "num_neg PosInf = NegInf"
| "num_neg NegInf = PosInf"
| "num_neg NegZero = Fin 0"
| "num_neg (Fin x) = (if x = 0 then NegZero else Fin (- x))"

fun num_add :: "number \<Rightarrow> number \<Rightarrow> number" where
  "num_add (Fin x) (Fin y) = number_value (x + y)"
| "num_add NaN _ = NaN"
| "num_add _ NaN = NaN"
| "num_add PosInf NegInf = NaN"
| "num_add NegInf PosInf = NaN"
| "num_add PosInf _ = PosInf"
| "num_add _ PosInf = PosInf"
| "num_add NegInf _ = NegInf"
| "num_add _ NegInf = NegInf"
| "num_add NegZero y = y"
| "num_add x NegZero = x"

definition num_sub :: "number \<Rightarrow> number \<Rightarrow> number" where
  "num_sub x y = num_add x (num_neg y)"

definition num_mul :: "number \<Rightarrow> number \<Rightarrow> number" where
  "num_mul a b = (let s = (sign_bit a \<noteq> sign_bit b) in
     if a = NaN \<or> b = NaN then NaN
     else case (finite_val a, finite_val b) of
         (Some x, Some y) \<Rightarrow> if x * y = 0 then signed_zero s else number_value (x * y)
       | (None, Some y) \<Rightarrow> if y = 0 then NaN else signed_inf s
       | (Some x, None) \<Rightarrow> if x = 0 then NaN else signed_inf s
       | (None, None) \<Rightarrow> signed_inf s)"

definition num_div :: "number \<Rightarrow> number \<Rightarrow> number" where
  "num_div a b = (let s = (sign_bit a \<noteq> sign_bit b) in
     if a = NaN \<or> b = NaN then NaN
     else case (finite_val a, finite_val b) of
         (Some x, Some y) \<Rightarrow>
           if y = 0 then (if x = 0 then NaN else signed_inf s)
           else if x = 0 then signed_zero s
           else number_value (x / y)
       | (None, Some y) \<Rightarrow> signed_inf s
       | (Some x, None) \<Rightarrow> signed_zero s
       | (None, None) \<Rightarrow> NaN)"

text \<open>
  The operator \<open>%\<close>: the remainder of the truncated division, with the sign of the
  dividend. It is exact, so no rounding takes place.
\<close>

definition trunc :: "rat \<Rightarrow> int" where
  "trunc x = (if x < 0 then \<lceil>x\<rceil> else \<lfloor>x\<rfloor>)"

definition num_rem :: "number \<Rightarrow> number \<Rightarrow> number" where
  "num_rem a b =
     (if a = NaN \<or> b = NaN then NaN
      else case (finite_val a, finite_val b) of
         (None, _) \<Rightarrow> NaN
       | (Some x, None) \<Rightarrow> a
       | (Some x, Some y) \<Rightarrow>
           if y = 0 then NaN
           else if x = 0 then a
           else let r = x - y * of_int (trunc (x / y))
                in if r = 0 \<and> x < 0 then NegZero else Fin r)"

subsection \<open>Comparisons\<close>

fun num_lt :: "number \<Rightarrow> number \<Rightarrow> bool" where
  "num_lt NaN _ = False"
| "num_lt _ NaN = False"
| "num_lt PosInf _ = False"
| "num_lt _ NegInf = False"
| "num_lt _ PosInf = True"
| "num_lt NegInf _ = True"
| "num_lt NegZero NegZero = False"
| "num_lt NegZero (Fin y) = (0 < y)"
| "num_lt (Fin x) NegZero = (x < 0)"
| "num_lt (Fin x) (Fin y) = (x < y)"

fun num_eq :: "number \<Rightarrow> number \<Rightarrow> bool" where
  "num_eq NaN _ = False"
| "num_eq NegZero (Fin y) = (y = 0)"
| "num_eq (Fin x) NegZero = (x = 0)"
| "num_eq x y = (x = y)"

definition num_le :: "number \<Rightarrow> number \<Rightarrow> bool" where
  "num_le x y = (num_lt x y \<or> num_eq x y)"

lemma num_cmp_NaN [simp]: "\<not> num_lt x NaN" "\<not> num_eq x NaN" "\<not> num_le x NaN" "\<not> num_le NaN x"
  by (cases x; simp add: num_le_def)+

subsection \<open>Math\<close>

fun math_floor :: "number \<Rightarrow> number" where
  "math_floor (Fin x) = Fin (of_int \<lfloor>x\<rfloor>)"
| "math_floor v = v"

fun math_round :: "number \<Rightarrow> number" where
  "math_round (Fin x) =
     (if of_int \<lfloor>x\<rfloor> = x then Fin x
      else if x < 0 \<and> - 1/2 \<le> x then NegZero
      else Fin (of_int \<lfloor>x + 1/2\<rfloor>))"
| "math_round v = v"

definition num_max2 :: "number \<Rightarrow> number \<Rightarrow> number" where
  "num_max2 a b =
     (if a = NaN \<or> b = NaN then NaN
      else if num_lt a b then b
      else if num_lt b a then a
      else if a = NegZero then b else a)"

definition num_min2 :: "number \<Rightarrow> number \<Rightarrow> number" where
  "num_min2 a b =
     (if a = NaN \<or> b = NaN then NaN
      else if num_lt a b then a
      else if num_lt b a then b
      else if a = NegZero then a else b)"

definition math_max :: "number list \<Rightarrow> number" where
  "math_max vs = foldl num_max2 NegInf vs"

definition math_min :: "number list \<Rightarrow> number" where
  "math_min vs = foldl num_min2 PosInf vs"

subsection \<open>Decimal text\<close>

definition digit_char :: "nat \<Rightarrow> char" where
  "digit_char d = ''0123456789'' ! d"

function nat_str :: "nat \<Rightarrow> string" where
  "nat_str n = (if n < 10 then [digit_char n] else nat_str (n div 10) @ [digit_char (n mod 10)])"
  by pat_completeness auto
termination
  by (relation "measure id") auto

declare nat_str.simps [simp del]

definition int_str :: "int \<Rightarrow> string" where
  "int_str n = (if n < 0 then ''-'' @ nat_str (nat (- n)) else nat_str (nat n))"

text \<open>
  \<open>Number::toString\<close> wants the shortest digit string \<open>s\<close> of a length \<open>k\<close> with
  \<open>s * 10 ^ (n - k)\<close> rounding to the value, the closest one where several exist. Seventeen
  digits are enough for every binary64 value.
\<close>

definition ilog10 :: "rat \<Rightarrow> int" where
  "ilog10 x = (let (n, d) = quotient_of x;
                   e = int (floorlog 10 (nat n)) - int (floorlog 10 (nat d))
               in if 10 powi e \<le> x then e else e - 1)"

definition digit_candidates :: "rat \<Rightarrow> int \<Rightarrow> nat \<Rightarrow> int list" where
  "digit_candidates x n k =
     (let u = 10 powi (n - int k); y = x / u
      in filter (\<lambda>s. rnd (of_int s * u) = x)
           (if y - of_int \<lfloor>y\<rfloor> \<le> of_int \<lceil>y\<rceil> - y then [\<lfloor>y\<rfloor>, \<lceil>y\<rceil>] else [\<lceil>y\<rceil>, \<lfloor>y\<rfloor>]))"

definition shortest_digits :: "rat \<Rightarrow> nat \<times> nat \<times> int" where
  "shortest_digits x =
     (let n = ilog10 x + 1 in
      case find (\<lambda>k. digit_candidates x n k \<noteq> []) [1..<18] of
        None \<Rightarrow> (nat \<lfloor>x / 10 powi (n - 17)\<rfloor>, 17, n)
      | Some k \<Rightarrow> let s = nat (hd (digit_candidates x n k))
                  in if s = 10 ^ k then (1, 1, n + 1) else (s, k, n))"

definition zeros :: "nat \<Rightarrow> string" where
  "zeros n = replicate n (CHR ''0'')"

text \<open>The layout of the digits, with and without an exponent.\<close>

definition layout_digits :: "nat \<times> nat \<times> int \<Rightarrow> string" where
  "layout_digits = (\<lambda>(s, k, n). let ds = nat_str s in
     if int k \<le> n \<and> n \<le> 21 then ds @ zeros (nat (n - int k))
     else if 0 < n \<and> n \<le> 21 then take (nat n) ds @ ''.'' @ drop (nat n) ds
     else if - 6 < n \<and> n \<le> 0 then ''0.'' @ zeros (nat (- n)) @ ds
     else let e = n - 1;
              m = (if k = 1 then ds else take 1 ds @ ''.'' @ drop 1 ds)
          in m @ ''e'' @ (if e < 0 then ''-'' else ''+'') @ nat_str (nat \<bar>e\<bar>))"

text \<open>Integers up to \<open>2 ^ 53\<close> are their own shortest digits.\<close>

definition rat_str :: "rat \<Rightarrow> string" where
  "rat_str x = (if of_int \<lfloor>x\<rfloor> = x \<and> x \<le> 2 ^ 53 then nat_str (nat \<lfloor>x\<rfloor>)
                else layout_digits (shortest_digits x))"

primrec num_str :: "number \<Rightarrow> string" where
  "num_str NaN = ''NaN''"
| "num_str PosInf = ''Infinity''"
| "num_str NegInf = ''-Infinity''"
| "num_str NegZero = ''0''"
| "num_str (Fin x) = (if x < 0 then ''-'' @ rat_str (- x) else rat_str x)"

text \<open>\<open>toFixed\<close>: the integer nearest to \<open>x * 10 ^ f\<close>, the larger one in a tie.\<close>

definition fixed_digits :: "nat \<Rightarrow> nat \<Rightarrow> string" where
  "fixed_digits f n = (let m = nat_str n in
     if f = 0 then m
     else let m' = (if length m \<le> f then zeros (f + 1 - length m) @ m else m)
          in take (length m' - f) m' @ ''.'' @ drop (length m' - f) m')"

definition fixed_scaled :: "nat \<Rightarrow> rat \<Rightarrow> nat" where
  "fixed_scaled f x = nat \<lfloor>x * 10 ^ f + 1/2\<rfloor>"

primrec to_fixed :: "nat \<Rightarrow> number \<Rightarrow> string" where
  "to_fixed f NaN = ''NaN''"
| "to_fixed f PosInf = ''Infinity''"
| "to_fixed f NegInf = ''-Infinity''"
| "to_fixed f NegZero = fixed_digits f 0"
| "to_fixed f (Fin x) = (let a = \<bar>x\<bar> in
     (if x < 0 then ''-'' else '''') @
     (if 10 ^ 21 \<le> a then num_str (Fin a) else fixed_digits f (fixed_scaled f a)))"

subsection \<open>Reading decimal text back\<close>

definition digit_val :: "char \<Rightarrow> nat option" where
  "digit_val c = (if c \<in> set ''0123456789'' then Some (of_char c - 48) else None)"

fun read_nat_acc :: "nat \<Rightarrow> string \<Rightarrow> nat \<times> string" where
  "read_nat_acc a [] = (a, [])"
| "read_nat_acc a (c # cs) =
     (case digit_val c of None \<Rightarrow> (a, c # cs) | Some d \<Rightarrow> read_nat_acc (10 * a + d) cs)"

text \<open>The longest run of digits at the start of a text: its value and what follows.\<close>

definition read_nat :: "string \<Rightarrow> (nat \<times> string) option" where
  "read_nat s = (case s of [] \<Rightarrow> None
     | c # cs \<Rightarrow> if digit_val c = None then None else Some (read_nat_acc 0 s))"

lemma less_ten_cases:
  "d < (10 :: nat) \<Longrightarrow> d = 0 \<or> d = 1 \<or> d = 2 \<or> d = 3 \<or> d = 4 \<or> d = 5 \<or> d = 6 \<or> d = 7 \<or> d = 8 \<or> d = 9"
  by arith

lemma digit_val_digit_char [simp]: "d < 10 \<Longrightarrow> digit_val (digit_char d) = Some d"
  by (drule less_ten_cases) (elim disjE; simp add: digit_char_def digit_val_def)

lemma read_nat_acc_digits:
  "read_nat_acc a (nat_str n @ cs) = read_nat_acc (a * 10 ^ length (nat_str n) + n) cs"
proof (induction n arbitrary: a cs rule: nat_str.induct)
  case (1 n)
  show ?case
  proof (cases "n < 10")
    case True
    then show ?thesis by (simp add: nat_str.simps [of n] mult.commute)
  next
    case False
    have "n mod 10 < 10" by simp
    with False 1 [OF False] show ?thesis
      by (simp add: nat_str.simps [of n] algebra_simps)
  qed
qed

lemma nat_str_not_Nil [simp]: "nat_str n \<noteq> []"
  by (subst nat_str.simps) simp

lemma nat_str_hd: "digit_val (hd (nat_str n)) \<noteq> None"
proof (induction n rule: nat_str.induct)
  case (1 n)
  show ?case
  proof (cases "n < 10")
    case True
    then show ?thesis by (subst nat_str.simps) simp
  next
    case False
    with 1 show ?thesis by (subst nat_str.simps) (simp add: hd_append)
  qed
qed

text \<open>What is printed is read back, whatever non-digit follows.\<close>

lemma read_nat_str:
  assumes "cs = [] \<or> digit_val (hd cs) = None"
  shows "read_nat (nat_str n @ cs) = Some (n, cs)"
proof -
  obtain c ds where s: "nat_str n = c # ds" by (cases "nat_str n") auto
  have "digit_val c \<noteq> None" using nat_str_hd [of n] s by simp
  moreover have "read_nat_acc 0 (nat_str n @ cs) = (n, cs)"
    using assms by (subst read_nat_acc_digits) (cases cs, auto)
  ultimately show ?thesis by (simp add: read_nat_def s)
qed

lemma read_nat_str_only: "read_nat (nat_str n) = Some (n, [])"
  using read_nat_str [of "[]" n] by simp

lemma nat_str_inject [simp]: "nat_str m = nat_str n \<longleftrightarrow> m = n"
  by (metis read_nat_str_only option.inject prod.inject)

lemma num_str_int:
  assumes "\<bar>n\<bar> \<le> 2 ^ 53"
  shows "num_str (Fin (of_int n)) = int_str n"
proof -
  have "(of_int \<bar>n\<bar> :: rat) \<le> of_int (2 ^ 53)" using assms by (simp only: of_int_le_iff)
  then have le: "(of_int n :: rat) \<le> 2 ^ 53" "(of_int (- n) :: rat) \<le> 2 ^ 53" by auto
  show ?thesis
  proof (cases "n < 0")
    case True
    have "rat_str (of_int (- n)) = nat_str (nat (- n))"
      unfolding rat_str_def floor_of_int using le(2) by simp
    with True show ?thesis by (simp add: int_str_def)
  next
    case False
    with le(1) show ?thesis by (simp add: int_str_def rat_str_def)
  qed
qed

text \<open>The text of \<open>toFixed\<close> is within half a unit of its last place.\<close>

lemma fixed_scaled_error:
  assumes "0 \<le> x"
  shows "\<bar>of_nat (fixed_scaled f x) / 10 ^ f - x\<bar> \<le> 1 / (2 * 10 ^ f)"
proof -
  let ?m = "\<lfloor>x * 10 ^ f + 1/2\<rfloor>"
  have "0 \<le> ?m" using assms by simp
  then have m: "of_nat (fixed_scaled f x) = (of_int ?m :: rat)" by (simp add: fixed_scaled_def)
  have "\<bar>of_int ?m - x * 10 ^ f\<bar> \<le> (1/2 :: rat)" by linarith
  then have "\<bar>of_int ?m - x * 10 ^ f\<bar> / 10 ^ f \<le> (1/2 :: rat) / 10 ^ f"
    by (rule divide_right_mono) simp
  moreover have "\<bar>of_int ?m - x * 10 ^ f\<bar> / 10 ^ f = \<bar>of_int ?m / 10 ^ f - x\<bar>"
  proof -
    have "of_int ?m / 10 ^ f - x = (of_int ?m - x * 10 ^ f) / 10 ^ f"
      by (simp add: diff_divide_distrib)
    then show ?thesis by (simp add: abs_divide)
  qed
  ultimately show ?thesis by (simp add: m)
qed

lemma to_fixed_nonneg:
  "0 \<le> x \<Longrightarrow> x < 10 ^ 21 \<Longrightarrow> to_fixed f (Fin x) = fixed_digits f (fixed_scaled f x)"
  by (simp add: Let_def)

lemma fixed_scaled_mono: "x \<le> y \<Longrightarrow> fixed_scaled f x \<le> fixed_scaled f y"
  by (simp add: fixed_scaled_def nat_mono floor_mono)

subsection \<open>Values that are not negative\<close>

text \<open>
  Counts, sizes and times are not negative; the operations that the dashboard applies to
  them keep them so.
\<close>

definition nonneg :: "number \<Rightarrow> bool" where
  "nonneg v \<longleftrightarrow> v = PosInf \<or> (\<exists>x. v = Fin x \<and> 0 \<le> x)"

lemma nonneg_Fin [simp]: "nonneg (Fin x) \<longleftrightarrow> 0 \<le> x"
  and nonneg_PosInf [simp]: "nonneg PosInf"
  and nonneg_NaN [simp]: "\<not> nonneg NaN"
  and nonneg_NegZero [simp]: "\<not> nonneg NegZero"
  and nonneg_NegInf [simp]: "\<not> nonneg NegInf"
  by (simp_all add: nonneg_def)

lemma nonneg_cases [consumes 1, case_names PosInf Fin]:
  "nonneg v \<Longrightarrow> (v = PosInf \<Longrightarrow> P) \<Longrightarrow> (\<And>x. v = Fin x \<Longrightarrow> 0 \<le> x \<Longrightarrow> P) \<Longrightarrow> P"
  by (auto simp: nonneg_def)

lemma nonneg_number_value [simp]: "0 \<le> x \<Longrightarrow> nonneg (number_value x)"
  by (simp add: number_value_nonneg_cases binary64.fl_nonneg)

lemma nonneg_num_div: "nonneg a \<Longrightarrow> 0 < y \<Longrightarrow> nonneg (num_div a (Fin y))"
  by (cases rule: nonneg_cases) (auto simp: num_div_def Let_def signed_inf_def signed_zero_def)

lemma nonneg_num_mul: "nonneg a \<Longrightarrow> 0 < y \<Longrightarrow> nonneg (num_mul a (Fin y))"
  by (cases rule: nonneg_cases) (auto simp: num_mul_def Let_def signed_inf_def signed_zero_def)

lemma nonneg_math_round: "nonneg a \<Longrightarrow> nonneg (math_round a)"
  by (cases rule: nonneg_cases) auto

text \<open>The order of the extended line, NaN aside.\<close>

lemma num_le_refl: "v \<noteq> NaN \<Longrightarrow> num_le v v"
  by (cases v) (auto simp: num_le_def)

lemma num_le_Fin [simp]: "num_le (Fin x) (Fin y) \<longleftrightarrow> x \<le> y"
  by (auto simp: num_le_def)

lemma num_le_PosInf [simp]: "nonneg v \<Longrightarrow> num_le v PosInf"
  by (cases rule: nonneg_cases) (auto simp: num_le_def)

lemma not_num_le_PosInf [simp]: "num_le PosInf (Fin x) = False"
  by (simp add: num_le_def)

lemma num_le_number_value: "0 \<le> x \<Longrightarrow> x \<le> y \<Longrightarrow> num_le (number_value x) (number_value y)"
  using rnd_mono [of x y]
  by (auto simp: number_value_nonneg_cases num_le_refl binary64.fl_nonneg)

lemma num_div_mono:
  assumes "nonneg a" "nonneg b" "num_le a b" "0 < y"
  shows "num_le (num_div a (Fin y)) (num_div b (Fin y))"
  using assms(1,2)
proof (cases rule: nonneg_cases [case_product nonneg_cases])
  case (PosInf_PosInf)
  with assms show ?thesis by (simp add: num_div_def signed_inf_def num_le_refl)
next
  case (PosInf_Fin x)
  with assms show ?thesis by simp
next
  case (Fin_PosInf x)
  with assms nonneg_num_div [of a y] show ?thesis by (simp add: num_div_def signed_inf_def)
next
  case (Fin_Fin u v)
  then have "num_div a (Fin y) = number_value (u / y)" "num_div b (Fin y) = number_value (v / y)"
    using \<open>0 < y\<close> number_value_int [of 0]
    by (auto simp: num_div_def Let_def signed_zero_def)
  moreover have "u / y \<le> v / y" using Fin_Fin assms by (simp add: divide_right_mono)
  ultimately show ?thesis using Fin_Fin \<open>0 < y\<close> by (simp add: num_le_number_value)
qed

lemma num_mul_mono:
  assumes "nonneg a" "nonneg b" "num_le a b" "0 < y"
  shows "num_le (num_mul a (Fin y)) (num_mul b (Fin y))"
  using assms(1,2)
proof (cases rule: nonneg_cases [case_product nonneg_cases])
  case (PosInf_PosInf)
  with assms show ?thesis by (simp add: num_mul_def signed_inf_def num_le_refl)
next
  case (PosInf_Fin x)
  with assms show ?thesis by simp
next
  case (Fin_PosInf x)
  with assms nonneg_num_mul [of a y] show ?thesis by (simp add: num_mul_def signed_inf_def)
next
  case (Fin_Fin u v)
  then have "num_mul a (Fin y) = number_value (u * y)" "num_mul b (Fin y) = number_value (v * y)"
    using \<open>0 < y\<close> number_value_int [of 0]
    by (auto simp: num_mul_def Let_def signed_zero_def)
  moreover have "u * y \<le> v * y" using Fin_Fin assms by (simp add: mult_right_mono)
  ultimately show ?thesis using Fin_Fin \<open>0 < y\<close> by (simp add: num_le_number_value)
qed

lemma math_round_nonneg: "0 \<le> x \<Longrightarrow> math_round (Fin x) = Fin (of_int \<lfloor>x + 1/2\<rfloor>)"
proof (cases "of_int \<lfloor>x\<rfloor> = x")
  case True
  then obtain n where x: "x = of_int n" by metis
  have "\<lfloor>of_int n + 1/2 :: rat\<rfloor> = n" by (simp add: floor_eq_iff)
  then show ?thesis by (simp add: x)
qed simp

lemma math_round_mono:
  assumes "nonneg a" "nonneg b" "num_le a b"
  shows "num_le (math_round a) (math_round b)"
  using assms
  by (cases rule: nonneg_cases [case_product nonneg_cases])
     (auto simp: math_round_nonneg num_le_refl floor_mono simp del: math_round.simps(1)
           simp: math_round.simps(2))

text \<open>\<open>Math.max(0, Math.min(1, v))\<close> and its kin: clamping a value.\<close>

lemma math_max_two: "a \<noteq> NaN \<Longrightarrow> math_max [Fin x, a] = num_max2 (Fin x) a"
  by (cases a) (auto simp: math_max_def num_max2_def)

lemma math_min_two: "a \<noteq> NaN \<Longrightarrow> math_min [Fin x, a] = num_min2 (Fin x) a"
  by (cases a) (auto simp: math_min_def num_min2_def)

lemma clamp_unit:
  assumes "v \<noteq> NaN"
  obtains f where "math_max [Fin 0, math_min [Fin 1, v]] = Fin f" "0 \<le> f" "f \<le> 1"
proof -
  have "\<exists>f. math_max [Fin 0, math_min [Fin 1, v]] = Fin f \<and> 0 \<le> f \<and> f \<le> 1"
    using assms by (cases v) (auto simp: math_max_def math_min_def num_max2_def num_min2_def)
  with that show ?thesis by blast
qed

lemma math_min_nonneg:
  "nonneg v \<Longrightarrow> math_min [Fin c, v] = (case v of Fin x \<Rightarrow> Fin (min c x) | _ \<Rightarrow> Fin c)"
  by (cases rule: nonneg_cases) (auto simp: math_min_def num_min2_def min_def)

text \<open>The quotient of two counts.\<close>

lemma num_ratio:
  assumes "a \<le> b" "0 < b"
  shows "num_div (Fin (of_nat a)) (Fin (of_nat b)) = Fin (rnd (of_nat a / of_nat b)) \<and>
    0 \<le> rnd (of_nat a / of_nat b) \<and> rnd (of_nat a / of_nat b) \<le> 1"
proof (cases "a = 0")
  case True
  with assms show ?thesis by (simp add: num_div_def signed_zero_def)
next
  case False
  have q: "0 \<le> (of_nat a / of_nat b :: rat)" "(of_nat a / of_nat b :: rat) \<le> of_int 1"
    using assms by simp_all
  from number_value_small [OF q] False assms show ?thesis by (simp add: num_div_def)
qed

subsection \<open>The sign of a difference\<close>

text \<open>
  The difference of two finite Numbers is negative exactly when the first is smaller:
  gradual underflow keeps the difference of distinct values away from zero.
\<close>

lemma representable_grid:
  assumes "representable x"
  obtains k where "x = of_int k * 2 powi (- 1074)"
proof -
  obtain m e where x: "x = of_int m * 2 powi e" "- 1074 \<le> e"
    using assms by (auto simp: representable_def)
  have "(2 :: rat) powi e = 2 powi (e + 1074) * 2 powi (- 1074)" by (subst powi_add2 [symmetric]) simp
  with x have "x = of_int (m * 2 ^ nat (e + 1074)) * 2 powi (- 1074)" by (simp add: powi_nonneg_int)
  with that show ?thesis by blast
qed

lemma rnd_diff_neg:
  assumes "representable x" "representable y" "x < y"
  shows "rnd (x - y) < 0"
proof -
  define u :: rat where "u = 2 powi (- 1074)"
  obtain k l where x: "x = of_int k * u" and y: "y = of_int l * u"
    using representable_grid [OF assms(1)] representable_grid [OF assms(2)] unfolding u_def by metis
  have u: "0 < u" unfolding u_def by (rule powi_pos2)
  have "k < l" using assms(3) u by (simp add: x y)
  then have "(of_int (k - l) :: rat) \<le> of_int (- 1)" by (simp only: of_int_le_iff)
  then have "of_int (k - l) * u \<le> (of_int (- 1)) * u" using u by (intro mult_right_mono) auto
  then have "x - y \<le> - u" by (simp add: x y algebra_simps)
  from rnd_mono [OF this] have "rnd (x - y) \<le> - rnd u" by simp
  moreover have "representable u"
    unfolding representable_def u_def by (intro exI [of _ 1] exI [of _ "- 1074"]) simp
  ultimately show ?thesis using u by (simp add: rnd_representable)
qed

lemma num_sub_Fin: "num_sub (Fin x) (Fin y) = (if y = 0 then Fin x else number_value (x - y))"
  by (simp add: num_sub_def)

lemma num_sub_neg_iff:
  assumes "representable x" "representable y"
  shows "num_lt (num_sub (Fin x) (Fin y)) (Fin 0) \<longleftrightarrow> x < y"
proof -
  have "num_lt (number_value z) (Fin 0) \<longleftrightarrow> rnd z < 0" for z
    by (auto simp: number_value_def Let_def)
  moreover have "rnd (x - y) < 0 \<longleftrightarrow> x < y"
    using rnd_diff_neg [OF assms] binary64.fl_nonneg [of "x - y"] by (cases "x < y") auto
  ultimately show ?thesis by (simp add: num_sub_Fin)
qed

lemma num_neg_sub_neg_iff:
  assumes "representable x" "representable y"
  shows "num_lt (num_neg (num_sub (Fin x) (Fin y))) (Fin 0) \<longleftrightarrow> y < x"
proof -
  have "num_lt (num_neg (number_value z)) (Fin 0) \<longleftrightarrow> 0 < rnd z" for z
    by (auto simp: number_value_def Let_def)
  moreover have "0 < rnd (x - y) \<longleftrightarrow> y < x"
    using rnd_diff_neg [OF assms(2,1)] binary64.fl_nonpos [of "x - y"] rnd_uminus [of "y - x"]
    by (cases "y < x") auto
  ultimately show ?thesis by (simp add: num_sub_Fin)
qed

end
