(* ===== verification/JsValue.thy ===== *)
theory JsValue
  imports JsNumber
begin

text \<open>
  JavaScript values as the dashboard sees them: the data of the JSON endpoint, the React
  elements that the components return and the closures among their properties. Strings are
  the UTF-8 bytes of the source's strings. An exception (always a TypeError here) is None.

  A React element \<open>El t ps cs\<close> is the value of the JSX expression with the tag \<open>t\<close> (lower
  case for a host element, capitalised for a component), the properties \<open>ps\<close> and the
  children \<open>cs\<close>. A closure is the name of its function and the values it captures.
\<close>

datatype jv =
    Undef
  | Null
  | Bool bool
  | Num number
  | Str string
  | Arr "jv list"
  | Obj "(string \<times> jv) list"
  | El string "(string \<times> jv) list" "jv list"
  | Clo string "jv list"

text \<open>A numeric literal of the source.\<close>

definition lit :: "rat \<Rightarrow> jv" where
  "lit x = Num (number_value x)"

definition nat_num :: "nat \<Rightarrow> jv" where
  "nat_num n = Num (number_value (of_nat n))"

subsection \<open>Conversions\<close>

primrec truthy :: "jv \<Rightarrow> bool" where
  "truthy Undef = False"
| "truthy Null = False"
| "truthy (Bool b) = b"
| "truthy (Num n) = (n \<noteq> NaN \<and> n \<noteq> NegZero \<and> n \<noteq> Fin 0)"
| "truthy (Str s) = (s \<noteq> [])"
| "truthy (Arr xs) = True"
| "truthy (Obj ps) = True"
| "truthy (El t ps cs) = True"
| "truthy (Clo f xs) = True"

definition nullish :: "jv \<Rightarrow> bool" where
  "nullish v \<longleftrightarrow> v = Undef \<or> v = Null"

lemma nullish_simps [simp]:
  "nullish Undef" "nullish Null" "\<not> nullish (Bool b)" "\<not> nullish (Num n)" "\<not> nullish (Str s)"
  "\<not> nullish (Arr xs)" "\<not> nullish (Obj ps)" "\<not> nullish (El t ps cs)" "\<not> nullish (Clo f xs)"
  by (simp_all add: nullish_def)

definition js_or :: "jv \<Rightarrow> jv \<Rightarrow> jv" where
  "js_or a b = (if truthy a then a else b)"

definition js_and :: "jv \<Rightarrow> jv \<Rightarrow> jv" where
  "js_and a b = (if truthy a then b else a)"

text \<open>The operator \<open>??\<close>.\<close>

definition coalesce :: "jv \<Rightarrow> jv \<Rightarrow> jv" where
  "coalesce a b = (if nullish a then b else a)"

primrec typeof :: "jv \<Rightarrow> string" where
  "typeof Undef = ''undefined''"
| "typeof Null = ''object''"
| "typeof (Bool b) = ''boolean''"
| "typeof (Num n) = ''number''"
| "typeof (Str s) = ''string''"
| "typeof (Arr xs) = ''object''"
| "typeof (Obj ps) = ''object''"
| "typeof (El t ps cs) = ''object''"
| "typeof (Clo f xs) = ''function''"

definition is_array :: "jv \<Rightarrow> bool" where
  "is_array v = (case v of Arr _ \<Rightarrow> True | _ \<Rightarrow> False)"

fun join :: "string \<Rightarrow> string list \<Rightarrow> string" where
  "join sep [] = []"
| "join sep [s] = s"
| "join sep (s # t # ts) = s @ sep @ join sep (t # ts)"

text \<open>
  \<open>String(v)\<close>. The elements of an array are joined with commas, null and undefined ones as
  the empty string. Objects are taken to inherit \<open>toString\<close> from their prototype.
\<close>

fun to_str :: "jv \<Rightarrow> string" where
  "to_str Undef = ''undefined''"
| "to_str Null = ''null''"
| "to_str (Bool b) = (if b then ''true'' else ''false'')"
| "to_str (Num n) = num_str n"
| "to_str (Str s) = s"
| "to_str (Arr xs) = join '','' (map (\<lambda>x. if nullish x then [] else to_str x) xs)"
| "to_str (Obj ps) = ''[object Object]''"
| "to_str (El t ps cs) = ''[object Object]''"
| "to_str (Clo f xs) = f"

definition is_space :: "char \<Rightarrow> bool" where
  "is_space c \<longleftrightarrow> c = CHR '' '' \<or> (9 \<le> (of_char c :: nat) \<and> (of_char c :: nat) \<le> 13)"

definition trim :: "string \<Rightarrow> string" where
  "trim s = rev (dropWhile is_space (rev (dropWhile is_space s)))"

definition is_digit :: "char \<Rightarrow> bool" where
  "is_digit c \<longleftrightarrow> digit_val c \<noteq> None"

definition radix_val :: "nat \<Rightarrow> char \<Rightarrow> nat option" where
  "radix_val r c =
     (let n = of_char c :: nat;
          d = (if 48 \<le> n \<and> n \<le> 57 then n - 48
               else if 97 \<le> n \<and> n \<le> 102 then n - 87
               else if 65 \<le> n \<and> n \<le> 70 then n - 55 else 99)
      in if d < r then Some d else None)"

fun read_radix :: "nat \<Rightarrow> nat \<Rightarrow> string \<Rightarrow> nat option" where
  "read_radix r a [] = Some a"
| "read_radix r a (c # cs) =
     (case radix_val r c of None \<Rightarrow> None | Some d \<Rightarrow> read_radix r (r * a + d) cs)"

text \<open>The exponent part of a decimal literal, which has to end the text.\<close>

definition read_exponent :: "string \<Rightarrow> int option" where
  "read_exponent s =
     (case s of
        [] \<Rightarrow> Some 0
      | c # cs \<Rightarrow>
          if c \<noteq> CHR ''e'' \<and> c \<noteq> CHR ''E'' then None
          else let (sg, ds) = (case cs of
                   CHR ''-'' # ds \<Rightarrow> (- 1, ds) | CHR ''+'' # ds \<Rightarrow> (1, ds) | _ \<Rightarrow> (1, cs))
               in if ds = [] then None
                  else map_option (\<lambda>n. sg * int n) (read_radix 10 0 ds))"

text \<open>An unsigned decimal literal: its exact value.\<close>

definition read_decimal :: "string \<Rightarrow> rat option" where
  "read_decimal s =
     (let ip = takeWhile is_digit s; rest = dropWhile is_digit s;
          (fp, rest') = (case rest of
              CHR ''.'' # cs \<Rightarrow> (takeWhile is_digit cs, dropWhile is_digit cs)
            | _ \<Rightarrow> ([], rest))
      in if ip = [] \<and> fp = [] then None
         else do { m \<leftarrow> read_radix 10 0 (ip @ fp); e \<leftarrow> read_exponent rest';
                   Some (of_nat m * 10 powi (e - int (length fp))) })"

text \<open>The \<open>StringToNumber\<close> conversion.\<close>

definition signed_number :: "bool \<Rightarrow> rat \<Rightarrow> number" where
  "signed_number neg x =
     (if x = 0 then signed_zero neg else number_value (if neg then - x else x))"

definition str_num :: "string \<Rightarrow> number" where
  "str_num s =
     (let t = trim s;
          radix = (\<lambda>r ds. if ds = [] then NaN
                     else case read_radix r 0 ds of None \<Rightarrow> NaN | Some n \<Rightarrow> number_value (of_nat n));
          unsigned = (\<lambda>neg u. if u = ''Infinity'' then signed_inf neg
                        else case read_decimal u of None \<Rightarrow> NaN | Some x \<Rightarrow> signed_number neg x)
      in if t = [] then Fin 0
         else if take 2 t = ''0x'' \<or> take 2 t = ''0X'' then radix 16 (drop 2 t)
         else if take 2 t = ''0o'' \<or> take 2 t = ''0O'' then radix 8 (drop 2 t)
         else if take 2 t = ''0b'' \<or> take 2 t = ''0B'' then radix 2 (drop 2 t)
         else case t of CHR ''-'' # u \<Rightarrow> unsigned True u
                      | CHR ''+'' # u \<Rightarrow> unsigned False u
                      | _ \<Rightarrow> unsigned False t)"

fun to_num :: "jv \<Rightarrow> number" where
  "to_num Undef = NaN"
| "to_num Null = Fin 0"
| "to_num (Bool b) = (if b then Fin 1 else Fin 0)"
| "to_num (Num n) = n"
| "to_num (Str s) = str_num s"
| "to_num (Arr xs) = str_num (to_str (Arr xs))"
| "to_num _ = NaN"

text \<open>\<open>ToPrimitive\<close>: an object becomes its string.\<close>

definition to_prim :: "jv \<Rightarrow> jv" where
  "to_prim v = (case v of Arr _ \<Rightarrow> Str (to_str v) | Obj _ \<Rightarrow> Str (to_str v)
     | El _ _ _ \<Rightarrow> Str (to_str v) | Clo _ _ \<Rightarrow> Str (to_str v) | _ \<Rightarrow> v)"

subsection \<open>Operators\<close>

definition js_add :: "jv \<Rightarrow> jv \<Rightarrow> jv" where
  "js_add a b = (let p = to_prim a; q = to_prim b in
     case p of Str s \<Rightarrow> Str (s @ to_str q)
     | _ \<Rightarrow> (case q of Str t \<Rightarrow> Str (to_str p @ t) | _ \<Rightarrow> Num (num_add (to_num p) (to_num q))))"

definition js_sub :: "jv \<Rightarrow> jv \<Rightarrow> jv" where
  "js_sub a b = Num (num_sub (to_num a) (to_num b))"

definition js_mul :: "jv \<Rightarrow> jv \<Rightarrow> jv" where
  "js_mul a b = Num (num_mul (to_num a) (to_num b))"

definition js_div :: "jv \<Rightarrow> jv \<Rightarrow> jv" where
  "js_div a b = Num (num_div (to_num a) (to_num b))"

definition js_rem :: "jv \<Rightarrow> jv \<Rightarrow> jv" where
  "js_rem a b = Num (num_rem (to_num a) (to_num b))"

fun str_lt :: "string \<Rightarrow> string \<Rightarrow> bool" where
  "str_lt _ [] = False"
| "str_lt [] (_ # _) = True"
| "str_lt (a # s) (b # t) =
     ((of_char a :: nat) < of_char b \<or> (a = b \<and> str_lt s t))"

definition js_lt :: "jv \<Rightarrow> jv \<Rightarrow> bool" where
  "js_lt a b = (let p = to_prim a; q = to_prim b in
     case (p, q) of (Str s, Str t) \<Rightarrow> str_lt s t | _ \<Rightarrow> num_lt (to_num p) (to_num q))"

definition js_gt :: "jv \<Rightarrow> jv \<Rightarrow> bool" where
  "js_gt a b = js_lt b a"

definition js_ge :: "jv \<Rightarrow> jv \<Rightarrow> bool" where
  "js_ge a b = (let p = to_prim a; q = to_prim b in
     case (p, q) of (Str s, Str t) \<Rightarrow> \<not> str_lt s t | _ \<Rightarrow> num_le (to_num q) (to_num p))"

text \<open>The operator \<open>===\<close> on primitive values; the code compares nothing else.\<close>

fun strict_eq :: "jv \<Rightarrow> jv \<Rightarrow> bool" where
  "strict_eq (Num x) (Num y) = num_eq x y"
| "strict_eq (Str s) (Str t) = (s = t)"
| "strict_eq (Bool a) (Bool b) = (a = b)"
| "strict_eq Undef Undef = True"
| "strict_eq Null Null = True"
| "strict_eq _ _ = False"

lemma strict_eq_Str [simp]: "strict_eq v (Str s) \<longleftrightarrow> v = Str s"
  by (cases v) auto

subsection \<open>Objects and arrays\<close>

text \<open>
  The properties of an object are listed in the order in which JavaScript enumerates them:
  array indices in ascending order, then the other names in the order of their creation.
\<close>

definition array_index :: "string \<Rightarrow> nat option" where
  "array_index k = (case read_radix 10 0 k of
       None \<Rightarrow> None
     | Some n \<Rightarrow> if nat_str n = k \<and> n < 2 ^ 32 - 1 then Some n else None)"

definition precedes :: "string \<Rightarrow> string \<Rightarrow> bool" where
  "precedes k l = (case (array_index k, array_index l) of
       (Some m, Some n) \<Rightarrow> m < n | (Some _, None) \<Rightarrow> True | _ \<Rightarrow> False)"

fun obj_insert :: "string \<Rightarrow> jv \<Rightarrow> (string \<times> jv) list \<Rightarrow> (string \<times> jv) list" where
  "obj_insert k v [] = [(k, v)]"
| "obj_insert k v ((l, w) # ps) =
     (if precedes k l then (k, v) # (l, w) # ps else (l, w) # obj_insert k v ps)"

definition obj_put :: "string \<Rightarrow> jv \<Rightarrow> (string \<times> jv) list \<Rightarrow> (string \<times> jv) list" where
  "obj_put k v ps =
     (if k \<in> fst ` set ps then map (\<lambda>(l, w). if l = k then (l, v) else (l, w)) ps
      else obj_insert k v ps)"

definition lookup :: "(string \<times> jv) list \<Rightarrow> string \<Rightarrow> jv" where
  "lookup ps k = (case map_of ps k of Some v \<Rightarrow> v | None \<Rightarrow> Undef)"

text \<open>\<open>v.k\<close>: reading a property of undefined or null throws.\<close>

primrec get :: "jv \<Rightarrow> string \<Rightarrow> jv throws" where
  "get Undef k = None"
| "get Null k = None"
| "get (Bool b) k = Some Undef"
| "get (Num n) k = Some Undef"
| "get (Str s) k = Some (if k = ''length'' then nat_num (length s) else Undef)"
| "get (Arr xs) k = Some (if k = ''length'' then nat_num (length xs) else Undef)"
| "get (Obj ps) k = Some (lookup ps k)"
| "get (El t ps cs) k = Some Undef"
| "get (Clo f xs) k = Some Undef"

text \<open>\<open>v?.k\<close>\<close>

definition opt_get :: "jv \<Rightarrow> string \<Rightarrow> jv" where
  "opt_get v k = (case get v k of Some w \<Rightarrow> w | None \<Rightarrow> Undef)"

text \<open>\<open>v.map(f)\<close>: anything but an array has no such method, and the call throws.\<close>

definition js_map :: "jv \<Rightarrow> (jv \<Rightarrow> jv throws) \<Rightarrow> jv throws" where
  "js_map v f = (case v of Arr xs \<Rightarrow> map_option Arr (mapM f xs) | _ \<Rightarrow> None)"

text \<open>\<open>[...v]\<close>\<close>

definition spread :: "jv \<Rightarrow> jv list throws" where
  "spread v = (case v of Arr xs \<Rightarrow> Some xs | Str s \<Rightarrow> Some (map (\<lambda>c. Str [c]) s) | _ \<Rightarrow> None)"

definition obj_entries :: "jv \<Rightarrow> (string \<times> jv) list" where
  "obj_entries v = (case v of
       Obj ps \<Rightarrow> ps
     | Arr xs \<Rightarrow> zip (map nat_str [0..<length xs]) xs
     | Str s \<Rightarrow> zip (map nat_str [0..<length s]) (map (\<lambda>c. Str [c]) s)
     | _ \<Rightarrow> [])"

lemma get_total [simp]: "\<not> nullish v \<Longrightarrow> \<exists>w. get v k = Some w"
  by (cases v) auto

lemma get_None_iff: "get v k = None \<longleftrightarrow> nullish v"
  by (cases v) (auto split: if_splits)

lemma opt_get_Obj [simp]: "opt_get (Obj ps) k = lookup ps k"
  by (simp add: opt_get_def)

lemma opt_get_Undef [simp]: "opt_get Undef k = Undef" and opt_get_Null [simp]: "opt_get Null k = Undef"
  by (simp_all add: opt_get_def)

lemma lookup_Nil [simp]: "lookup [] k = Undef"
  by (simp add: lookup_def)

lemma lookup_Cons [simp]: "lookup ((l, v) # ps) k = (if k = l then v else lookup ps k)"
  by (simp add: lookup_def)

lemma map_of_obj_insert:
  "k \<notin> fst ` set ps \<Longrightarrow> map_of (obj_insert k v ps) l = (if l = k then Some v else map_of ps l)"
  by (induction ps) (auto split: if_splits)

lemma map_of_obj_update:
  "map_of (map (\<lambda>(l, w). if l = k then (l, v) else (l, w)) ps) l =
     (if l = k then map_option (\<lambda>_. v) (map_of ps k) else map_of ps l)"
  by (induction ps) auto

lemma lookup_obj_put [simp]: "lookup (obj_put k v ps) l = (if l = k then v else lookup ps l)"
proof (cases "k \<in> fst ` set ps")
  case True
  then obtain w where "map_of ps k = Some w" by (metis map_of_eq_None_iff not_None_eq)
  with True show ?thesis by (auto simp: obj_put_def lookup_def map_of_obj_update)
next
  case False
  then show ?thesis by (auto simp: obj_put_def lookup_def map_of_obj_insert)
qed

lemma keys_obj_insert: "fst ` set (obj_insert k v ps) = insert k (fst ` set ps)"
proof (induction ps)
  case Nil
  then show ?case by simp
next
  case (Cons p ps)
  then show ?case by (cases p) (simp add: insert_commute)
qed

lemma keys_obj_put: "fst ` set (obj_put k v ps) = insert k (fst ` set ps)"
proof (cases "k \<in> fst ` set ps")
  case True
  have "fst ` set (map (\<lambda>(l, w). if l = k then (l, v) else (l, w)) ps) = fst ` set ps"
    by (force simp: image_iff)
  with True show ?thesis by (auto simp: obj_put_def)
next
  case False
  then show ?thesis by (simp add: obj_put_def keys_obj_insert)
qed

lemma distinct_obj_insert:
  "k \<notin> fst ` set ps \<Longrightarrow> distinct (map fst (obj_insert k v ps)) = distinct (map fst ps)"
proof (induction ps)
  case Nil
  then show ?case by simp
next
  case (Cons p ps)
  obtain l w where p: "p = (l, w)" by (cases p)
  have "set (map fst (obj_insert k v ps)) = insert k (fst ` set ps)"
    by (simp only: set_map keys_obj_insert)
  with Cons show ?case by (auto simp: p)
qed

lemma distinct_obj_put: "distinct (map fst ps) \<Longrightarrow> distinct (map fst (obj_put k v ps))"
proof (cases "k \<in> fst ` set ps")
  case True
  assume "distinct (map fst ps)"
  moreover have "map fst (map (\<lambda>(l, w). if l = k then (l, v) else (l, w)) ps) = map fst ps"
    by (induction ps) auto
  ultimately show ?thesis using True by (simp add: obj_put_def del: map_map)
next
  case False
  assume "distinct (map fst ps)"
  with False show ?thesis by (simp add: obj_put_def distinct_obj_insert)
qed

subsection \<open>Operators on numbers\<close>

lemma to_prim_Num [simp]: "to_prim (Num n) = Num n"
  and to_prim_Str [simp]: "to_prim (Str s) = Str s"
  and to_prim_Undef [simp]: "to_prim Undef = Undef"
  and to_prim_Null [simp]: "to_prim Null = Null"
  by (simp_all add: to_prim_def)

lemma js_arith_Num [simp]:
  "js_add (Num a) (Num b) = Num (num_add a b)"
  "js_sub (Num a) (Num b) = Num (num_sub a b)"
  "js_mul (Num a) (Num b) = Num (num_mul a b)"
  "js_div (Num a) (Num b) = Num (num_div a b)"
  "js_rem (Num a) (Num b) = Num (num_rem a b)"
  by (simp_all add: js_add_def js_sub_def js_mul_def js_div_def js_rem_def)

lemma js_add_Str [simp]: "js_add (Num a) (Str t) = Str (num_str a @ t)"
  and js_add_Str_Str [simp]: "js_add (Str s) (Str t) = Str (s @ t)"
  by (simp_all add: js_add_def)

lemma js_order_Num [simp]:
  "js_lt (Num a) (Num b) = num_lt a b"
  "js_gt (Num a) (Num b) = num_lt b a"
  "js_ge (Num a) (Num b) = num_le b a"
  by (simp_all add: js_lt_def js_gt_def js_ge_def)

lemma js_order_Undef [simp]:
  "js_gt Undef (Num b) = False"
  "js_ge Undef (Num b) = False"
  by (simp_all add: js_gt_def js_lt_def js_ge_def num_le_def)

lemma number_value_numeral:
  "(numeral w :: int) \<le> 2 ^ 53 \<Longrightarrow> number_value (numeral w) = Fin (numeral w)"
  using number_value_int [of "numeral w"] by simp

lemma lit_numeral: "(numeral w :: int) \<le> 2 ^ 53 \<Longrightarrow> lit (numeral w) = Num (Fin (numeral w))"
  by (simp add: lit_def number_value_numeral)

lemma lit_int: "\<bar>n\<bar> \<le> 2 ^ 53 \<Longrightarrow> lit (of_int n) = Num (Fin (of_int n))"
  by (simp add: lit_def number_value_int)

lemma lit_0 [simp]: "lit 0 = Num (Fin 0)" and lit_1 [simp]: "lit 1 = Num (Fin 1)"
  using lit_int [of 0] lit_int [of 1] by simp_all

lemma lit_is_Num: "\<exists>n. lit x = Num n"
  by (simp add: lit_def)

lemma nat_num_small: "int n \<le> 2 ^ 53 \<Longrightarrow> nat_num n = Num (Fin (of_nat n))"
  using number_value_int [of "int n"] by (simp add: nat_num_def)

lemma truthy_nat_num: "int n \<le> 2 ^ 53 \<Longrightarrow> truthy (nat_num n) \<longleftrightarrow> n \<noteq> 0"
  by (simp add: nat_num_small)

text \<open>A length tests true, and exceeds zero, exactly when it is not zero.\<close>

lemma rnd_ge_1: "1 \<le> x \<Longrightarrow> 1 \<le> rnd x"
  using rnd_mono [of 1 x] rnd_int [of 1] by simp

lemma nat_num_pos: "js_gt (nat_num n) (Num (Fin 0)) \<longleftrightarrow> n \<noteq> 0"
proof (cases n)
  case 0
  then show ?thesis by (simp add: nat_num_small)
next
  case (Suc m)
  have "1 \<le> rnd (of_nat n)" by (rule rnd_ge_1) (simp add: Suc)
  with Suc show ?thesis by (simp add: nat_num_def number_value_nonneg_cases del: of_nat_Suc)
qed

lemma truthy_nat_num_iff: "truthy (nat_num n) \<longleftrightarrow> n \<noteq> 0"
proof (cases n)
  case 0
  then show ?thesis by (simp add: nat_num_small)
next
  case (Suc m)
  have "1 \<le> rnd (of_nat n)" by (rule rnd_ge_1) (simp add: Suc)
  with Suc show ?thesis by (simp add: nat_num_def number_value_nonneg_cases del: of_nat_Suc)
qed

lemma strict_eq_nat_num_0: "strict_eq (nat_num n) (Num (Fin 0)) \<longleftrightarrow> n = 0"
proof (cases n)
  case 0
  then show ?thesis by (simp add: nat_num_small)
next
  case (Suc m)
  have "1 \<le> rnd (of_nat n)" by (rule rnd_ge_1) (simp add: Suc)
  with Suc show ?thesis by (auto simp: nat_num_def number_value_nonneg_cases simp del: of_nat_Suc)
qed

subsection \<open>Reading the text of a number back\<close>

lemma radix_val_digit [simp]: "d < 10 \<Longrightarrow> radix_val 10 (digit_char d) = Some d"
  by (drule less_ten_cases) (elim disjE; simp add: digit_char_def radix_val_def)

lemma is_digit_digit_char [simp]: "d < 10 \<Longrightarrow> is_digit (digit_char d)"
  by (simp add: is_digit_def)

lemma read_radix_nat_str:
  "read_radix 10 a (nat_str n @ cs) = read_radix 10 (a * 10 ^ length (nat_str n) + n) cs"
proof (induction n arbitrary: a cs rule: nat_str.induct)
  case (1 n)
  show ?case
  proof (cases "n < 10")
    case True
    then show ?thesis by (simp add: nat_str.simps [of n] mult.commute)
  next
    case False
    have "n mod 10 < 10" by simp
    with False 1 [OF False] show ?thesis
      by (simp add: nat_str.simps [of n] algebra_simps)
  qed
qed

lemma read_radix_zeros: "read_radix 10 0 (zeros k @ cs) = read_radix 10 0 cs"
proof -
  have "radix_val 10 (CHR ''0'') = Some 0" by (simp add: radix_val_def)
  then show ?thesis by (induction k) (simp_all add: zeros_def)
qed

lemma all_digits_nat_str: "list_all is_digit (nat_str n)"
proof (induction n rule: nat_str.induct)
  case (1 n)
  then show ?case by (subst nat_str.simps) simp
qed

lemma all_digits_zeros: "list_all is_digit (zeros k)"
  by (simp add: zeros_def list_all_iff is_digit_def digit_val_def)

lemma takeWhile_all: "list_all P xs \<Longrightarrow> takeWhile P (xs @ ys) = xs @ takeWhile P ys"
  and dropWhile_all: "list_all P xs \<Longrightarrow> dropWhile P (xs @ ys) = dropWhile P ys"
  by (induction xs) simp_all

text \<open>The text of \<open>toFixed\<close> with \<open>f\<close> decimals is read as its digits over \<open>10 ^ f\<close>.\<close>

lemma read_fixed_digits:
  assumes "0 < f"
  shows "read_decimal (fixed_digits f n) = Some (of_nat n / 10 ^ f)"
proof -
  define m where "m = (if length (nat_str n) \<le> f then zeros (f + 1 - length (nat_str n)) @ nat_str n
    else nat_str n)"
  let ?k = "length m - f"
  have len: "f < length m" by (simp add: m_def zeros_def)
  have dig: "list_all is_digit m"
    by (simp add: m_def all_digits_nat_str all_digits_zeros)
  have ip: "list_all is_digit (take ?k m)" and fp: "list_all is_digit (drop ?k m)"
    using dig by (auto simp: list_all_iff dest: in_set_takeD in_set_dropD)
  have dot: "\<not> is_digit (CHR ''.'')" by (simp add: is_digit_def digit_val_def)
  have val: "read_radix 10 0 m = Some n"
    using read_radix_nat_str [of 0 n "[]"] by (simp add: m_def read_radix_zeros)
  have shape: "fixed_digits f n = take ?k m @ CHR ''.'' # drop ?k m"
    using assms by (simp add: fixed_digits_def m_def Let_def)
  have tw: "takeWhile is_digit (fixed_digits f n) = take ?k m"
      "dropWhile is_digit (fixed_digits f n) = CHR ''.'' # drop ?k m"
    unfolding shape by (simp_all add: takeWhile_all [OF ip] dropWhile_all [OF ip] dot)
  have fw: "takeWhile is_digit (drop ?k m) = drop ?k m" "dropWhile is_digit (drop ?k m) = []"
    using takeWhile_all [OF fp, of "[]"] dropWhile_all [OF fp, of "[]"] by simp_all
  have "m \<noteq> []" using len by auto
  then have "read_decimal (fixed_digits f n) = Some (of_nat n * 10 powi (- int f))"
    using len by (simp add: read_decimal_def tw fw val read_exponent_def)
  then show ?thesis by (simp add: power_int_minus divide_inverse)
qed

end
