(* ===== verification/Ui.thy ===== *)
theory Ui
  imports JsValue
begin

text \<open>
  The presentational components of \<open>src/components\<close> that keep no state: Badge, the four
  parts of Card, StatCard, ProgressBar and the three charts of MiniChart. A component is a
  function from its properties to the element that it returns.
\<close>

type_synonym props = "(string \<times> jv) list"

text \<open>A destructured property with a default, which replaces undefined only.\<close>

definition pget :: "props \<Rightarrow> string \<Rightarrow> jv \<Rightarrow> jv" where
  "pget ps k d = (let v = lookup ps k in if v = Undef then d else v)"

lemma pget_given: "lookup ps k \<noteq> Undef \<Longrightarrow> pget ps k d = lookup ps k"
  by (simp add: pget_def)

lemma pget_Undef [simp]: "pget ps k Undef = lookup ps k"
  by (simp add: pget_def)

definition cls :: "string \<Rightarrow> string \<times> jv" where
  "cls s = (''className'', Str s)"

subsection \<open>Badge, Card, StatCard\<close>

definition badge_variants :: props where
  "badge_variants =
     [(''default'',     Str ''bg-primary text-primary-foreground''),
      (''secondary'',   Str ''bg-secondary text-secondary-foreground''),
      (''destructive'', Str ''bg-destructive text-destructive-foreground''),
      (''outline'',     Str ''border border-border text-foreground'')]"

definition Badge :: "props \<Rightarrow> jv" where
  "Badge ps =
     (let children = lookup ps ''children'';
          variant = pget ps ''variant'' (Str ''default'');
          className = pget ps ''className'' (Str '''')
      in El ''span''
           [cls (''inline-flex items-center rounded-full px-2.5 py-0.5 text-xs font-semibold transition-colors ''
              @ to_str (js_or (lookup badge_variants (to_str variant)) (lookup badge_variants ''default''))
              @ '' '' @ to_str className)]
           [children])"

definition Card :: "props \<Rightarrow> jv" where
  "Card ps =
     El ''div''
       [cls (''rounded-lg border bg-card text-card-foreground shadow-sm ''
             @ to_str (pget ps ''className'' (Str '''')))]
       [lookup ps ''children'']"

definition CardHeader :: "props \<Rightarrow> jv" where
  "CardHeader ps =
     El ''div''
       [cls (''flex flex-col space-y-1.5 p-6 '' @ to_str (pget ps ''className'' (Str '''')))]
       [lookup ps ''children'']"

definition CardTitle :: "props \<Rightarrow> jv" where
  "CardTitle ps =
     El ''h3''
       [cls (''text-lg font-semibold leading-none tracking-tight ''
             @ to_str (pget ps ''className'' (Str '''')))]
       [lookup ps ''children'']"

definition CardContent :: "props \<Rightarrow> jv" where
  "CardContent ps =
     El ''div''
       [cls (''p-6 pt-0 '' @ to_str (pget ps ''className'' (Str '''')))]
       [lookup ps ''children'']"

definition StatCard :: "props \<Rightarrow> jv" where
  "StatCard ps =
     (let label = lookup ps ''label''; value = lookup ps ''value''; sub = lookup ps ''sub''
      in El ''div'' [cls ''rounded-lg border bg-card p-4 shadow-sm'']
           [El ''p'' [cls ''text-sm font-medium text-muted-foreground''] [label],
            El ''p'' [cls ''text-2xl font-bold mt-1''] [value],
            js_and sub (El ''p'' [cls ''text-xs text-muted-foreground mt-1''] [sub])])"

subsection \<open>ProgressBar\<close>

definition progress_pct :: "jv \<Rightarrow> jv \<Rightarrow> number" where
  "progress_pct value mx =
     (if js_gt mx (lit 0)
      then math_min [Fin 100, math_round (to_num (js_mul (js_div value mx) (lit 100)))]
      else Fin 0)"

definition ProgressBar :: "props \<Rightarrow> jv" where
  "ProgressBar ps =
     (let pct = progress_pct (lookup ps ''value'') (lookup ps ''max'');
          className = pget ps ''className'' (Str '''')
      in El ''div'' [cls (''h-2 w-full bg-muted rounded-full overflow-hidden '' @ to_str className)]
           [El ''div''
              [cls ''h-full bg-primary transition-all'',
               (''style'', Obj [(''width'', Str (num_str pct @ ''%''))])]
              []])"

subsection \<open>MiniChart\<close>

definition math_pi :: jv where
  "math_pi = lit (884279719003555 / 281474976710656)"

text \<open>The colour of a gauge: danger first, then warn, then ok.\<close>

definition level_color :: "jv \<Rightarrow> jv \<Rightarrow> jv \<Rightarrow> string" where
  "level_color fill warn danger =
     (if js_ge fill danger then ''#ef4444''
      else if js_ge fill warn then ''#f59e0b''
      else ''#3b82f6'')"

definition gauge_fill :: "jv \<Rightarrow> number" where
  "gauge_fill value = math_max [Fin 0, math_min [Fin 1, to_num value]]"

definition gauge_circ :: "jv \<Rightarrow> jv" where
  "gauge_circ sz = js_mul (js_mul (lit 2) math_pi) (js_div (js_sub sz (lit 6)) (lit 2))"

definition RingGauge :: "props \<Rightarrow> jv" where
  "RingGauge ps =
     (let value = pget ps ''value'' (lit 0);
          sz = pget ps ''size'' (lit 44);
          warn = pget ps ''warn'' (lit (6 / 10));
          danger = pget ps ''danger'' (lit (85 / 100));
          label = lookup ps ''label'';
          r = js_div (js_sub sz (lit 6)) (lit 2);
          circ = gauge_circ sz;
          fill = Num (gauge_fill value);
          dash = js_mul fill circ;
          cx = js_div sz (lit 2);
          color = Str (level_color fill warn danger)
      in El ''svg''
           [(''width'', sz), (''height'', sz),
            (''viewBox'', Str (''0 0 '' @ to_str sz @ '' '' @ to_str sz)), cls ''shrink-0'']
           [El ''circle''
              [(''cx'', cx), (''cy'', cx), (''r'', r), (''fill'', Str ''none''),
               (''stroke'', Str ''currentColor''), (''strokeWidth'', lit 5),
               cls ''text-muted opacity-20''] [],
            El ''circle''
              [(''cx'', cx), (''cy'', cx), (''r'', r), (''fill'', Str ''none''),
               (''stroke'', color), (''strokeWidth'', lit 5),
               (''strokeDasharray'', Str (to_str dash @ '' '' @ to_str circ)),
               (''strokeLinecap'', Str ''round''),
               (''transform'', Str (''rotate(-90 '' @ to_str cx @ '' '' @ to_str cx @ '')''))] [],
            if label \<noteq> Undef
            then El ''text''
              [(''x'', cx), (''y'', js_add cx (lit 1)), (''textAnchor'', Str ''middle''),
               (''dominantBaseline'', Str ''middle''),
               (''fontSize'', js_mul sz (lit (22 / 100))), (''fill'', color),
               (''fontWeight'', Str ''600'')] [label]
            else Bool False])"

definition spark_bar_width :: "jv \<Rightarrow> nat \<Rightarrow> number" where
  "spark_bar_width width n =
     math_max [Fin 1, num_sub (math_floor (to_num (js_div width (nat_num n)))) (Fin 1)]"

definition spark_bar_height :: "jv \<Rightarrow> number \<Rightarrow> jv \<Rightarrow> number" where
  "spark_bar_height v mx height =
     math_max [Fin 1, math_round (to_num (js_mul (js_div v (Num mx)) height))]"

definition SparkBars :: "props \<Rightarrow> jv throws" where
  "SparkBars ps =
     (let values = pget ps ''values'' (Arr []);
          width = pget ps ''width'' (lit 60);
          height = pget ps ''height'' (lit 24);
          color = pget ps ''color'' (Str ''#3b82f6'')
      in do {
        len \<leftarrow> get values ''length'';
        if \<not> truthy len then Some Null
        else do {
          vs \<leftarrow> spread values;
          let mx = math_max (map to_num vs @ [Fin 1]);
          let bw = spark_bar_width width (length vs);
          bars \<leftarrow> (case values of Arr _ \<Rightarrow> Some (map (\<lambda>(i, v).
              let bh = spark_bar_height v mx height in
              El ''rect''
                [(''key'', nat_num i),
                 (''x'', js_mul (nat_num i) (js_add (Num bw) (lit 1))),
                 (''y'', js_sub height (Num bh)),
                 (''width'', Num bw), (''height'', Num bh),
                 (''fill'', color), (''rx'', lit 1)] []) (zip [0..<length vs] vs))
            | _ \<Rightarrow> None);
          Some (El ''svg''
            [(''width'', width), (''height'', height),
             (''viewBox'', Str (''0 0 '' @ to_str width @ '' '' @ to_str height)), cls ''shrink-0'']
            [Arr bars])
        }
      })"

definition bar_fill :: "jv \<Rightarrow> jv \<Rightarrow> number" where
  "bar_fill value mx =
     (if js_gt mx (lit 0) then math_min [Fin 1, to_num (js_div value mx)] else Fin 0)"

definition MiniBar :: "props \<Rightarrow> jv" where
  "MiniBar ps =
     (let value = pget ps ''value'' (lit 0);
          mx = pget ps ''max'' (lit 1);
          warn = pget ps ''warn'' (lit (6 / 10));
          danger = pget ps ''danger'' (lit (85 / 100));
          width = pget ps ''width'' (lit 64);
          height = pget ps ''height'' (lit 6);
          fill = Num (bar_fill value mx);
          color = Str (level_color fill warn danger)
      in El ''svg''
           [(''width'', width), (''height'', height),
            (''viewBox'', Str (''0 0 '' @ to_str width @ '' '' @ to_str height)), cls ''shrink-0'']
           [El ''rect''
              [(''x'', lit 0), (''y'', lit 0), (''width'', width), (''height'', height),
               (''fill'', Str ''currentColor''), cls ''text-muted opacity-20'', (''rx'', lit 3)] [],
            El ''rect''
              [(''x'', lit 0), (''y'', lit 0), (''width'', js_mul fill width), (''height'', height),
               (''fill'', color), (''rx'', lit 3)] []])"

subsection \<open>Reading an element\<close>

primrec attr :: "string \<Rightarrow> jv \<Rightarrow> jv" where
  "attr k (El t ps cs) = lookup ps k"
| "attr k Undef = Undef"
| "attr k Null = Undef"
| "attr k (Bool b) = Undef"
| "attr k (Num n) = Undef"
| "attr k (Str s) = Undef"
| "attr k (Arr xs) = Undef"
| "attr k (Obj ps) = Undef"
| "attr k (Clo f xs) = Undef"

definition child :: "nat \<Rightarrow> jv \<Rightarrow> jv" where
  "child i v = (case v of El t ps cs \<Rightarrow> if i < length cs then cs ! i else Undef | _ \<Rightarrow> Undef)"

lemma child_El [simp]: "child i (El t ps cs) = (if i < length cs then cs ! i else Undef)"
  by (simp add: child_def)

lemma attr_cls [simp]: "lookup (cls s # ps) k = (if k = ''className'' then Str s else lookup ps k)"
  by (simp add: cls_def)

subsection \<open>The severity of a gauge\<close>

text \<open>The three colours, in the order of severity.\<close>

datatype level = OkLevel | WarnLevel | DangerLevel

instantiation level :: linorder
begin

primrec level_rank :: "level \<Rightarrow> nat" where
  "level_rank OkLevel = 0"
| "level_rank WarnLevel = 1"
| "level_rank DangerLevel = 2"

definition less_eq_level :: "level \<Rightarrow> level \<Rightarrow> bool" where
  "less_eq_level a b \<longleftrightarrow> level_rank a \<le> level_rank b"

definition less_level :: "level \<Rightarrow> level \<Rightarrow> bool" where
  "less_level a b \<longleftrightarrow> level_rank a < level_rank b"

instance
proof
  fix a b c :: level
  show "a < b \<longleftrightarrow> a \<le> b \<and> \<not> b \<le> a" by (auto simp: less_eq_level_def less_level_def)
  show "a \<le> a" by (simp add: less_eq_level_def)
  show "a \<le> b \<Longrightarrow> b \<le> c \<Longrightarrow> a \<le> c" by (simp add: less_eq_level_def)
  show "a \<le> b \<Longrightarrow> b \<le> a \<Longrightarrow> a = b" by (cases a; cases b; simp add: less_eq_level_def)
  show "a \<le> b \<or> b \<le> a" by (auto simp: less_eq_level_def)
qed

end

primrec color_of :: "level \<Rightarrow> string" where
  "color_of OkLevel = ''#3b82f6''"
| "color_of WarnLevel = ''#f59e0b''"
| "color_of DangerLevel = ''#ef4444''"

definition gauge_level :: "number \<Rightarrow> number \<Rightarrow> number \<Rightarrow> level" where
  "gauge_level fill warn danger =
     (if num_le danger fill then DangerLevel else if num_le warn fill then WarnLevel else OkLevel)"

lemma level_color_level:
  "level_color (Num f) (Num w) (Num d) = color_of (gauge_level f w d)"
  by (simp add: level_color_def gauge_level_def)

lemma gauge_level_mono:
  "w \<le> d \<Longrightarrow> f \<le> g \<Longrightarrow>
     gauge_level (Fin f) (Fin w) (Fin d) \<le> gauge_level (Fin g) (Fin w) (Fin d)"
  by (simp add: gauge_level_def less_eq_level_def)

lemma gauge_level_inverted:
  "d \<le> w \<Longrightarrow> gauge_level (Fin f) (Fin w) (Fin d) \<noteq> WarnLevel"
  by (simp add: gauge_level_def)

subsection \<open>Ranges\<close>

lemma num_mul_shrink:
  assumes "0 \<le> f" "f \<le> 1" "0 \<le> c" "wf_number (Fin c)"
  obtains d where "num_mul (Fin f) (Fin c) = Fin d" "0 \<le> d" "d \<le> c"
proof (cases "f * c = 0")
  case True
  with assms show ?thesis by (intro that [of 0]) (auto simp: num_mul_def signed_zero_def)
next
  case False
  have le: "f * c \<le> c" "0 \<le> f * c" using assms by (simp_all add: mult_left_le_one_le)
  have r: "rnd (f * c) \<le> c" "0 \<le> rnd (f * c)"
    using rnd_mono [OF le(1)] le(2) assms(4) binary64.fl_nonneg by (auto simp: rnd_representable)
  with assms(4) False le show ?thesis
    by (intro that [of "rnd (f * c)"])
       (auto simp: num_mul_def number_value_nonneg_cases abs_less_iff not_le)
qed

lemma gauge_circ_int:
  assumes "6 \<le> n" "n \<le> 2 ^ 20"
  obtains c where "gauge_circ (lit (of_int n)) = Num (Fin c)" "0 \<le> c" "wf_number (Fin c)"
proof -
  have n: "lit (of_int n) = Num (Fin (of_int n))" using assms by (simp add: lit_int)
  have s: "js_sub (lit (of_int n)) (lit 6) = Num (Fin (of_int (n - 6)))"
    using number_value_int [of "n - 6"] assms
    by (simp add: n lit_numeral num_sub_def)
  let ?h = "of_int (n - 6) / 2 :: rat"
  have hb: "0 \<le> ?h" "?h \<le> of_int (2 ^ 20)" using assms by (simp_all del: of_int_diff)
  have "representable ?h" using representable_dyadic [of "n - 6" 1] assms by simp
  moreover have "\<bar>?h\<bar> < 2 ^ 1024" using hb by simp
  ultimately have hv: "number_value ?h = Fin ?h" by (rule number_value_fin [rotated])
  have r: "js_div (js_sub (lit (of_int n)) (lit 6)) (lit 2) = Num (Fin ?h)"
    unfolding s using hv by (simp add: lit_numeral num_div_def signed_zero_def)
  let ?p = "884279719003555 / 281474976710656 :: rat"
  have "?p = of_int 884279719003555 / 2 ^ 48" by simp
  then have pr: "representable ?p" using representable_dyadic [of 884279719003555 48] by simp
  have p: "math_pi = Num (Fin ?p)"
    unfolding math_pi_def lit_def using number_value_fin [OF _ pr] by simp
  have "?p * 2 = of_int 884279719003555 / 2 ^ 47" by simp
  then have "representable (?p * 2)" using representable_dyadic [of 884279719003555 47] by simp
  then have pp: "number_value (2 * ?p) = Fin (2 * ?p)" by (intro number_value_fin) simp_all
  define h q where "h = ?h" and "q = 2 * ?p"
  have q: "0 < q" by (simp add: q_def)
  have c: "gauge_circ (lit (of_int n)) = Num (num_mul (Fin q) (Fin h))"
    unfolding gauge_circ_def r p h_def q_def using pp by (simp add: lit_numeral num_mul_def)
  have b: "0 \<le> q * h" "q * h \<le> of_int (2 ^ 23)" using hb by (simp_all add: h_def q_def)
  then have v: "number_value (q * h) = Fin (rnd (q * h))" "0 \<le> rnd (q * h)"
    using number_value_small [OF b] by simp_all
  have wf: "wf_number (Fin (rnd (q * h)))" using v(1) wf_number_value by metis
  show ?thesis
  proof (cases "h = 0")
    case True
    then have "num_mul (Fin q) (Fin h) = Fin 0" using q by (simp add: num_mul_def signed_zero_def)
    with c show ?thesis using representable_int [of 0] by (intro that [of 0]) simp_all
  next
    case False
    then have "num_mul (Fin q) (Fin h) = number_value (q * h)" using q by (simp add: num_mul_def)
    with c v wf show ?thesis by (intro that [of "rnd (q * h)"]) simp_all
  qed
qed

subsection \<open>Properties\<close>

text \<open>
  Ring gauge: whatever number the value is, the arc that RingGauge draws is no longer than
  the circle and not negative, for every size that leaves room for the ring.
\<close>

theorem ring_gauge_arc:
  assumes "to_num (pget ps ''value'' (lit 0)) \<noteq> NaN"
    and "pget ps ''size'' (lit 44) = lit (of_int n)" "6 \<le> n" "n \<le> 2 ^ 20"
  shows "\<exists>d c. attr ''strokeDasharray'' (child 1 (RingGauge ps)) =
      Str (num_str (Fin d) @ '' '' @ num_str (Fin c)) \<and> 0 \<le> d \<and> d \<le> c"
proof -
  obtain f where f: "gauge_fill (pget ps ''value'' (lit 0)) = Fin f" "0 \<le> f" "f \<le> 1"
    using clamp_unit [OF assms(1)] unfolding gauge_fill_def by blast
  obtain c where c: "gauge_circ (lit (of_int n)) = Num (Fin c)" "0 \<le> c" "wf_number (Fin c)"
    using gauge_circ_int [OF assms(3,4)] .
  obtain d where "num_mul (Fin f) (Fin c) = Fin d" "0 \<le> d" "d \<le> c"
    using num_mul_shrink [OF f(2,3) c(2,3)] .
  then show ?thesis using f(1) c(1)
    by (intro exI [of _ d] exI [of _ c])
       (simp add: RingGauge_def Let_def assms(2))
qed

lemma ring_gauge_arc_witness:
  "\<exists>d c. attr ''strokeDasharray'' (child 1 (RingGauge [(''value'', lit 3), (''size'', lit 32)])) =
      Str (num_str (Fin d) @ '' '' @ num_str (Fin c)) \<and> 0 \<le> d \<and> d \<le> c"
  by (rule ring_gauge_arc [of _ 32]) (simp_all add: pget_def lit_numeral)

text \<open>
  Severity: with the warning threshold not above the danger threshold, a fuller gauge never
  shows a milder colour. The colour of the arc is the one of its level.
\<close>

theorem ring_gauge_severity_mono:
  assumes "pget ps ''value'' (lit 0) = Num (Fin x)" "pget qs ''value'' (lit 0) = Num (Fin y)" "x \<le> y"
    and "pget ps ''warn'' (lit (6 / 10)) = Num (Fin w)" "pget qs ''warn'' (lit (6 / 10)) = Num (Fin w)"
    and "pget ps ''danger'' (lit (85 / 100)) = Num (Fin d)" "pget qs ''danger'' (lit (85 / 100)) = Num (Fin d)"
    and "w \<le> d"
  shows "\<exists>l m. attr ''stroke'' (child 1 (RingGauge ps)) = Str (color_of l) \<and>
               attr ''stroke'' (child 1 (RingGauge qs)) = Str (color_of m) \<and> l \<le> m"
proof -
  have fill: "gauge_fill (Num (Fin z)) = Fin (max 0 (min 1 z))" for z
    by (auto simp: gauge_fill_def math_max_def math_min_def num_max2_def num_min2_def)
  let ?f = "max 0 (min 1 x)" and ?g = "max 0 (min 1 y)"
  have le: "?f \<le> ?g" using assms(3) by (simp add: max_def min_def)
  have "attr ''stroke'' (child 1 (RingGauge ps)) = Str (color_of (gauge_level (Fin ?f) (Fin w) (Fin d)))"
    using assms(1,4,6) by (simp add: RingGauge_def Let_def fill level_color_level)
  moreover have "attr ''stroke'' (child 1 (RingGauge qs)) = Str (color_of (gauge_level (Fin ?g) (Fin w) (Fin d)))"
    using assms(2,5,7) by (simp add: RingGauge_def Let_def fill level_color_level)
  ultimately show ?thesis using gauge_level_mono [OF assms(8) le] by blast
qed

lemma ring_gauge_severity_mono_witness:
  "\<exists>l m. attr ''stroke'' (child 1 (RingGauge [(''value'', Num (Fin 0)), (''warn'', Num (Fin (1/2))), (''danger'', Num (Fin (3/4)))]))
           = Str (color_of l) \<and>
         attr ''stroke'' (child 1 (RingGauge [(''value'', Num (Fin 1)), (''warn'', Num (Fin (1/2))), (''danger'', Num (Fin (3/4)))]))
           = Str (color_of m) \<and> l \<le> m"
  by (rule ring_gauge_severity_mono [where x = 0 and y = 1 and w = "1/2" and d = "3/4"])
     (simp_all add: pget_def)

lemma math_min_int: "math_min [Fin 100, Fin (of_int k)] = Fin (of_int (min 100 k))"
  by (auto simp: math_min_def num_min2_def min_def)

lemma progress_pct_cases:
  assumes "nonneg v" "0 < m"
  obtains p where "progress_pct (Num v) (Num (Fin m)) = Fin (of_int p)" "0 \<le> p" "p \<le> 100"
proof -
  let ?r = "math_round (num_mul (num_div v (Fin m)) (Fin 100))"
  have r: "nonneg ?r" by (intro nonneg_math_round nonneg_num_mul nonneg_num_div assms) simp
  have eq: "progress_pct (Num v) (Num (Fin m)) = math_min [Fin 100, ?r]"
    using assms(2) by (simp add: progress_pct_def lit_numeral)
  show ?thesis
  proof (cases "num_mul (num_div v (Fin m)) (Fin 100)")
    case (Fin x)
    then have x: "0 \<le> x" using nonneg_num_mul [OF nonneg_num_div [OF assms], of 100] by simp
    then have x': "?r = Fin (of_int \<lfloor>x + 1/2\<rfloor>)" unfolding Fin by (rule math_round_nonneg)
    have "progress_pct (Num v) (Num (Fin m)) = Fin (of_int (min 100 \<lfloor>x + 1/2\<rfloor>))"
      unfolding eq x' by (rule math_min_int)
    with x show ?thesis by (intro that [of "min 100 \<lfloor>x + 1/2\<rfloor>"]) auto
  qed (use r eq in \<open>simp_all add: math_min_def num_min2_def that [of 100]\<close>)
qed

text \<open>
  The progress bar: for a value that is not negative its width is a whole percentage from 0
  to 100, and 100 as soon as the value reaches the maximum.
\<close>

theorem progress_bar_width:
  assumes "lookup ps ''value'' = Num v" "nonneg v" "lookup ps ''max'' = Num (Fin m)" "0 < m"
  shows "\<exists>p. attr ''style'' (child 0 (ProgressBar ps)) = Obj [(''width'', Str (nat_str p @ ''%''))] \<and> p \<le> 100"
proof -
  obtain p where p: "progress_pct (Num v) (Num (Fin m)) = Fin (of_int p)" "0 \<le> p" "p \<le> 100"
    using progress_pct_cases [OF assms(2,4)] .
  then have "num_str (Fin (of_int p)) = nat_str (nat p)"
    using num_str_int [of p] by (simp add: int_str_def del: num_str.simps)
  with p assms show ?thesis
    by (intro exI [of _ "nat p"]) (simp add: ProgressBar_def Let_def)
qed

lemma progress_bar_width_witness:
  "\<exists>p. attr ''style'' (child 0 (ProgressBar [(''value'', Num (Fin 3)), (''max'', Num (Fin 4))]))
         = Obj [(''width'', Str (nat_str p @ ''%''))] \<and> p \<le> 100"
  by (rule progress_bar_width [of _ "Fin 3" 4]) simp_all

text \<open>
  The percentage grows with the value: between values that are not negative,
  infinities included, a larger one never gets a shorter bar.
\<close>

theorem progress_bar_monotone:
  assumes "nonneg v" "nonneg w" "num_le v w" "0 < m"
  shows "num_le (progress_pct (Num v) (Num (Fin m))) (progress_pct (Num w) (Num (Fin m)))"
proof -
  let ?r = "\<lambda>v. math_round (num_mul (num_div v (Fin m)) (Fin 100))"
  have n: "nonneg (?r v)" "nonneg (?r w)"
    by (intro nonneg_math_round nonneg_num_mul nonneg_num_div assms; simp)+
  have "num_le (?r v) (?r w)"
    by (intro math_round_mono num_mul_mono num_div_mono nonneg_num_mul nonneg_num_div assms; simp)
  with n have "num_le (math_min [Fin 100, ?r v]) (math_min [Fin 100, ?r w])"
    by (cases rule: nonneg_cases [case_product nonneg_cases]) (auto simp: math_min_nonneg)
  with assms(4) show ?thesis by (simp add: progress_pct_def lit_numeral)
qed

lemma progress_bar_monotone_witness:
  "num_le (progress_pct (Num (Fin 1)) (Num (Fin 4))) (progress_pct (Num PosInf) (Num (Fin 4)))"
  by (rule progress_bar_monotone) simp_all

end
