(* ===== verification/Tabs.thy ===== *)
theory Tabs
  imports Ui
begin

text \<open>
  \<open>src/components/Tabs.jsx\<close>: tabs that are linked to the fragment of the page's address. A
  click selects a tab and writes its hash; the browser then fires a \<open>hashchange\<close> event, which
  the listener of the component answers by selecting the tab of the hash. The listener is
  registered by an effect that runs again whenever the parent passes a new array of tabs.
\<close>

text \<open>A tab: its label and its content.\<close>

type_synonym tab = "string \<times> jv"

subsection \<open>Labels and hashes\<close>

definition lower_char :: "char \<Rightarrow> char" where
  "lower_char c = (case map_of (zip ''ABCDEFGHIJKLMNOPQRSTUVWXYZ'' ''abcdefghijklmnopqrstuvwxyz'') c of
     Some d \<Rightarrow> d | None \<Rightarrow> c)"

text \<open>\<open>replace(/\s+/g, "-")\<close>: the flag tells that the previous character was white space.\<close>

fun dash_spaces :: "bool \<Rightarrow> string \<Rightarrow> string" where
  "dash_spaces sp [] = []"
| "dash_spaces sp (c # cs) =
     (if is_space c then (if sp then dash_spaces True cs else CHR ''-'' # dash_spaces True cs)
      else c # dash_spaces False cs)"

definition labelToHash :: "string \<Rightarrow> string" where
  "labelToHash label = dash_spaces False (map lower_char label)"

text \<open>
  The fragment of an address: the setter of \<open>location.hash\<close> drops one leading \<open>#\<close> and tabs
  and line ends, and percent-encodes controls, space, quotes, angle brackets, backquote and
  everything outside ASCII; the getter puts the \<open>#\<close> in front of a fragment that is not empty.
\<close>

definition hex_digit :: "nat \<Rightarrow> char" where
  "hex_digit d = ''0123456789ABCDEF'' ! d"

definition fragment_escaped :: "char \<Rightarrow> bool" where
  "fragment_escaped c \<longleftrightarrow> (let n = of_char c :: nat in
     n < 32 \<or> 126 < n \<or> n \<in> {32, 34, 60, 62, 96})"

definition fragment_encode :: "string \<Rightarrow> string" where
  "fragment_encode s = concat (map (\<lambda>c. if fragment_escaped c
     then let n = of_char c :: nat in [CHR ''%'', hex_digit (n div 16), hex_digit (n mod 16)] else [c])
     (filter (\<lambda>c. (of_char c :: nat) \<notin> {9, 10, 13}) s))"

definition set_fragment :: "string \<Rightarrow> string" where
  "set_fragment v = fragment_encode (if take 1 v = ''#'' then drop 1 v else v)"

definition get_hash :: "string \<Rightarrow> string" where
  "get_hash fragment = (if fragment = [] then [] else CHR ''#'' # fragment)"

subsection \<open>The tab of a hash\<close>

text \<open>\<open>findIndex\<close>\<close>

fun find_index :: "('a \<Rightarrow> bool) \<Rightarrow> 'a list \<Rightarrow> int" where
  "find_index P [] = - 1"
| "find_index P (x # xs) =
     (if P x then 0 else let i = find_index P xs in if i < 0 then - 1 else i + 1)"

text \<open>\<open>window\<close> is undefined on the server; otherwise it holds the fragment.\<close>

definition getInitialTab :: "string option \<Rightarrow> tab list \<Rightarrow> nat" where
  "getInitialTab window tabs =
     (let hash = (case window of Some fragment \<Rightarrow> drop 1 (get_hash fragment) | None \<Rightarrow> '''');
          idx = find_index (\<lambda>t. labelToHash (fst t) = hash) tabs
      in if 0 \<le> idx then nat idx else 0)"

subsection \<open>The component in a page\<close>

text \<open>
  The state of the component (\<open>active\<close> and the tabs of the last render) with the part of the
  browser that it uses: the fragment, the \<open>hashchange\<close> events that are due and the listeners,
  each a registration number and the tabs that its closure captured.
\<close>

record tabs_state =
  active :: nat
  cur_tabs :: "tab list"
  fragment :: string
  listeners :: "(nat \<times> tab list) list"
  own_listener :: "nat option"
  next_id :: nat
  due :: nat

datatype tabs_event =
    Rerender "nat \<Rightarrow> jv"    \<comment> \<open>the parent passes a new array with new contents\<close>
  | Click nat
  | Navigate string         \<comment> \<open>the user edits the fragment\<close>
  | Dispatch                \<comment> \<open>the browser delivers a \<open>hashchange\<close> event\<close>
  | Unmount

definition write_fragment :: "string \<Rightarrow> tabs_state \<Rightarrow> tabs_state" where
  "write_fragment v s = (let f = set_fragment v in
     if f = fragment s then s else s\<lparr>fragment := f, due := Suc (due s)\<rparr>)"

text \<open>The effect: add a listener on mount and on new tabs; the clean-up removes it.\<close>

definition subscribe :: "tabs_state \<Rightarrow> tabs_state" where
  "subscribe s = s\<lparr>listeners := listeners s @ [(next_id s, cur_tabs s)],
                   own_listener := Some (next_id s), next_id := Suc (next_id s)\<rparr>"

definition unsubscribe :: "tabs_state \<Rightarrow> tabs_state" where
  "unsubscribe s = (case own_listener s of
       None \<Rightarrow> s
     | Some n \<Rightarrow> s\<lparr>listeners := filter (\<lambda>(m, _). m \<noteq> n) (listeners s), own_listener := None\<rparr>)"

definition select :: "nat \<Rightarrow> tabs_state \<Rightarrow> tabs_state" where
  "select i s = (write_fragment (labelToHash (fst (cur_tabs s ! i))) s)\<lparr>active := i\<rparr>"

definition new_contents :: "(nat \<Rightarrow> jv) \<Rightarrow> tab list \<Rightarrow> tab list" where
  "new_contents f tabs = map (\<lambda>i. (fst (tabs ! i), f i)) [0..<length tabs]"

definition onHashChange :: "tabs_state \<Rightarrow> nat \<times> tab list \<Rightarrow> tabs_state" where
  "onHashChange s l = s\<lparr>active := getInitialTab (Some (fragment s)) (snd l)\<rparr>"

text \<open>Once unmounted the component has no listener of its own, and shows nothing to click.\<close>

primrec tabs_step :: "tabs_event \<Rightarrow> tabs_state \<Rightarrow> tabs_state" where
  "tabs_step (Rerender f) s =
     (if own_listener s = None then s
      else subscribe (unsubscribe (s\<lparr>cur_tabs := new_contents f (cur_tabs s)\<rparr>)))"
| "tabs_step (Click i) s =
     (if own_listener s \<noteq> None \<and> i < length (cur_tabs s) then select i s else s)"
| "tabs_step (Navigate v) s = write_fragment v s"
| "tabs_step Dispatch s =
     (if due s = 0 then s
      else foldl onHashChange (s\<lparr>due := due s - 1\<rparr>) (listeners s))"
| "tabs_step Unmount s = unsubscribe s"

text \<open>The first render in a page with the given fragment.\<close>

definition tabs_mount :: "string \<Rightarrow> tab list \<Rightarrow> tabs_state" where
  "tabs_mount f tabs = subscribe
     \<lparr>active = getInitialTab (Some f) tabs, cur_tabs = tabs, fragment = f, listeners = [],
      own_listener = None, next_id = 0, due = 0\<rparr>"

definition Tabs :: "nat \<Rightarrow> tab list \<Rightarrow> jv" where
  "Tabs act tabs =
     El ''div'' []
       [El ''div'' [cls ''border-b flex gap-1 overflow-x-auto'']
          [Arr (map (\<lambda>(i, t). El ''button''
             [(''key'', nat_num i), (''onClick'', Clo ''select'' [nat_num i]),
              cls (''px-4 py-2 text-sm font-medium whitespace-nowrap transition-colors border-b-2 -mb-px ''
                   @ (if act = i then ''border-primary text-primary''
                      else ''border-transparent text-muted-foreground hover:text-foreground''))]
             [Str (fst t)]) (zip [0..<length tabs] tabs))],
        El ''div'' [cls ''pt-4''] [if act < length tabs then snd (tabs ! act) else Undef]]"

subsection \<open>Finding a tab\<close>

lemma find_index_bounds: "- 1 \<le> find_index P xs \<and> find_index P xs < int (length xs)"
  by (induction xs) (auto simp: Let_def)

lemma find_index_none: "(\<forall>x \<in> set xs. \<not> P x) \<Longrightarrow> find_index P xs = - 1"
  by (induction xs) auto

lemma find_index_distinct:
  "distinct (map f xs) \<Longrightarrow> i < length xs \<Longrightarrow> find_index (\<lambda>x. f x = f (xs ! i)) xs = int i"
proof (induction xs arbitrary: i)
  case Nil
  then show ?case by simp
next
  case (Cons x xs)
  show ?case
  proof (cases i)
    case 0
    then show ?thesis by simp
  next
    case (Suc j)
    with Cons.prems have "f x \<noteq> f (xs ! j)" by auto
    with Cons Suc show ?thesis by auto
  qed
qed

lemma getInitialTab_bound: "tabs \<noteq> [] \<Longrightarrow> getInitialTab w tabs < length tabs"
  using find_index_bounds by (auto simp: getInitialTab_def Let_def nat_less_iff)

lemma getInitialTab_cong:
  "map fst tabs = map fst tabs' \<Longrightarrow> getInitialTab w tabs = getInitialTab w tabs'"
proof -
  assume eq: "map fst tabs = map fst tabs'"
  have "find_index (\<lambda>t. P (fst t)) ts = find_index P (map fst ts)" for P and ts :: "tab list"
    by (induction ts) auto
  from this [of "\<lambda>l. labelToHash l = _"] show ?thesis
    unfolding getInitialTab_def eq by (simp add: eq)
qed

text \<open>A hash that the address bar keeps as it is.\<close>

definition plain_hash :: "string \<Rightarrow> bool" where
  "plain_hash h \<longleftrightarrow> (\<forall>c \<in> set h. \<not> fragment_escaped c \<and> c \<noteq> CHR ''#'')"

lemma fragment_encode_plain: "plain_hash h \<Longrightarrow> fragment_encode h = h"
proof (induction h)
  case Nil
  then show ?case by (simp add: fragment_encode_def)
next
  case (Cons c h)
  have "(of_char c :: nat) \<notin> {9, 10, 13}"
    using Cons.prems by (auto simp: plain_hash_def fragment_escaped_def Let_def)
  with Cons show ?case by (simp add: fragment_encode_def plain_hash_def)
qed

lemma set_fragment_plain: "plain_hash h \<Longrightarrow> set_fragment h = h"
  by (cases h) (simp_all add: set_fragment_def fragment_encode_plain plain_hash_def)

lemma drop_get_hash [simp]: "drop (Suc 0) (get_hash f) = f"
  by (simp add: get_hash_def)

text \<open>
  Tabs whose labels make distinct hashes that survive the address bar: what the component
  needs for its links to work.
\<close>

definition linkable :: "tab list \<Rightarrow> bool" where
  "linkable tabs \<longleftrightarrow> distinct (map (\<lambda>t. labelToHash (fst t)) tabs) \<and>
     (\<forall>t \<in> set tabs. plain_hash (labelToHash (fst t)))"

lemma getInitialTab_own_hash:
  assumes "linkable tabs" "i < length tabs"
  shows "getInitialTab (Some (set_fragment (labelToHash (fst (tabs ! i))))) tabs = i"
proof -
  have "set_fragment (labelToHash (fst (tabs ! i))) = labelToHash (fst (tabs ! i))"
    using assms by (simp add: linkable_def set_fragment_plain)
  moreover have "find_index (\<lambda>t. labelToHash (fst t) = labelToHash (fst (tabs ! i))) tabs = int i"
    using find_index_distinct [of "\<lambda>t. labelToHash (fst t)" tabs i] assms by (simp add: linkable_def)
  ultimately show ?thesis by (simp add: getInitialTab_def)
qed

lemma map_fst_new_contents [simp]: "map fst (new_contents f tabs) = map fst tabs"
  by (rule nth_equalityI) (simp_all add: new_contents_def)

lemma length_new_contents [simp]: "length (new_contents f tabs) = length tabs"
  by (simp add: new_contents_def)

lemma linkable_cong: "map fst tabs = map fst tabs' \<Longrightarrow> linkable tabs = linkable tabs'"
proof -
  assume eq: "map fst tabs = map fst tabs'"
  have "map (\<lambda>t. labelToHash (fst t)) ts = map labelToHash (map fst ts)" for ts :: "tab list" by simp
  moreover have "(\<forall>t \<in> set ts. plain_hash (labelToHash (fst t))) \<longleftrightarrow>
      (\<forall>l \<in> set (map fst ts). plain_hash (labelToHash l))" for ts :: "tab list" by simp
  ultimately show ?thesis unfolding linkable_def eq by (simp only: eq)
qed

subsection \<open>Invariant\<close>

text \<open>
  The labels never change; the active tab exists; a mounted component has exactly one
  listener, whose closure holds the current tabs, and an unmounted one has none.
\<close>

definition tabs_inv :: "string list \<Rightarrow> tabs_state \<Rightarrow> bool" where
  "tabs_inv labels s \<longleftrightarrow>
     map fst (cur_tabs s) = labels \<and> active s < length labels \<and>
     listeners s = (case own_listener s of None \<Rightarrow> [] | Some n \<Rightarrow> [(n, cur_tabs s)])"

lemma tabs_inv_mount: "tabs \<noteq> [] \<Longrightarrow> tabs_inv (map fst tabs) (tabs_mount f tabs)"
  by (simp add: tabs_inv_def tabs_mount_def subscribe_def getInitialTab_bound)

lemma write_fragment_simps [simp]:
  "active (write_fragment v s) = active s"
  "cur_tabs (write_fragment v s) = cur_tabs s"
  "listeners (write_fragment v s) = listeners s"
  "own_listener (write_fragment v s) = own_listener s"
  "fragment (write_fragment v s) = set_fragment v"
  by (simp_all add: write_fragment_def Let_def)

lemma write_fragment_due: "fragment s \<noteq> set_fragment v \<Longrightarrow> due (write_fragment v s) = Suc (due s)"
  by (simp add: write_fragment_def Let_def)

lemma tabs_inv_length: "tabs_inv labels s \<Longrightarrow> length (cur_tabs s) = length labels"
  unfolding tabs_inv_def by (metis length_map)

lemma tabs_inv_step:
  assumes "tabs_inv labels s"
  shows "tabs_inv labels (tabs_step e s)"
proof (cases e)
  case (Rerender f)
  with assms show ?thesis
    by (auto simp: tabs_inv_def subscribe_def unsubscribe_def split: option.splits)
next
  case (Click i)
  with assms tabs_inv_length [OF assms] show ?thesis
    by (auto simp: tabs_inv_def select_def split: option.splits)
next
  case (Navigate v)
  with assms show ?thesis by (auto simp: tabs_inv_def split: option.splits)
next
  case Dispatch
  have "cur_tabs s \<noteq> []" using assms by (auto simp: tabs_inv_def)
  then have "getInitialTab (Some (fragment s)) (cur_tabs s) < length labels"
    using getInitialTab_bound tabs_inv_length [OF assms] by metis
  with Dispatch assms show ?thesis
    by (auto simp: tabs_inv_def onHashChange_def split: option.splits)
next
  case Unmount
  with assms show ?thesis by (auto simp: tabs_inv_def unsubscribe_def split: option.splits)
qed

interpretation tabs: machine tabs_step "tabs_mount f (t # ts)" "tabs_inv (map fst (t # ts))" for f t ts
  using tabs_inv_mount [of "t # ts" f] by unfold_locales (simp_all add: tabs_inv_step)

lemma tabs_inv_run:
  "tabs \<noteq> [] \<Longrightarrow> tabs_inv (map fst tabs) (run tabs_step es (tabs_mount f tabs))"
  using tabs.inv_run by (cases tabs) auto

text \<open>
  Claim C25. In every history of renders, clicks, navigations, \<open>hashchange\<close> events and
  unmounting the active tab exists, and the page holds no stale listener: at most one is
  registered, with the current tabs, and none after the component is unmounted.
\<close>

theorem tabs_no_stale_listener:
  assumes "tabs \<noteq> []" and s: "s = run tabs_step es (tabs_mount f tabs)"
  shows "active s < length tabs \<and> length (cur_tabs s) = length tabs \<and>
    listeners s = (case own_listener s of None \<Rightarrow> [] | Some n \<Rightarrow> [(n, cur_tabs s)]) \<and>
    listeners (tabs_step Unmount s) = []"
proof -
  have inv: "tabs_inv (map fst tabs) s" unfolding s by (rule tabs_inv_run) fact
  then show ?thesis using tabs_inv_length [OF inv]
    by (auto simp: tabs_inv_def unsubscribe_def split: option.splits)
qed

lemma tabs_no_stale_listener_witness:
  "listeners (tabs_step Unmount (run tabs_step [Rerender (\<lambda>_. Null), Click 1, Dispatch]
      (tabs_mount '''' [(''A'', Null), (''B'', Null)]))) = []"
  using tabs_no_stale_listener [of "[(''A'', Null), (''B'', Null)]"
      _ "[Rerender (\<lambda>_. Null), Click 1, Dispatch]" "''''", OF _ refl]
  by simp

lemma dispatch_active:
  assumes "tabs_inv labels s" "own_listener s = Some n" "due s \<noteq> 0"
  shows "active (tabs_step Dispatch s) = getInitialTab (Some (fragment s)) (cur_tabs s)"
    and "fragment (tabs_step Dispatch s) = fragment s"
    and "cur_tabs (tabs_step Dispatch s) = cur_tabs s"
    and "own_listener (tabs_step Dispatch s) = Some n"
  using assms by (simp_all add: tabs_inv_def onHashChange_def)

lemma dispatch_keeps_selected:
  assumes "linkable (cur_tabs s)" "tabs_inv labels s" "own_listener s = Some n" "i < length (cur_tabs s)"
    and "active s = i" "fragment s = set_fragment (labelToHash (fst (cur_tabs s ! i)))"
  shows "active (run tabs_step (replicate k Dispatch) s) = i"
  using assms
proof (induction k arbitrary: s)
  case 0
  then show ?case by simp
next
  case (Suc k)
  show ?case
  proof (cases "due s = 0")
    case True
    with Suc show ?thesis by simp
  next
    case False
    note d = dispatch_active [OF Suc.prems(2,3) False]
    have "active (tabs_step Dispatch s) = i"
      unfolding d(1) Suc.prems(6) by (rule getInitialTab_own_hash) fact+
    with Suc.IH [of "tabs_step Dispatch s"] Suc.prems d(2-4) tabs_inv_step [OF Suc.prems(2), of Dispatch]
    show ?thesis by simp
  qed
qed

text \<open>
  A selected tab stays selected: whatever happened before, after a click on a tab
  any number of \<open>hashchange\<close> events, the one that the click itself caused included, leave that
  tab active.
\<close>

theorem click_is_stable:
  assumes "linkable tabs" "i < length tabs"
    and "s = run tabs_step es (tabs_mount f tabs)" "own_listener s = Some n"
  shows "active (run tabs_step (Click i # replicate k Dispatch) s) = i"
proof -
  have inv: "tabs_inv (map fst tabs) s"
    unfolding assms(3) using assms(2) by (intro tabs_inv_run) auto
  then have cur: "map fst (cur_tabs s) = map fst tabs" "length (cur_tabs s) = length tabs"
    using tabs_inv_length [OF inv] by (simp_all add: tabs_inv_def)
  have link: "linkable (cur_tabs s)" using assms(1) linkable_cong [OF cur(1)] by simp
  let ?t = "tabs_step (Click i) s"
  have t: "?t = select i s" using assms(2,4) cur(2) by simp
  have "active (run tabs_step (replicate k Dispatch) ?t) = i"
    by (rule dispatch_keeps_selected [where labels = "map fst tabs" and n = n])
       (use link inv assms(2,4) cur(2) in \<open>simp_all add: t select_def tabs_inv_step [of _ s "Click i", unfolded t select_def]\<close>)
  then show ?thesis by simp
qed

lemma click_is_stable_witness:
  "active (run tabs_step (Click 1 # replicate 2 Dispatch)
     (run tabs_step [Click 0] (tabs_mount ''b'' [(''A'', Null), (''B'', Null)]))) = 1"
  by (rule click_is_stable [where tabs = "[(''A'', Null), (''B'', Null)]" and n = 0, OF _ _ refl])
     (simp_all add: linkable_def labelToHash_def lower_char_def is_space_def plain_hash_def
        fragment_escaped_def tabs_mount_def subscribe_def select_def write_fragment_def Let_def)

text \<open>
  Deep links: a page opened at a fragment shows the tab whose label has that
  hash, and the first tab if there is none.
\<close>

theorem deep_link:
  assumes "linkable tabs"
  shows "active (tabs_mount h tabs) =
    (case filter (\<lambda>i. labelToHash (fst (tabs ! i)) = h) [0..<length tabs] of [] \<Rightarrow> 0 | i # js \<Rightarrow> i)"
proof (cases "filter (\<lambda>i. labelToHash (fst (tabs ! i)) = h) [0..<length tabs]")
  case Nil
  then have "\<forall>t \<in> set tabs. labelToHash (fst t) \<noteq> h"
    by (force simp: filter_empty_conv in_set_conv_nth)
  then have "find_index (\<lambda>t. labelToHash (fst t) = h) tabs = - 1" by (rule find_index_none)
  with Nil show ?thesis by (simp add: tabs_mount_def subscribe_def getInitialTab_def)
next
  case (Cons i js)
  then have "i \<in> set (filter (\<lambda>i. labelToHash (fst (tabs ! i)) = h) [0..<length tabs])" by simp
  then have i: "i < length tabs" "labelToHash (fst (tabs ! i)) = h" by auto
  then have "set_fragment h = h" using assms by (auto simp: linkable_def set_fragment_plain)
  with getInitialTab_own_hash [OF assms i(1)] i(2) Cons show ?thesis
    by (simp add: tabs_mount_def subscribe_def)
qed

lemma deep_link_witness:
  "active (tabs_mount ''b-b'' [(''A'', Null), (''B B'', Null)]) = 1"
proof -
  have "linkable [(''A'', Null), (''B B'', Null)]"
    by (simp add: linkable_def labelToHash_def lower_char_def is_space_def plain_hash_def
        fragment_escaped_def Let_def)
  from deep_link [OF this, of "''b-b''"] show ?thesis
    by (simp add: labelToHash_def lower_char_def is_space_def)
qed

end
