(* ===== verification/JsSort.thy ===== *)
theory JsSort
  imports JsNumber "HOL-Library.Multiset"
begin

text \<open>
  \<open>Array.prototype.sort\<close> with a comparator. A sort asks the comparator whether an element
  goes before another, that is whether the result is negative (NaN counts as zero); what it
  promises when the answers form a strict weak order is the locale \<open>array_sort\<close>, which the
  sorting components use. The binary insertion sort of V8 is modelled by insertion from the
  left and interprets the locale.
\<close>

definition goes_before :: "('a \<Rightarrow> 'a \<Rightarrow> number) \<Rightarrow> 'a \<Rightarrow> 'a \<Rightarrow> bool" where
  "goes_before c x y = num_lt (c x y) (Fin 0)"

definition tied :: "('a \<Rightarrow> 'a \<Rightarrow> number) \<Rightarrow> 'a \<Rightarrow> 'a \<Rightarrow> bool" where
  "tied c x y \<longleftrightarrow> \<not> goes_before c x y \<and> \<not> goes_before c y x"

text \<open>The comparator orders the elements of \<open>S\<close>: a strict weak order.\<close>

definition consistent :: "('a \<Rightarrow> 'a \<Rightarrow> number) \<Rightarrow> 'a set \<Rightarrow> bool" where
  "consistent c S \<longleftrightarrow>
     (\<forall>x \<in> S. \<forall>y \<in> S. goes_before c x y \<longrightarrow> \<not> goes_before c y x) \<and>
     (\<forall>x \<in> S. \<forall>y \<in> S. \<forall>z \<in> S. goes_before c x y \<longrightarrow> goes_before c x z \<or> goes_before c z y)"

lemma consistent_asym:
  "consistent c S \<Longrightarrow> x \<in> S \<Longrightarrow> y \<in> S \<Longrightarrow> goes_before c x y \<Longrightarrow> \<not> goes_before c y x"
  unfolding consistent_def by blast

lemma consistent_cotrans:
  "consistent c S \<Longrightarrow> goes_before c x y \<Longrightarrow> x \<in> S \<Longrightarrow> y \<in> S \<Longrightarrow> z \<in> S \<Longrightarrow>
     goes_before c x z \<or> goes_before c z y"
  unfolding consistent_def by blast

lemma consistent_subset: "consistent c S \<Longrightarrow> T \<subseteq> S \<Longrightarrow> consistent c T"
  unfolding consistent_def by blast

text \<open>A comparator that compares keys of a linear order is consistent.\<close>

lemma consistent_key:
  fixes key :: "'a \<Rightarrow> 'b :: linorder"
  assumes "\<And>x y. x \<in> S \<Longrightarrow> y \<in> S \<Longrightarrow> goes_before c x y \<longleftrightarrow> key x < key y"
  shows "consistent c S"
  unfolding consistent_def using assms by (auto simp: not_less)

text \<open>The same with a class of elements that goes after all the others, in no order.\<close>

lemma consistent_key_last:
  fixes key :: "'a \<Rightarrow> 'b :: linorder"
  assumes "\<And>x y. x \<in> S \<Longrightarrow> y \<in> S \<Longrightarrow>
      goes_before c x y \<longleftrightarrow> \<not> atend x \<and> (atend y \<or> key x < key y)"
  shows "consistent c S"
  unfolding consistent_def using assms by (auto simp: not_less)

subsection \<open>The contract of a sort\<close>

locale array_sort =
  fixes sort :: "('a \<Rightarrow> 'a \<Rightarrow> number) \<Rightarrow> 'a list \<Rightarrow> 'a list"
  assumes sort_perm: "mset (sort c xs) = mset xs"
    and sort_sorted: "consistent c (set xs) \<Longrightarrow> sorted_wrt (\<lambda>x y. \<not> goes_before c y x) (sort c xs)"
    and sort_stable: "consistent c (set xs) \<Longrightarrow> z \<in> set xs \<Longrightarrow>
          filter (tied c z) (sort c xs) = filter (tied c z) xs"
begin

lemma set_sort [simp]: "set (sort c xs) = set xs"
  using sort_perm [of c xs] by (metis set_mset_mset)

lemma length_sort [simp]: "length (sort c xs) = length xs"
  using sort_perm [of c xs] by (metis size_mset)

lemma sort_Nil_iff [simp]: "sort c xs = [] \<longleftrightarrow> xs = []"
  using length_sort [of c xs] by (metis length_0_conv)

text \<open>The elements of a prefix do not come after any of the others.\<close>

lemma sort_prefix:
  assumes "consistent c (set xs)" "x \<in> set (take k (sort c xs))" "y \<in> set (drop k (sort c xs))"
  shows "\<not> goes_before c y x"
proof -
  have "sorted_wrt (\<lambda>x y. \<not> goes_before c y x) (take k (sort c xs) @ drop k (sort c xs))"
    using sort_sorted [OF assms(1)] by simp
  with assms(2,3) show ?thesis by (simp only: sorted_wrt_append) blast
qed

text \<open>Elements that are tied with one another keep their order.\<close>

lemma sort_stable_class:
  assumes c: "consistent c (set xs)"
    and P: "\<And>x y. x \<in> set xs \<Longrightarrow> y \<in> set xs \<Longrightarrow> P x \<Longrightarrow> tied c x y \<longleftrightarrow> P y"
  shows "filter P (sort c xs) = filter P xs"
proof (cases "\<exists>z \<in> set xs. P z")
  case True
  then obtain z where z: "z \<in> set xs" "P z" by blast
  have "filter P ys = filter (tied c z) ys" if "set ys \<subseteq> set xs" for ys
    using that P [OF z(1) _ z(2)] by (intro filter_cong) auto
  then show ?thesis using sort_stable [OF c z(1)] by simp
next
  case False
  then have "filter P (sort c xs) = []" "filter P xs = []" by (auto simp: filter_empty_conv)
  then show ?thesis by simp
qed

text \<open>A class of elements that goes before all the others comes first.\<close>

lemma sort_partition:
  assumes c: "consistent c (set xs)"
    and P: "\<And>x y. x \<in> set xs \<Longrightarrow> y \<in> set xs \<Longrightarrow> P x \<Longrightarrow> \<not> P y \<Longrightarrow> goes_before c x y"
  shows "sort c xs = filter P (sort c xs) @ filter (\<lambda>x. \<not> P x) (sort c xs)"
proof -
  have "sorted_wrt (\<lambda>x y. \<not> goes_before c y x) ys \<Longrightarrow> set ys \<subseteq> set xs \<Longrightarrow>
      ys = filter P ys @ filter (\<lambda>x. \<not> P x) ys" for ys
  proof (induction ys)
    case Nil
    then show ?case by simp
  next
    case (Cons y ys)
    show ?case
    proof (cases "P y")
      case True
      with Cons show ?thesis by simp
    next
      case False
      have "\<not> P z" if "z \<in> set ys" for z
        using Cons.prems that P [of z y] False by auto
      with False show ?thesis by simp
    qed
  qed
  from this [OF sort_sorted [OF c]] show ?thesis by simp
qed

end

subsection \<open>The sort of the model\<close>

fun insert_before :: "('a \<Rightarrow> 'a \<Rightarrow> number) \<Rightarrow> 'a \<Rightarrow> 'a list \<Rightarrow> 'a list" where
  "insert_before c x [] = [x]"
| "insert_before c x (y # ys) =
     (if goes_before c x y then x # y # ys else y # insert_before c x ys)"

definition js_sort :: "('a \<Rightarrow> 'a \<Rightarrow> number) \<Rightarrow> 'a list \<Rightarrow> 'a list" where
  "js_sort c xs = foldl (\<lambda>ys x. insert_before c x ys) [] xs"

lemma mset_insert_before: "mset (insert_before c x ys) = add_mset x (mset ys)"
  by (induction ys) auto

lemma set_insert_before [simp]: "set (insert_before c x ys) = insert x (set ys)"
  using mset_insert_before [of c x ys] by (metis set_mset_add_mset_insert set_mset_mset)

lemma sorted_insert_before:
  assumes "consistent c (insert x (set ys))" "sorted_wrt (\<lambda>x y. \<not> goes_before c y x) ys"
  shows "sorted_wrt (\<lambda>x y. \<not> goes_before c y x) (insert_before c x ys)"
  using assms
proof (induction ys)
  case Nil
  then show ?case by simp
next
  case (Cons y ys)
  have sub: "consistent c (insert x (set ys))"
    using Cons.prems(1) by (rule consistent_subset) auto
  show ?case
  proof (cases "goes_before c x y")
    case True
    have "\<not> goes_before c z x" if z: "z \<in> set (y # ys)" for z
    proof
      assume "goes_before c z x"
      then have "goes_before c z y \<or> goes_before c y x"
        using consistent_cotrans [OF Cons.prems(1)] z by simp
      moreover have "\<not> goes_before c y x"
        using consistent_asym [OF Cons.prems(1) _ _ True] by simp
      moreover have "\<not> goes_before c z y"
        using Cons.prems(2) z True \<open>goes_before c z x\<close> \<open>\<not> goes_before c y x\<close> by auto
      ultimately show False by blast
    qed
    with True Cons.prems show ?thesis by auto
  next
    case False
    with Cons sub show ?thesis by auto
  qed
qed

lemma filter_insert_before:
  assumes "consistent c (insert x (insert z (set ys)))" "sorted_wrt (\<lambda>x y. \<not> goes_before c y x) ys"
  shows "filter (tied c z) (insert_before c x ys) = filter (tied c z) (ys @ [x])"
  using assms
proof (induction ys)
  case Nil
  then show ?case by simp
next
  case (Cons y ys)
  have sub: "consistent c (insert x (insert z (set ys)))"
    using Cons.prems(1) by (rule consistent_subset) auto
  show ?case
  proof (cases "goes_before c x y")
    case True
    show ?thesis
    proof (cases "tied c z x")
      case True': True
      have "\<not> tied c z w" if w: "w \<in> set (y # ys)" for w
      proof
        assume t: "tied c z w"
        have "\<not> goes_before c w y"
          using Cons.prems w consistent_asym [OF Cons.prems(1), of y y] by auto
        then have "goes_before c x w"
          using consistent_cotrans [OF Cons.prems(1) True, of w] w by auto
        then have "goes_before c x z \<or> goes_before c z w"
          using consistent_cotrans [OF Cons.prems(1), of x w z] w by auto
        with True' t show False by (simp add: tied_def)
      qed
      then have "filter (tied c z) (y # ys) = []" by (simp add: filter_empty_conv)
      with True True' show ?thesis by auto
    next
      case False
      with True show ?thesis by simp
    qed
  next
    case False
    with Cons sub show ?thesis by auto
  qed
qed

lemma js_sort_snoc: "js_sort c (xs @ [x]) = insert_before c x (js_sort c xs)"
  by (simp add: js_sort_def)

lemma mset_js_sort: "mset (js_sort c xs) = mset xs"
  by (induction xs rule: rev_induct) (simp_all add: js_sort_snoc mset_insert_before, simp add: js_sort_def)

lemma set_js_sort: "set (js_sort c xs) = set xs"
  using mset_js_sort [of c xs] by (metis set_mset_mset)

lemma sorted_js_sort:
  "consistent c (set xs) \<Longrightarrow> sorted_wrt (\<lambda>x y. \<not> goes_before c y x) (js_sort c xs)"
proof (induction xs rule: rev_induct)
  case Nil
  then show ?case by (simp add: js_sort_def)
next
  case (snoc x xs)
  then have "consistent c (set xs)" by (auto intro: consistent_subset)
  with snoc show ?case
    by (simp add: js_sort_snoc sorted_insert_before set_js_sort)
qed

lemma stable_js_sort:
  "consistent c (set xs) \<Longrightarrow> z \<in> S \<Longrightarrow> consistent c (S \<union> set xs) \<Longrightarrow>
     filter (tied c z) (js_sort c xs) = filter (tied c z) xs"
proof (induction xs rule: rev_induct)
  case Nil
  then show ?case by (simp add: js_sort_def)
next
  case (snoc x xs)
  have c: "consistent c (set xs)" "consistent c (S \<union> set xs)"
    using snoc.prems by (auto intro: consistent_subset)
  have "consistent c (insert x (insert z (set (js_sort c xs))))"
    using snoc.prems(2,3) by (auto simp: set_js_sort intro: consistent_subset)
  with snoc.IH [OF c(1) snoc.prems(2) c(2)] sorted_js_sort [OF c(1)]
  show ?case by (simp add: js_sort_snoc filter_insert_before)
qed

interpretation v8_sort: array_sort js_sort
proof unfold_locales
  fix c :: "'a \<Rightarrow> 'a \<Rightarrow> number" and xs z
  show "mset (js_sort c xs) = mset xs" by (rule mset_js_sort)
  show "consistent c (set xs) \<Longrightarrow> sorted_wrt (\<lambda>x y. \<not> goes_before c y x) (js_sort c xs)"
    by (rule sorted_js_sort)
  show "consistent c (set xs) \<Longrightarrow> z \<in> set xs \<Longrightarrow>
      filter (tied c z) (js_sort c xs) = filter (tied c z) xs"
    by (rule stable_js_sort [of c xs z "set xs"]) simp_all
qed

end
