(* ===== verification/DataTable.thy ===== *)
theory DataTable
  imports Ui JsSort
begin

text \<open>
  \<open>src/components/DataTable.jsx\<close>: a table whose rows are sorted by the column that the user
  clicked last. The component keeps two state variables, the sort column (null at first) and
  the direction. Rows are compared by a comparator that puts empty cells last, compares
  numbers by their difference and everything else by \<open>localeCompare\<close>.
\<close>

text \<open>
  The locale-dependent functions of the standard library: dates as text (from milliseconds
  since the epoch) and the collation of strings.
\<close>

record env =
  locale_string :: "number \<Rightarrow> string"
  locale_time :: "number \<Rightarrow> string"
  locale_compare :: "string \<Rightarrow> string \<Rightarrow> number"

text \<open>
  An environment for examples: numbers for dates, and strings compared by their code units.
\<close>

definition plain_env :: env where
  "plain_env = \<lparr>locale_string = num_str, locale_time = num_str,
     locale_compare = (\<lambda>a b. if str_lt a b then Fin (- 1) else if str_lt b a then Fin 1 else Fin 0)\<rparr>"

subsection \<open>State\<close>

record table_state =
  sortCol :: jv
  sortAsc :: bool

definition table_init :: table_state where
  "table_init = \<lparr>sortCol = Null, sortAsc = True\<rparr>"

definition handleSort :: "jv \<Rightarrow> table_state \<Rightarrow> table_state" where
  "handleSort col s =
     (if strict_eq (sortCol s) col then s\<lparr>sortAsc := \<not> sortAsc s\<rparr>
      else s\<lparr>sortCol := col, sortAsc := True\<rparr>)"

subsection \<open>Sorting\<close>

definition row_compare :: "env \<Rightarrow> table_state \<Rightarrow> jv \<Rightarrow> jv \<Rightarrow> number" where
  "row_compare e s a b =
     (let av = opt_get a (to_str (sortCol s)); bv = opt_get b (to_str (sortCol s)) in
      if nullish av then Fin 1
      else if nullish bv then Fin (- 1)
      else let cmp = (if typeof av = ''number'' then to_num (js_sub av bv)
                      else locale_compare e (to_str av) (to_str bv))
           in if sortAsc s then cmp else num_neg cmp)"

text \<open>
  The rows in the order in which they are shown. The comparator reads a property of every
  row as soon as there are two, which throws for a null row.
\<close>

definition sorted_rows :: "env \<Rightarrow> table_state \<Rightarrow> jv \<Rightarrow> jv throws" where
  "sorted_rows e s rows =
     (if truthy (sortCol s)
      then do {
        xs \<leftarrow> spread rows;
        if 2 \<le> length xs \<and> list_ex nullish xs then None
        else Some (Arr (js_sort (row_compare e s) xs))
      }
      else Some rows)"

subsection \<open>Rendering\<close>

definition header_cell :: "table_state \<Rightarrow> jv \<Rightarrow> jv throws" where
  "header_cell s c = do {
     key \<leftarrow> get c ''key'';
     label \<leftarrow> get c ''label'';
     Some (El ''th''
       [(''key'', key),
        cls ''px-4 py-2 text-left font-medium cursor-pointer select-none hover:bg-accent'',
        (''onClick'', Clo ''handleSort'' [key])]
       [label,
        Str (if strict_eq (sortCol s) key
             then (if sortAsc s then '' '' @ arrow_up else '' '' @ arrow_down) else '''')])
   }"

definition data_cell :: "jv \<Rightarrow> jv \<Rightarrow> jv throws" where
  "data_cell row c = do {
     key \<leftarrow> get c ''key'';
     v \<leftarrow> get row (to_str key);
     Some (El ''td'' [(''key'', key), cls ''px-4 py-2''] [coalesce v (Str em_dash)])
   }"

text \<open>\<open>call f x\<close> applies the closure of the \<open>rowClassName\<close> property to a row.\<close>

definition data_row :: "(jv \<Rightarrow> jv \<Rightarrow> jv throws) \<Rightarrow> props \<Rightarrow> nat \<Rightarrow> jv \<Rightarrow> jv throws" where
  "data_row call ps i row = do {
     rc \<leftarrow> (if truthy (lookup ps ''rowClassName'')
            then call (lookup ps ''rowClassName'') row else Some (Str ''''));
     cells \<leftarrow> js_map (lookup ps ''columns'') (data_cell row);
     Some (El ''tr''
       [(''key'', nat_num i), cls (''border-t hover:bg-muted/50 '' @ to_str rc)] [cells])
   }"

definition DataTable :: "env \<Rightarrow> (jv \<Rightarrow> jv \<Rightarrow> jv throws) \<Rightarrow> table_state \<Rightarrow> props \<Rightarrow> jv throws" where
  "DataTable e call s ps = do {
     sorted \<leftarrow> sorted_rows e s (lookup ps ''rows'');
     headers \<leftarrow> js_map (lookup ps ''columns'') (header_cell s);
     n \<leftarrow> get sorted ''length'';
     ncols \<leftarrow> get (lookup ps ''columns'') ''length'';
     body \<leftarrow> (if strict_eq n (lit 0)
        then Some (El ''tr'' []
          [El ''td'' [(''colSpan'', ncols), cls ''px-4 py-6 text-center text-muted-foreground'']
             [pget ps ''emptyText'' (Str ''No data.'')]])
        else case sorted of
            Arr xs \<Rightarrow> map_option Arr (mapM (\<lambda>(i, row). data_row call ps i row) (zip [0..<length xs] xs))
          | _ \<Rightarrow> None);
     Some (El ''div'' [cls ''overflow-x-auto rounded-lg border'']
       [El ''table'' [cls ''w-full text-sm'']
         [El ''thead'' [cls ''bg-muted text-muted-foreground''] [El ''tr'' [] [headers]],
          El ''tbody'' [] [body]]])
   }"

subsection \<open>The sort state\<close>

lemma handleSort_same [simp]: "sortCol s = Str c \<Longrightarrow> handleSort (Str c) s = s\<lparr>sortAsc := \<not> sortAsc s\<rparr>"
  by (simp add: handleSort_def)

lemma handleSort_other [simp]:
  "sortCol s \<noteq> Str c \<Longrightarrow> handleSort (Str c) s = \<lparr>sortCol = Str c, sortAsc = True\<rparr>"
  by (simp add: handleSort_def)

lemma sortCol_handleSort [simp]: "sortCol (handleSort (Str c) s) = Str c"
  by (cases "sortCol s = Str c") simp_all

lemma sortCol_run:
  "sortCol (run handleSort (map Str cs) s) = (if cs = [] then sortCol s else Str (last cs))"
  by (induction cs arbitrary: s) simp_all

lemma run_same_column:
  "sortCol s = Str c \<Longrightarrow> run handleSort (replicate n (Str c)) s = s\<lparr>sortAsc := (if even n then sortAsc s else \<not> sortAsc s)\<rparr>"
  by (induction n arbitrary: s) auto

text \<open>
  After any history of clicks the table is sorted by the column clicked last,
  ascending if that column has been clicked an odd number of times in a row and descending
  otherwise.
\<close>

theorem sort_state_of_clicks:
  assumes "cs = [] \<or> last cs \<noteq> c"
  shows "run handleSort (map Str (cs @ replicate (Suc n) c)) table_init =
           \<lparr>sortCol = Str c, sortAsc = even n\<rparr>"
proof -
  let ?s = "run handleSort (map Str cs) table_init"
  have "sortCol ?s \<noteq> Str c" using assms by (auto simp: sortCol_run table_init_def)
  then have "handleSort (Str c) ?s = \<lparr>sortCol = Str c, sortAsc = True\<rparr>" by simp
  then show ?thesis by (simp add: run_append run_same_column)
qed

lemma sort_state_of_clicks_witness:
  "run handleSort (map Str ([''hits'', ''url''] @ replicate (Suc 1) ''hits'')) table_init =
     \<lparr>sortCol = Str ''hits'', sortAsc = even (1 :: nat)\<rparr>"
  by (rule sort_state_of_clicks) simp

subsection \<open>The order of the rows\<close>

text \<open>The cell of the sort column.\<close>

definition sort_cell :: "table_state \<Rightarrow> jv \<Rightarrow> jv" where
  "sort_cell s r = opt_get r (to_str (sortCol s))"

definition empty_cell :: "table_state \<Rightarrow> jv \<Rightarrow> bool" where
  "empty_cell s r \<longleftrightarrow> nullish (sort_cell s r)"

lemma row_compare_empty:
  "empty_cell s x \<Longrightarrow> \<not> goes_before (row_compare e s) x y"
  "\<not> empty_cell s x \<Longrightarrow> empty_cell s y \<Longrightarrow> goes_before (row_compare e s) x y"
  by (simp_all add: goes_before_def row_compare_def empty_cell_def sort_cell_def)

lemma sorted_rows_Arr:
  assumes "sortCol s = Str col" "col \<noteq> ''''" "\<forall>r \<in> set xs. \<not> nullish r"
  shows "sorted_rows e s (Arr xs) = Some (Arr (js_sort (row_compare e s) xs))"
  using assms by (auto simp: sorted_rows_def spread_def list_ex_iff)

text \<open>
  If the comparator orders the rows that have a cell by a key, the sort is those rows in the
  order of the key, followed by the rows without one in their original order.
\<close>

lemma js_sort_rows:
  fixes key :: "jv \<Rightarrow> 'k :: linorder"
  assumes key: "\<And>x y. x \<in> set xs \<Longrightarrow> y \<in> set xs \<Longrightarrow> \<not> empty_cell s x \<Longrightarrow> \<not> empty_cell s y \<Longrightarrow>
      goes_before (row_compare e s) x y \<longleftrightarrow> key x < key y"
  shows "\<exists>ys. js_sort (row_compare e s) xs = ys @ filter (empty_cell s) xs \<and>
      mset ys = mset (filter (\<lambda>r. \<not> empty_cell s r) xs) \<and> sorted_wrt (\<lambda>x y. key x \<le> key y) ys"
proof -
  let ?c = "row_compare e s" and ?full = "\<lambda>r. \<not> empty_cell s r"
  have gb: "goes_before ?c x y \<longleftrightarrow> \<not> empty_cell s x \<and> (empty_cell s y \<or> key x < key y)"
    if "x \<in> set xs" "y \<in> set xs" for x y
    using key [OF that] row_compare_empty(1) [of s x e y] row_compare_empty(2) [of s x y e] by blast
  have cons: "consistent ?c (set xs)" by (rule consistent_key_last) (rule gb)
  have "js_sort ?c xs = filter ?full (js_sort ?c xs) @ filter (\<lambda>r. \<not> ?full r) (js_sort ?c xs)"
    by (rule v8_sort.sort_partition [OF cons]) (simp add: gb)
  moreover have "filter (empty_cell s) (js_sort ?c xs) = filter (empty_cell s) xs"
    by (rule v8_sort.sort_stable_class [OF cons]) (auto simp: tied_def gb)
  moreover have "sorted_wrt (\<lambda>x y. key x \<le> key y) (filter ?full (js_sort ?c xs))"
  proof -
    have "sorted_wrt (\<lambda>x y. \<not> goes_before ?c y x) (filter ?full (js_sort ?c xs))"
      using v8_sort.sort_sorted [OF cons] by (rule sorted_wrt_filter)
    then show ?thesis
      by (rule sorted_wrt_mono_rel [rotated]) (auto simp: gb not_less)
  qed
  moreover have "mset (filter ?full (js_sort ?c xs)) = mset (filter ?full xs)"
    by (simp add: mset_js_sort)
  ultimately show ?thesis by auto
qed

text \<open>
  Sorting only permutes the rows: none is lost or duplicated, whatever the data and
  the collation.
\<close>

theorem sorted_rows_permutation:
  assumes "sorted_rows e s (Arr xs) = Some v"
  shows "\<exists>ys. v = Arr ys \<and> mset ys = mset xs"
  using assms by (auto simp: sorted_rows_def spread_def mset_js_sort split: if_splits)

lemma sorted_rows_permutation_witness:
  "\<exists>ys. Arr [Obj [(''n'', Num (Fin 1))]] = Arr ys \<and> mset ys = mset [Obj [(''n'', Num (Fin 1))]]"
  by (rule sorted_rows_permutation [where s = "\<lparr>sortCol = Str ''n'', sortAsc = False\<rparr>"])
     (simp add: sorted_rows_def spread_def js_sort_def)






text \<open>
  A collation: the sign of \<open>localeCompare\<close>, and of its negation, agrees with a rank of the
  strings in some linear order.
\<close>

definition collates :: "env \<Rightarrow> (string \<Rightarrow> 'k :: linorder) \<Rightarrow> bool" where
  "collates e rank \<longleftrightarrow> (\<forall>a b.
     (num_lt (locale_compare e a b) (Fin 0) \<longleftrightarrow> rank a < rank b) \<and>
     (num_lt (num_neg (locale_compare e a b)) (Fin 0) \<longleftrightarrow> rank b < rank a))"

definition text_cell :: "table_state \<Rightarrow> jv \<Rightarrow> string" where
  "text_cell s r = to_str (sort_cell s r)"

definition text_column :: "table_state \<Rightarrow> jv list \<Rightarrow> bool" where
  "text_column s xs \<longleftrightarrow> (\<forall>r \<in> set xs. \<not> nullish r \<and>
     (empty_cell s r \<or> (\<exists>t. sort_cell s r = Str t)))"

lemma goes_before_text:
  assumes "collates e rank" "text_column s xs" "x \<in> set xs" "y \<in> set xs" "\<not> empty_cell s x" "\<not> empty_cell s y"
  shows "goes_before (row_compare e s) x y \<longleftrightarrow>
    (if sortAsc s then rank (text_cell s x) < rank (text_cell s y)
     else rank (text_cell s y) < rank (text_cell s x))"
proof -
  obtain a where a: "sort_cell s x = Str a" using assms(2,3,5) by (auto simp: text_column_def)
  obtain b where b: "sort_cell s y = Str b" using assms(2,4,6) by (auto simp: text_column_def)
  from a b assms(1) show ?thesis
    by (simp add: goes_before_def row_compare_def sort_cell_def text_cell_def collates_def)
qed

text \<open>
  A column of texts is sorted by the collation in the chosen direction, ascending
  or descending; rows without a text come last and keep their order.
\<close>

theorem text_column_sorted:
  fixes rank :: "string \<Rightarrow> 'k :: linorder"
  assumes "collates e rank" "text_column s xs" "sortCol s = Str col" "col \<noteq> ''''"
  shows "\<exists>ys. sorted_rows e s (Arr xs) = Some (Arr (ys @ filter (empty_cell s) xs)) \<and>
      mset ys = mset (filter (\<lambda>r. \<not> empty_cell s r) xs) \<and>
      sorted_wrt (\<lambda>x y. if sortAsc s then rank (text_cell s x) \<le> rank (text_cell s y)
                       else rank (text_cell s y) \<le> rank (text_cell s x)) ys"
proof (cases "sortAsc s")
  case True
  have "\<exists>ys. js_sort (row_compare e s) xs = ys @ filter (empty_cell s) xs \<and>
      mset ys = mset (filter (\<lambda>r. \<not> empty_cell s r) xs) \<and>
      sorted_wrt (\<lambda>x y. rank (text_cell s x) \<le> rank (text_cell s y)) ys"
    by (rule js_sort_rows) (simp add: goes_before_text [OF assms(1,2)] True)
  then show ?thesis using sorted_rows_Arr [OF assms(3,4)] assms(2) True
    by (simp add: text_column_def)
next
  case False
  define R where "R = rank ` text_cell s ` set xs"
  define pos where "pos k = card {l \<in> R. k < l}" for k
  have "pos k < pos l \<longleftrightarrow> l < k" if "k \<in> R" "l \<in> R" for k l
  proof
    assume "l < k"
    then show "pos k < pos l" unfolding pos_def using that
      by (intro psubset_card_mono) (auto simp: R_def)
  next
    assume less: "pos k < pos l"
    show "l < k"
    proof (rule ccontr)
      assume "\<not> l < k"
      then have "pos l \<le> pos k" unfolding pos_def
        by (intro card_mono) (auto simp: R_def)
      with less show False by simp
    qed
  qed
  then have pos: "pos (rank (text_cell s x)) < pos (rank (text_cell s y)) \<longleftrightarrow>
      rank (text_cell s y) < rank (text_cell s x)" if "x \<in> set xs" "y \<in> set xs" for x y
    using that by (simp add: R_def)
  have "\<exists>ys. js_sort (row_compare e s) xs = ys @ filter (empty_cell s) xs \<and>
      mset ys = mset (filter (\<lambda>r. \<not> empty_cell s r) xs) \<and>
      sorted_wrt (\<lambda>x y. pos (rank (text_cell s x)) \<le> pos (rank (text_cell s y))) ys"
    by (rule js_sort_rows) (simp add: goes_before_text [OF assms(1,2)] False pos)
  then obtain ys where ys: "js_sort (row_compare e s) xs = ys @ filter (empty_cell s) xs"
      "mset ys = mset (filter (\<lambda>r. \<not> empty_cell s r) xs)"
      "sorted_wrt (\<lambda>x y. pos (rank (text_cell s x)) \<le> pos (rank (text_cell s y))) ys" by blast
  have sub: "set ys \<subseteq> set xs" using ys(2) by (metis filter_is_subset set_mset_mset)
  have "sorted_wrt (\<lambda>x y. rank (text_cell s y) \<le> rank (text_cell s x)) ys"
    by (rule sorted_wrt_mono_rel [OF _ ys(3)]) (use sub pos in \<open>force simp flip: not_less\<close>)
  with ys sorted_rows_Arr [OF assms(3,4)] assms(2) False show ?thesis
    by (auto simp: text_column_def)
qed

lemma text_column_sorted_witness:
  "\<exists>ys. sorted_rows \<lparr>locale_string = num_str, locale_time = num_str,
             locale_compare = (\<lambda>a b. if length a < length b then Fin (- 1)
                                     else if length b < length a then Fin 1 else Fin 0)\<rparr>
        \<lparr>sortCol = Str ''n'', sortAsc = False\<rparr> (Arr [Obj [(''n'', Str ''a'')], Obj [], Obj [(''n'', Str ''bb'')]]) =
        Some (Arr (ys @ filter (empty_cell \<lparr>sortCol = Str ''n'', sortAsc = False\<rparr>)
                         [Obj [(''n'', Str ''a'')], Obj [], Obj [(''n'', Str ''bb'')]])) \<and>
      mset ys = mset (filter (\<lambda>r. \<not> empty_cell \<lparr>sortCol = Str ''n'', sortAsc = False\<rparr> r)
                         [Obj [(''n'', Str ''a'')], Obj [], Obj [(''n'', Str ''bb'')]]) \<and>
      sorted_wrt (\<lambda>x y. if sortAsc \<lparr>sortCol = Str ''n'', sortAsc = False\<rparr>
          then length (text_cell \<lparr>sortCol = Str ''n'', sortAsc = False\<rparr> x)
                 \<le> length (text_cell \<lparr>sortCol = Str ''n'', sortAsc = False\<rparr> y)
          else length (text_cell \<lparr>sortCol = Str ''n'', sortAsc = False\<rparr> y)
                 \<le> length (text_cell \<lparr>sortCol = Str ''n'', sortAsc = False\<rparr> x)) ys"
  by (rule text_column_sorted [of _ length _ _ "''n''"])
     (simp_all add: collates_def text_column_def empty_cell_def sort_cell_def)

subsection \<open>What is shown\<close>

text \<open>
  The body of the table has one row element for each row of the data, or, when
  there is none, a single cell with the empty text.
\<close>

theorem table_body:
  assumes "DataTable e call s ps = Some t" "lookup ps ''rows'' = Arr xs"
  shows "if xs = []
         then \<exists>n. child 0 (child 1 (child 0 t)) = El ''tr'' []
                [El ''td'' [(''colSpan'', n), cls ''px-4 py-6 text-center text-muted-foreground'']
                   [pget ps ''emptyText'' (Str ''No data.'')]]
         else \<exists>trs. child 0 (child 1 (child 0 t)) = Arr trs \<and> length trs = length xs"
proof -
  from assms obtain v where v: "sorted_rows e s (Arr xs) = Some v"
    by (auto simp: DataTable_def bind_eq_Some_conv)
  then obtain ys where ys: "v = Arr ys" "mset ys = mset xs"
    by (auto simp: sorted_rows_def spread_def mset_js_sort split: if_splits)
  have len: "length ys = length xs" using ys(2) by (metis size_mset)
  then have nil: "ys = [] \<longleftrightarrow> xs = []" by (metis length_0_conv)
  from assms v ys(1) show ?thesis
    by (auto simp: DataTable_def bind_eq_Some_conv strict_eq_nat_num_0 nil len dest!: mapM_length)
qed

lemma table_body_witness:
  "\<exists>t. DataTable plain_env (\<lambda>_ _. None) table_init [(''rows'', Arr [Obj []]), (''columns'', Arr [])] = Some t \<and>
      (if [Obj []] = ([] :: jv list)
       then \<exists>n. child 0 (child 1 (child 0 t)) = El ''tr'' []
              [El ''td'' [(''colSpan'', n), cls ''px-4 py-6 text-center text-muted-foreground'']
                 [pget [(''rows'', Arr [Obj []]), (''columns'', Arr [])] ''emptyText'' (Str ''No data.'')]]
       else \<exists>trs. child 0 (child 1 (child 0 t)) = Arr trs \<and> length trs = length [Obj []])"
proof -
  have "\<exists>t. DataTable plain_env (\<lambda>_ _. None) table_init [(''rows'', Arr [Obj []]), (''columns'', Arr [])] = Some t"
    by (simp add: DataTable_def table_init_def sorted_rows_def js_map_def data_row_def
        strict_eq_nat_num_0 del: One_nat_def)
  then obtain t where t: "DataTable plain_env (\<lambda>_ _. None) table_init
      [(''rows'', Arr [Obj []]), (''columns'', Arr [])] = Some t" by blast
  from table_body [OF t, of "[Obj []]"] t show ?thesis by (intro exI [of _ t]) simp
qed

end
