(* ===== verification/Overview.thy ===== *)
theory Overview
  imports DataTable
begin

text \<open>
  \<open>src/sections/Overview.jsx\<close>: the identity of the server and its uptime. The uptime is shown
  as days, hours, minutes and seconds; the lemmas show that the text is the mixed-radix
  expansion of the number of seconds and that the number can be read back from it.
\<close>

subsection \<open>Definitions\<close>

definition formatUptime :: "jv \<Rightarrow> string" where
  "formatUptime seconds =
     (let d = math_floor (to_num (js_div seconds (lit 86400)));
          h = math_floor (to_num (js_div (js_rem seconds (lit 86400)) (lit 3600)));
          m = math_floor (to_num (js_div (js_rem seconds (lit 3600)) (lit 60)));
          s = js_rem seconds (lit 60);
          parts = (if num_lt (Fin 0) d then [num_str d @ ''d''] else [])
            @ (if num_lt (Fin 0) h then [num_str h @ ''h''] else [])
            @ (if num_lt (Fin 0) m then [num_str m @ ''m''] else [])
            @ [to_str s @ ''s'']
      in join '' '' parts)"

definition formatDate :: "env \<Rightarrow> jv \<Rightarrow> string" where
  "formatDate e epoch =
     (if \<not> truthy epoch then em_dash
      else locale_string e (to_num (js_mul epoch (lit 1000))))"

text \<open>One line of the list of server facts; a fact that is missing has none.\<close>

definition info_line :: "string \<Rightarrow> jv \<Rightarrow> jv" where
  "info_line k v =
     (if truthy v
      then El ''div'' [(''key'', Str k), cls ''flex gap-2'']
             [El ''dt'' [cls ''font-medium text-muted-foreground min-w-24''] [Str k],
              El ''dd'' [cls ''font-mono break-all''] [v]]
      else Null)"

definition Overview :: "env \<Rightarrow> props \<Rightarrow> jv throws" where
  "Overview e ps =
     (let info = lookup ps ''info'' in
      if \<not> truthy info then Some Null
      else let f = opt_get info in
        Some (El ''div'' [cls ''space-y-6'']
          [El ''div'' [cls ''grid grid-cols-2 md:grid-cols-4 gap-4'']
             [El ''StatCard'' [(''label'', Str ''Server''), (''value'', js_or (f ''serverName'') (Str em_dash))] [],
              El ''StatCard'' [(''label'', Str ''Version''), (''value'', js_or (f ''version'') (Str em_dash)),
                (''sub'', f ''buildDate'')] [],
              El ''StatCard'' [(''label'', Str ''Uptime''),
                (''value'', Str (formatUptime (js_or (f ''uptime'') (lit 0)))),
                (''sub'', Str (''Boot: '' @ formatDate e (f ''boottime'')))] [],
              El ''StatCard'' [(''label'', Str ''PID''), (''value'', js_or (f ''pid'') (Str em_dash)),
                (''sub'', f ''platform'')] []],
           El ''Card'' []
             [El ''CardHeader'' [] [El ''CardTitle'' [] [Str ''Server Info'']],
              El ''CardContent'' []
                [El ''dl'' [cls ''grid grid-cols-1 md:grid-cols-2 gap-2 text-sm'']
                   [Arr (map (\<lambda>(k, v). info_line k v)
                      [(''Hostname'', f ''hostname''), (''Address'', f ''address''),
                       (''Page Root'', f ''pageroot''), (''Config'', f ''config''),
                       (''Log'', f ''log''), (''Platform'', f ''platform''),
                       (''Build Date'', f ''buildDate'')])]]]]))"

subsection \<open>The uptime as text\<close>

lemma num_div_int:
  assumes "0 \<le> n" "n \<le> 2 ^ 35" "0 < d" "d \<le> 2 ^ 17"
  shows "math_floor (num_div (Fin (of_int n)) (Fin (of_int d))) = Fin (of_int (n div d))"
proof (cases "n = 0")
  case True
  with assms show ?thesis by (simp add: num_div_def signed_zero_def)
next
  case False
  have d: "(0 :: rat) < of_int d" "(1 :: rat) \<le> of_int d" using assms(3) by simp_all
  have "of_int n / of_int d \<le> (of_int n :: rat)"
    using assms(1) d by (simp add: divide_le_eq mult_left_mono [of 1 "of_int d" "of_int n", simplified])
  moreover have "0 \<le> (of_int n / of_int d :: rat)" using assms(1) d by simp
  ultimately have "number_value (of_int n / of_int d) = Fin (rnd (of_int n / of_int d))"
    using number_value_small(1) [of "of_int n / of_int d" n] assms(2) by simp
  moreover have "\<lfloor>rnd (of_int n / of_int d)\<rfloor> = n div d"
    by (rule binary64.floor_fl_div) (use assms in simp_all)
  ultimately show ?thesis using False assms by (simp add: num_div_def)
qed

lemma num_rem_int:
  assumes "0 \<le> n" "0 < d"
  shows "num_rem (Fin (of_int n)) (Fin (of_int d)) = Fin (of_int (n mod d))"
proof (cases "n = 0")
  case False
  have "0 \<le> (of_int n / of_int d :: rat)" using assms by simp
  then have "trunc (of_int n / of_int d) = n div d"
    by (simp add: trunc_def floor_divide_of_int_eq not_less)
  moreover have "(of_int n - of_int d * of_int (n div d) :: rat) = of_int (n mod d)"
    by (simp flip: of_int_mult of_int_diff add: minus_mult_div_eq_mod)
  ultimately show ?thesis using False assms by (simp add: num_rem_def Let_def)
qed (use assms in \<open>simp add: num_rem_def\<close>)

text \<open>The mixed-radix expansion, without its zero places but for the seconds.\<close>

definition uptime_parts :: "nat \<Rightarrow> nat \<Rightarrow> nat \<Rightarrow> nat \<Rightarrow> string list" where
  "uptime_parts d h m s =
     (if 0 < d then [nat_str d @ ''d''] else []) @ (if 0 < h then [nat_str h @ ''h''] else [])
     @ (if 0 < m then [nat_str m @ ''m''] else []) @ [nat_str s @ ''s'']"

lemma formatUptime_parts:
  assumes "n \<le> 2 ^ 35"
  shows "formatUptime (Num (Fin (of_nat n))) =
    join '' '' (uptime_parts (n div 86400) (n mod 86400 div 3600) (n mod 3600 div 60) (n mod 60))"
proof -
  have str: "num_str (Fin (of_int (int k))) = nat_str k" if "k \<le> n" for k
  proof -
    have "k \<le> 2 ^ 35" using that assms by simp
    then show ?thesis using num_str_int [of "int k"] by (simp add: int_str_def del: num_str.simps)
  qed
  have fl: "math_floor (num_div (Fin (of_int (int k))) (Fin (of_int (int d)))) = Fin (of_int (int (k div d)))"
    if "k \<le> n" "0 < d" "d \<le> 2 ^ 17" for k d
    using num_div_int [of "int k" "int d"] that assms by (simp add: zdiv_int)
  have md: "num_rem (Fin (of_int (int n))) (Fin (of_int (int d))) = Fin (of_int (int (n mod d)))"
    if "0 < d" for d
    using num_rem_int [of "int n" "int d"] that by (simp add: zmod_int)
  have le: "n div 86400 \<le> n" "n mod 86400 div 3600 \<le> n" "n mod 3600 div 60 \<le> n" "n mod 60 \<le> n"
    "n mod 86400 \<le> n" "n mod 3600 \<le> n"
    by (auto intro: order.trans [OF div_le_dividend] mod_less_eq_dividend)
  have d: "math_floor (num_div (Fin (of_int (int n))) (Fin 86400)) = Fin (of_int (int (n div 86400)))"
    and h: "math_floor (num_div (Fin (of_int (int (n mod 86400)))) (Fin 3600)) = Fin (of_int (int (n mod 86400 div 3600)))"
    and m: "math_floor (num_div (Fin (of_int (int (n mod 3600)))) (Fin 60)) = Fin (of_int (int (n mod 3600 div 60)))"
    using fl [of n 86400] fl [of "n mod 86400" 3600] fl [of "n mod 3600" 60] le by simp_all
  have r: "num_rem (Fin (of_int (int n))) (Fin 86400) = Fin (of_int (int (n mod 86400)))"
    "num_rem (Fin (of_int (int n))) (Fin 3600) = Fin (of_int (int (n mod 3600)))"
    "num_rem (Fin (of_int (int n))) (Fin 60) = Fin (of_int (int (n mod 60)))"
    using md [of 86400] md [of 3600] md [of 60] by simp_all
  have lits: "lit 86400 = Num (Fin 86400)" "lit 3600 = Num (Fin 3600)" "lit 60 = Num (Fin 60)"
    by (simp_all add: lit_numeral)
  have n: "Num (Fin (of_nat n)) = Num (Fin (of_int (int n)))" by simp
  show ?thesis
    unfolding n formatUptime_def uptime_parts_def Let_def
    by (simp only: lits js_arith_Num to_num.simps r d h m to_str.simps str [OF le(1)]
        str [OF le(2)] str [OF le(3)] str [OF le(4)] num_lt.simps of_int_0_less_iff of_nat_0_less_iff)
qed

text \<open>The number of seconds that a text such as \<open>1d 2h 3m 4s\<close> stands for.\<close>

fun read_uptime :: "nat \<Rightarrow> string \<Rightarrow> nat" where
  "read_uptime a [] = 0"
| "read_uptime a (c # cs) =
     (case digit_val c of
        Some v \<Rightarrow> read_uptime (10 * a + v) cs
      | None \<Rightarrow> (if c = CHR ''d'' then 86400 * a else if c = CHR ''h'' then 3600 * a
                 else if c = CHR ''m'' then 60 * a else if c = CHR ''s'' then a else 0)
                + read_uptime 0 cs)"

lemma read_uptime_digits:
  "read_uptime a (nat_str n @ cs) = read_uptime (a * 10 ^ length (nat_str n) + n) cs"
proof (induction n arbitrary: a cs rule: nat_str.induct)
  case (1 n)
  show ?case
  proof (cases "n < 10")
    case True
    then show ?thesis by (simp add: nat_str.simps [of n] mult.commute)
  next
    case False
    have "n mod 10 < 10" by simp
    with False 1 [OF False] show ?thesis
      by (simp add: nat_str.simps [of n] algebra_simps)
  qed
qed

lemma read_uptime_units:
  "read_uptime 0 (nat_str n @ CHR ''d'' # cs) = 86400 * n + read_uptime 0 cs"
  "read_uptime 0 (nat_str n @ CHR ''h'' # cs) = 3600 * n + read_uptime 0 cs"
  "read_uptime 0 (nat_str n @ CHR ''m'' # cs) = 60 * n + read_uptime 0 cs"
  "read_uptime 0 (nat_str n @ CHR ''s'' # cs) = n + read_uptime 0 cs"
  "read_uptime 0 (CHR '' '' # cs) = read_uptime 0 cs"
  by (simp_all add: read_uptime_digits digit_val_def)

lemma read_uptime_parts:
  "read_uptime 0 (join '' '' (uptime_parts d h m s)) = 86400 * d + 3600 * h + 60 * m + s"
  by (simp add: uptime_parts_def read_uptime_units del: read_uptime.simps(2))

lemma uptime_expansion:
  "86400 * (n div 86400) + 3600 * (n mod 86400 div 3600) + 60 * (n mod 3600 div 60) + n mod 60 = (n :: nat)"
proof -
  have "n mod 86400 = 3600 * (n mod 86400 div 3600) + n mod 3600"
    using mult_div_mod_eq [of 3600 "n mod 86400"] mod_mod_cancel [of 3600 86400 n] by simp
  moreover have "n mod 3600 = 60 * (n mod 3600 div 60) + n mod 60"
    using mult_div_mod_eq [of 60 "n mod 3600"] mod_mod_cancel [of 60 3600 n] by simp
  ultimately show ?thesis using mult_div_mod_eq [of 86400 n] by linarith
qed

text \<open>
  The uptime shown determines the uptime: reading the days, hours, minutes and
  seconds of the text back gives the number of seconds, for every uptime of up to a thousand
  years.
\<close>

theorem uptime_round_trip:
  assumes "n \<le> 2 ^ 35"
  shows "read_uptime 0 (formatUptime (Num (Fin (of_nat n)))) = n"
  using uptime_expansion [of n] by (simp add: formatUptime_parts [OF assms] read_uptime_parts)

lemma uptime_round_trip_witness:
  "read_uptime 0 (formatUptime (Num (Fin (of_nat 93784)))) = 93784"
  by (rule uptime_round_trip) simp

text \<open>
  The parts of the uptime are in range: fewer than 24 hours, 60 minutes and 60
  seconds beside the days, and a part is left out exactly when it is zero, but for the seconds.
\<close>

theorem uptime_parts_in_range:
  assumes "n \<le> 2 ^ 35"
  shows "\<exists>d h m s. formatUptime (Num (Fin (of_nat n))) = join '' '' (uptime_parts d h m s) \<and>
    n = 86400 * d + 3600 * h + 60 * m + s \<and> h < 24 \<and> m < 60 \<and> s < 60"
  using formatUptime_parts [OF assms] uptime_expansion [of n]
  by (intro exI [of _ "n div 86400"] exI [of _ "n mod 86400 div 3600"]
      exI [of _ "n mod 3600 div 60"] exI [of _ "n mod 60"])
     (simp add: div_less_iff_less_mult)

lemma uptime_parts_in_range_witness:
  "\<exists>d h m s. formatUptime (Num (Fin (of_nat 59))) = join '' '' (uptime_parts d h m s) \<and>
    59 = 86400 * d + 3600 * h + 60 * m + s \<and> h < 24 \<and> m < 60 \<and> s < 60"
  by (rule uptime_parts_in_range) simp

subsection \<open>Behaviour\<close>

lemma Overview_total: "\<exists>v. Overview e ps = Some v"
  by (simp add: Overview_def Let_def)

end
