(* ===== verification/Charts.thy ===== *)
theory Charts
  imports Ui
begin

text \<open>
  \<open>src/components/EChartsWrapper.jsx\<close>: the owner of an ECharts instance. One effect creates
  the chart and an observer of the size of its element when the component is mounted and
  releases both when it is unmounted; another hands each new option to the chart.
\<close>

subsection \<open>State\<close>

text \<open>
  The references of the component, the closure that the first effect left as its clean-up and
  the resources of the page: the charts that are not disposed, with the option that each
  shows, and the observers that are connected, each with the chart that its callback resizes.
  \<open>faults\<close> counts the calls on a chart that has been disposed.
\<close>

record chart_state =
  mounted :: bool
  chartRef :: "nat option"
  cleanup :: "nat option"
  live :: "(nat \<times> jv) list"
  observers :: "nat list"
  fresh_id :: nat
  faults :: nat

definition chart_init :: chart_state where
  "chart_init = \<lparr>mounted = False, chartRef = None, cleanup = None, live = [], observers = [],
     fresh_id = 0, faults = 0\<rparr>"

text \<open>\<open>chart.setOption(option, { notMerge: true })\<close> replaces what the chart shows.\<close>

definition setOption :: "nat \<Rightarrow> jv \<Rightarrow> chart_state \<Rightarrow> chart_state" where
  "setOption c opt s =
     (if c \<in> fst ` set (live s)
      then s\<lparr>live := map (\<lambda>(d, o'). (d, if d = c then opt else o')) (live s)\<rparr>
      else s\<lparr>faults := Suc (faults s)\<rparr>)"

text \<open>A call of \<open>chart.resize\<close> keeps what is shown.\<close>

definition resize :: "nat \<Rightarrow> chart_state \<Rightarrow> chart_state" where
  "resize c s = (if c \<in> fst ` set (live s) then s else s\<lparr>faults := Suc (faults s)\<rparr>)"

subsection \<open>Effects\<close>

text \<open>
  The first effect runs after the element is in the page, so \<open>divRef.current\<close> is set. A chart
  without an option yet shows undefined.
\<close>

definition init_effect :: "chart_state \<Rightarrow> chart_state" where
  "init_effect s = (let chart = fresh_id s in
     s\<lparr>fresh_id := Suc chart, live := live s @ [(chart, Undef)], chartRef := Some chart,
       observers := observers s @ [chart], cleanup := Some chart\<rparr>)"

definition init_cleanup :: "chart_state \<Rightarrow> chart_state" where
  "init_cleanup s = (case cleanup s of
       None \<Rightarrow> s
     | Some chart \<Rightarrow>
         s\<lparr>observers := filter (\<lambda>c. c \<noteq> chart) (observers s),
           live := filter (\<lambda>(c, _). c \<noteq> chart) (live s),
           chartRef := None, cleanup := None\<rparr>)"

definition option_effect :: "jv \<Rightarrow> chart_state \<Rightarrow> chart_state" where
  "option_effect opt s = (case chartRef s of
       None \<Rightarrow> s
     | Some chart \<Rightarrow> if truthy opt then setOption chart opt s else s)"

text \<open>
  Every parent builds a new option object when it renders, so \<open>Render\<close> runs the second
  effect. \<open>RenderSame\<close> is a render with the object of the previous one. \<open>Observed i\<close> is the
  callback of the \<open>i\<close>-th connected observer.
\<close>

datatype chart_event = Mount jv | Render jv | RenderSame | Observed nat | Unmount

primrec chart_step :: "chart_event \<Rightarrow> chart_state \<Rightarrow> chart_state" where
  "chart_step (Mount opt) s =
     (if mounted s then s else option_effect opt (init_effect (s\<lparr>mounted := True\<rparr>)))"
| "chart_step (Render opt) s = (if mounted s then option_effect opt s else s)"
| "chart_step RenderSame s = s"
| "chart_step (Observed i) s = (if i < length (observers s) then resize (observers s ! i) s else s)"
| "chart_step Unmount s = (if mounted s then init_cleanup (s\<lparr>mounted := False\<rparr>) else s)"

subsection \<open>Options\<close>

text \<open>The parts of ECharts that the module registers, and those that the keys of an option need.\<close>

definition echarts_use :: "string list" where
  "echarts_use = [''LineChart'', ''BarChart'', ''GridComponent'', ''TooltipComponent'', ''LegendComponent'',
     ''CanvasRenderer'']"

definition component_of :: "(string \<times> string) list" where
  "component_of = [(''grid'', ''GridComponent''), (''xAxis'', ''GridComponent''), (''yAxis'', ''GridComponent''),
     (''tooltip'', ''TooltipComponent''), (''legend'', ''LegendComponent'')]"

definition chart_of :: "(string \<times> string) list" where
  "chart_of = [(''line'', ''LineChart''), (''bar'', ''BarChart'')]"

definition registered :: "string option \<Rightarrow> bool" where
  "registered p \<longleftrightarrow> (case p of Some c \<Rightarrow> c \<in> set echarts_use | None \<Rightarrow> False)"

definition items :: "jv \<Rightarrow> jv list" where
  "items v = (case v of Arr xs \<Rightarrow> xs | _ \<Rightarrow> [])"

text \<open>The categories: the data of the one axis that has data.\<close>

definition categories :: "props \<Rightarrow> jv" where
  "categories ps = coalesce (opt_get (lookup ps ''xAxis'') ''data'') (opt_get (lookup ps ''yAxis'') ''data'')"

text \<open>
  An option that the wrapper can show: every key and every series needs registered parts only,
  and every series has one point per category.
\<close>

definition series_ok :: "jv \<Rightarrow> jv \<Rightarrow> bool" where
  "series_ok cats l \<longleftrightarrow>
     registered (map_of chart_of (to_str (opt_get l ''type''))) \<and>
     is_array (opt_get l ''data'') \<and> length (items (opt_get l ''data'')) = length (items cats)"

definition chart_ok :: "jv \<Rightarrow> bool" where
  "chart_ok opt \<longleftrightarrow> (case opt of
       Obj ps \<Rightarrow>
         list_all (\<lambda>(k, v). k \<in> {''animation'', ''series''} \<or> registered (map_of component_of k)) ps \<and>
         is_array (categories ps) \<and> is_array (lookup ps ''series'') \<and>
         list_all (series_ok (categories ps)) (items (lookup ps ''series''))
     | _ \<Rightarrow> False)"

lemma items_Arr [simp]: "items (Arr xs) = xs"
  by (simp add: items_def)

lemma registered_parts [simp]:
  "registered (map_of component_of ''grid'')" "registered (map_of component_of ''xAxis'')"
  "registered (map_of component_of ''yAxis'')" "registered (map_of component_of ''tooltip'')"
  "registered (map_of component_of ''legend'')"
  "registered (map_of chart_of ''line'')" "registered (map_of chart_of ''bar'')"
  by (simp_all add: registered_def component_of_def chart_of_def echarts_use_def)

lemmas chart_ok_simps = chart_ok_def series_ok_def categories_def is_array_def coalesce_def

text \<open>What the component renders.\<close>

definition EChartsWrapper :: "props \<Rightarrow> jv" where
  "EChartsWrapper ps =
     El ''div'' [(''ref'', Clo ''divRef'' []),
       (''style'', js_or (lookup ps ''style'')
          (Obj [(''width'', Str ''100%''), (''height'', lit 200)]))] []"

subsection \<open>Invariant\<close>

text \<open>
  A mounted component owns exactly one chart and one observer, which resizes that chart; an
  unmounted one owns nothing. No call ever reached a disposed chart.
\<close>

definition chart_inv :: "chart_state \<Rightarrow> bool" where
  "chart_inv s \<longleftrightarrow> faults s = 0 \<and> cleanup s = chartRef s \<and>
     (if mounted s
      then \<exists>c opt. chartRef s = Some c \<and> live s = [(c, opt)] \<and> observers s = [c]
      else chartRef s = None \<and> live s = [] \<and> observers s = [])"

lemma chart_inv_init: "chart_inv chart_init"
  by (simp add: chart_inv_def chart_init_def)

lemma chart_inv_unmounted:
  "chart_inv s \<Longrightarrow> \<not> mounted s \<Longrightarrow> chartRef s = None \<and> live s = [] \<and> observers s = [] \<and> faults s = 0"
  by (simp add: chart_inv_def)

lemma chart_inv_mounted:
  assumes "chart_inv s" "mounted s"
  obtains c opt where "chartRef s = Some c" "live s = [(c, opt)]" "observers s = [c]" "faults s = 0"
    "cleanup s = Some c"
  using assms by (auto simp: chart_inv_def)

lemma option_effect_mounted:
  assumes "chartRef s = Some c" "live s = [(c, old)]"
  shows "option_effect opt s = (if truthy opt then s\<lparr>live := [(c, opt)]\<rparr> else s)"
  using assms by (simp add: option_effect_def setOption_def)

lemma chart_mount:
  assumes "chart_inv s" "\<not> mounted s"
  shows "chart_step (Mount opt) s =
    s\<lparr>mounted := True, fresh_id := Suc (fresh_id s), chartRef := Some (fresh_id s),
      observers := [fresh_id s], cleanup := Some (fresh_id s),
      live := [(fresh_id s, if truthy opt then opt else Undef)]\<rparr>"
  using chart_inv_unmounted [OF assms] assms(2)
  by (auto simp: init_effect_def Let_def option_effect_def setOption_def)

lemma chart_inv_step:
  assumes inv: "chart_inv s"
  shows "chart_inv (chart_step e s)"
proof (cases e)
  case (Mount opt)
  then show ?thesis
    using inv chart_mount [OF inv, of opt] chart_inv_unmounted [OF inv]
    by (cases "mounted s") (auto simp: chart_inv_def)
next
  case (Render opt)
  then show ?thesis using inv
    by (cases "truthy opt") (auto simp: chart_inv_def option_effect_def setOption_def)
next
  case RenderSame
  with inv show ?thesis by simp
next
  case (Observed i)
  with inv show ?thesis by (cases "mounted s") (auto simp: chart_inv_def resize_def)
next
  case Unmount
  with inv show ?thesis by (auto simp: chart_inv_def init_cleanup_def)
qed

interpretation charts: machine chart_step chart_init chart_inv
  by unfold_locales (simp_all add: chart_inv_init chart_inv_step)

subsection \<open>Properties\<close>

text \<open>
  Claim C26. No leak and no use after release: in every history of mounting, rendering,
  resizing and unmounting no call reaches a disposed chart, at most one chart is alive, and
  once the component is unmounted no chart and no observer is left.
\<close>

theorem chart_no_leak:
  assumes "s = run chart_step es chart_init"
  shows "faults s = 0 \<and> length (live s) = (if mounted s then 1 else 0) \<and>
    length (observers s) = (if mounted s then 1 else 0) \<and>
    live (chart_step Unmount s) = [] \<and> observers (chart_step Unmount s) = []"
proof -
  have "chart_inv s" unfolding assms by (rule charts.inv_run)
  then show ?thesis by (auto simp: chart_inv_def init_cleanup_def)
qed

lemma chart_no_leak_witness:
  "live (chart_step Unmount (run chart_step [Mount (Bool True), Observed 0, Unmount, Mount Null] chart_init)) = []"
  using chart_no_leak [OF refl, of "[Mount (Bool True), Observed 0, Unmount, Mount Null]"] by simp

text \<open>The option rendered last in the current mount.\<close>

primrec last_option :: "jv \<Rightarrow> chart_event \<Rightarrow> jv" where
  "last_option old (Mount opt) = (if truthy opt then opt else old)"
| "last_option old (Render opt) = (if truthy opt then opt else old)"
| "last_option old RenderSame = old"
| "last_option old (Observed i) = old"
| "last_option old Unmount = old"

definition while_mounted :: "chart_event \<Rightarrow> bool" where
  "while_mounted e \<longleftrightarrow> (case e of Mount _ \<Rightarrow> False | Unmount \<Rightarrow> False | _ \<Rightarrow> True)"

lemma live_while_mounted:
  assumes "chart_inv s" "mounted s" "live s = [(c, opt)]" "list_all while_mounted es"
  shows "live (run chart_step es s) = [(c, foldl last_option opt es)] \<and> mounted (run chart_step es s)"
  using assms
proof (induction es arbitrary: s opt)
  case Nil
  then show ?case by simp
next
  case (Cons e es)
  have c: "chartRef s = Some c" "observers s = [c]" using Cons.prems(1-3) by (auto simp: chart_inv_def)
  have "live (chart_step e s) = [(c, last_option opt e)] \<and> mounted (chart_step e s)"
    using Cons.prems c option_effect_mounted [OF c(1) Cons.prems(3)]
    by (cases e) (simp_all add: while_mounted_def resize_def)
  with Cons.IH [OF chart_inv_step [OF Cons.prems(1), of e]] Cons.prems(4)
  show ?case by simp
qed

text \<open>
  The chart is up to date: whatever happened to the component before, after it is
  mounted and rendered any number of times its chart shows the last option it was given.
\<close>

theorem chart_shows_last_option:
  assumes "s = run chart_step es chart_init" "\<not> mounted s" "list_all while_mounted fs"
  shows "map snd (live (run chart_step (Mount opt # fs) s)) = [foldl last_option Undef (Mount opt # fs)]"
proof -
  have inv: "chart_inv s" unfolding assms(1) by (rule charts.inv_run)
  let ?t = "chart_step (Mount opt) s"
  have "live ?t = [(fresh_id s, if truthy opt then opt else Undef)]" "mounted ?t"
    unfolding chart_mount [OF inv assms(2)] by simp_all
  from live_while_mounted [OF chart_inv_step [OF inv] this(2,1) assms(3)] show ?thesis by simp
qed

lemma chart_shows_last_option_witness:
  "map snd (live (run chart_step (Mount (Str ''a'') # [Render (Str ''b''), Observed 0])
      (run chart_step [Mount Null, Unmount] chart_init))) = [Str ''b'']"
  using chart_shows_last_option [OF refl, of "[Mount Null, Unmount]"
      "[Render (Str ''b''), Observed 0]" "Str ''a''"]
  by (simp add: while_mounted_def chart_init_def init_effect_def option_effect_def init_cleanup_def)

end
