(* ===== verification/JsEngine.thy ===== *)
theory JsEngine
  imports Charts DataTable
begin

text \<open>
  \<open>src/sections/JsEngine.jsx\<close>: the counters of the JavaScript engine, the hit rate of its
  script cache and the history of active requests. The lemmas show that the hit rate is a
  proportion, what colour its gauge takes and that the average times are monotone.
\<close>

definition avgMs :: "jv \<Rightarrow> jv \<Rightarrow> string" where
  "avgMs usec n =
     (if \<not> truthy n then em_dash
      else to_fixed 2 (to_num (js_div (js_div usec n) (lit 1000))) @ '' ms'')"

definition total_lookups :: "jv \<Rightarrow> jv" where
  "total_lookups s =
     js_add (coalesce (opt_get s ''cacheHits'') (lit 0)) (coalesce (opt_get s ''cacheMisses'') (lit 0))"

definition hit_rate :: "jv \<Rightarrow> jv" where
  "hit_rate s =
     (if js_gt (total_lookups s) (lit 0) then js_div (opt_get s ''cacheHits'') (total_lookups s)
      else lit 0)"

definition hit_gauge :: "jv \<Rightarrow> jv" where
  "hit_gauge rate =
     El ''RingGauge''
       [(''value'', rate), (''size'', lit 72), (''warn'', lit (5 / 10)), (''danger'', lit (25 / 100)),
        (''label'', Str (num_str (math_round (to_num (js_mul rate (lit 100)))) @ ''%''))] []"

definition script_cache_card :: "jv \<Rightarrow> jv" where
  "script_cache_card s =
     (let f = opt_get s in
      El ''Card'' []
        [El ''CardHeader'' [] [El ''CardTitle'' [] [Str ''Script Cache'']],
         El ''CardContent'' []
           [El ''div'' [cls ''flex items-center gap-8'']
              [hit_gauge (hit_rate s),
               El ''dl'' [cls ''grid grid-cols-2 md:grid-cols-4 gap-6 text-sm flex-1'']
                 [Arr (map (\<lambda>(label, val).
                    El ''div'' [(''key'', Str label)]
                      [El ''dt'' [cls ''text-muted-foreground text-xs''] [Str label],
                       El ''dd'' [cls ''text-2xl font-bold''] [coalesce val (Str em_dash)]])
                    [(''Hits'', f ''cacheHits''), (''Misses'', f ''cacheMisses''),
                     (''Invalidations'', f ''cacheInvalidations''),
                     (''Cached Scripts'', js_add (coalesce (f ''cachedScripts'') (lit 0))
                                              (coalesce (f ''cachedAdpScripts'') (lit 0)))])]]]])"

definition request_history_card :: "env \<Rightarrow> jv \<Rightarrow> jv throws" where
  "request_history_card e hist = do {
     times \<leftarrow> js_map hist (\<lambda>h. do { t \<leftarrow> get h ''t''; Some (Str (locale_time e (to_num t))) });
     actives \<leftarrow> js_map hist (\<lambda>h. do { a \<leftarrow> get h ''active''; Some (coalesce a (lit 0)) });
     Some (El ''Card'' []
       [El ''CardHeader'' [] [El ''CardTitle'' [] [Str ''Request History'']],
        El ''CardContent'' []
          [El ''EChartsWrapper''
             [(''style'', Obj [(''width'', Str ''100%''), (''height'', lit 160)]),
              (''option'', Obj
                [(''animation'', Bool False),
                 (''grid'', Obj [(''top'', lit 8), (''bottom'', lit 28), (''left'', lit 40), (''right'', lit 12)]),
                 (''tooltip'', Obj [(''trigger'', Str ''axis'')]),
                 (''xAxis'', Obj [(''type'', Str ''category''), (''data'', times),
                    (''axisLabel'', Obj [(''fontSize'', lit 10)])]),
                 (''yAxis'', Obj [(''type'', Str ''value''), (''minInterval'', lit 1),
                    (''axisLabel'', Obj [(''fontSize'', lit 10)])]),
                 (''series'', Arr [Obj
                    [(''name'', Str ''Active''), (''type'', Str ''line''), (''smooth'', Bool True),
                     (''symbol'', Str ''none''),
                     (''lineStyle'', Obj [(''color'', Str ''#8b5cf6'')]),
                     (''itemStyle'', Obj [(''color'', Str ''#8b5cf6'')]),
                     (''data'', actives)]])])] []]])
   }"

definition JsEngine :: "env \<Rightarrow> props \<Rightarrow> jv throws" where
  "JsEngine e ps =
     (let s = lookup ps ''jsStats''; hist = js_or (lookup ps ''history'') (Arr []); f = opt_get s;
          stat = (\<lambda>label v. El ''StatCard'' [(''label'', Str label), (''value'', v)] [])
      in if \<not> truthy s then Some Null
      else do {
        history \<leftarrow> (if js_gt (opt_get hist ''length'') (lit 1)
                    then request_history_card e hist else Some (Bool False));
        Some (El ''div'' [cls ''space-y-6'']
          [El ''div'' [cls ''grid grid-cols-2 md:grid-cols-4 gap-4'']
             [stat ''Total Requests'' (f ''totalRequests''),
              stat ''Active Isolates'' (f ''activeIsolates''),
              stat ''Avg Exec Time'' (Str (avgMs (f ''totalExecUsec'') (f ''totalRequests''))),
              El ''StatCard''
                [(''label'', Str ''Context Creations''), (''value'', f ''contextCreations''),
                 (''sub'', Str (''Avg: '' @ avgMs (f ''totalContextUsec'') (f ''contextCreations'')))] []],
           script_cache_card s,
           El ''div'' [cls ''grid grid-cols-2 md:grid-cols-4 gap-4'']
             [stat ''Compile Errors'' (f ''compileErrors''),
              stat ''Runtime Errors'' (f ''runtimeErrors''),
              stat ''Avg Compile Time'' (Str (avgMs (f ''totalCompileUsec'') (f ''cacheMisses''))),
              stat ''Cache Invalidations'' (f ''cacheInvalidations'')],
           history])
      })"

subsection \<open>The hit rate\<close>

lemma hit_rate_ratio:
  assumes s: "opt_get s ''cacheHits'' = Num (Fin (of_nat h))" "opt_get s ''cacheMisses'' = Num (Fin (of_nat m))"
    and "h + m \<le> 2 ^ 53"
  shows "hit_rate s = Num (Fin (if h + m = 0 then 0 else rnd (of_nat h / of_nat (h + m))))"
proof -
  from number_value_nat [OF assms(3)] have t: "total_lookups s = Num (Fin (of_nat (h + m)))"
    by (simp add: total_lookups_def coalesce_def s)
  show ?thesis
  proof (cases "h + m = 0")
    case True
    then show ?thesis by (simp add: hit_rate_def t)
  next
    case False
    with num_ratio [of h "h + m"] show ?thesis
      by (simp add: hit_rate_def t s del: of_nat_add)
  qed
qed

text \<open>
  The hit rate of the script cache is a proportion: between 0 and 1 for every pair
  of counters, 0 before the first lookup.
\<close>

theorem hit_rate_proportion:
  assumes "opt_get s ''cacheHits'' = Num (Fin (of_nat h))" "opt_get s ''cacheMisses'' = Num (Fin (of_nat m))"
    and "h + m \<le> 2 ^ 53"
  shows "\<exists>r. hit_rate s = Num (Fin r) \<and> 0 \<le> r \<and> r \<le> 1 \<and> (h = 0 \<longrightarrow> r = 0) \<and> (m = 0 \<longrightarrow> 0 < h \<longrightarrow> r = 1)"
proof (cases "h + m = 0")
  case True
  then show ?thesis by (simp add: hit_rate_ratio [OF assms])
next
  case False
  moreover have "rnd 1 = 1" using rnd_int [of 1] by simp
  ultimately show ?thesis
    using num_ratio [of h "h + m"] hit_rate_ratio [OF assms] by auto
qed

lemma hit_rate_proportion_witness:
  "\<exists>r. hit_rate (Obj [(''cacheHits'', Num (Fin (of_nat 3))), (''cacheMisses'', Num (Fin (of_nat 1)))]) = Num (Fin r) \<and>
     0 \<le> r \<and> r \<le> 1 \<and> (3 = (0 :: nat) \<longrightarrow> r = 0) \<and> (1 = (0 :: nat) \<longrightarrow> 0 < (3 :: nat) \<longrightarrow> r = 1)"
  by (rule hit_rate_proportion) simp_all

text \<open>
  The gauge of the hit rate: its thresholds are inverted, so that it is red from a
  hit rate of one quarter upwards, blue below and never amber.
\<close>

theorem hit_gauge_colour:
  assumes "rate = Num (Fin r)" "r \<le> 1" "hit_gauge rate = El t ps cs"
  shows "attr ''stroke'' (child 1 (RingGauge ps)) = Str (if 1/4 \<le> r then ''#ef4444'' else ''#3b82f6'')"
proof -
  have rep: "number_value (1/4) = Fin (1/4)" "number_value (1/2) = Fin (1/2)"
    using number_value_fin [of "1/4"] number_value_fin [of "1/2"]
      representable_dyadic [of 1 2] representable_dyadic [of 1 1] by simp_all
  have fill: "gauge_fill (Num (Fin r)) = Fin (max 0 r)"
    using assms(2) by (auto simp: gauge_fill_def math_max_def math_min_def num_max2_def num_min2_def)
  show ?thesis using assms(1,3)
    by (auto simp: hit_gauge_def RingGauge_def pget_def Let_def level_color_def fill lit_def rep)
qed

lemma hit_gauge_colour_witness:
  "\<exists>ps cs. hit_gauge (Num (Fin 1)) = El ''RingGauge'' ps cs \<and>
     attr ''stroke'' (child 1 (RingGauge ps)) = Str ''#ef4444''"
proof -
  obtain ps cs where "hit_gauge (Num (Fin 1)) = El ''RingGauge'' ps cs" by (simp add: hit_gauge_def)
  with hit_gauge_colour [OF refl _ this] show ?thesis by auto
qed

subsection \<open>Average times\<close>

text \<open>The average of \<open>u\<close> microseconds over \<open>c\<close> events, in hundredths of a millisecond.\<close>

definition avg_hundredths :: "nat \<Rightarrow> nat \<Rightarrow> nat" where
  "avg_hundredths u c = fixed_scaled 2 (rnd (rnd (of_nat u / of_nat c) / 1000))"

lemma avgMs_digits:
  assumes "u \<le> 2 ^ 53" "0 < c"
  shows "avgMs (Num (Fin (of_nat u))) (Num (Fin (of_nat c))) = fixed_digits 2 (avg_hundredths u c) @ '' ms''"
proof (cases "u = 0")
  case True
  with assms(2) show ?thesis
    by (simp add: avgMs_def avg_hundredths_def num_div_def signed_zero_def lit_numeral)
next
  case False
  have "(of_nat u :: rat) \<le> of_nat (2 ^ 53)" using assms(1) by (simp only: of_nat_le_iff)
  moreover have "of_nat u / of_nat c \<le> (of_nat u :: rat)"
    using assms(2) by (simp add: divide_le_eq mult_left_mono [of 1 _ "of_nat u", simplified])
  ultimately have q: "0 \<le> (of_nat u / of_nat c :: rat)" "(of_nat u / of_nat c :: rat) \<le> of_int (2 ^ 53)"
    by simp_all
  define x where "x = rnd (of_nat u / of_nat c)"
  from number_value_small [OF q] have x: "number_value (of_nat u / of_nat c) = Fin x" "0 \<le> x" "x \<le> of_int (2 ^ 53)"
    by (simp_all add: x_def)
  have y: "0 \<le> x / 1000" "x / 1000 \<le> of_int (2 ^ 53)" using x(2,3) by simp_all
  from number_value_small [OF y] have y': "number_value (x / 1000) = Fin (rnd (x / 1000))"
    "0 \<le> rnd (x / 1000)" "rnd (x / 1000) \<le> of_int (2 ^ 53)" by simp_all
  have d: "num_div (Fin x) (Fin 1000) = Fin (rnd (x / 1000))"
    using y'(1) by (cases "x = 0") (simp_all add: num_div_def signed_zero_def)
  have "of_int (2 ^ 53) < (10 ^ 21 :: rat)" by simp
  with y'(3) have lt: "rnd (x / 1000) < 10 ^ 21" by linarith
  have n: "num_div (Fin (of_nat u)) (Fin (of_nat c)) = Fin x"
    using False assms(2) x(1) by (simp add: num_div_def)
  have c: "truthy (Num (Fin (of_nat c)))" using assms(2) by simp
  have k: "lit 1000 = Num (Fin 1000)" by (simp add: lit_numeral)
  have "to_fixed 2 (Fin (rnd (x / 1000))) = fixed_digits 2 (avg_hundredths u c)"
    using to_fixed_nonneg [OF y'(2) lt] unfolding avg_hundredths_def x_def .
  then show ?thesis
    unfolding avgMs_def k js_arith_Num n d to_num.simps using c by (simp only: not_True_eq_False if_False)
qed

text \<open>
  Average times: over the same positive number of events the average shown is a
  decimal number of milliseconds with two places, and more time never shows a smaller one.
\<close>

theorem avg_ms_monotone:
  assumes "u \<le> v" "v \<le> 2 ^ 53" "0 < c"
  shows "\<exists>s t x y. avgMs (Num (Fin (of_nat u))) (Num (Fin (of_nat c))) = s @ '' ms'' \<and>
    avgMs (Num (Fin (of_nat v))) (Num (Fin (of_nat c))) = t @ '' ms'' \<and>
    read_decimal s = Some x \<and> read_decimal t = Some y \<and> x \<le> y"
proof -
  have "avg_hundredths u c \<le> avg_hundredths v c"
    unfolding avg_hundredths_def using assms(1)
    by (intro fixed_scaled_mono rnd_mono divide_right_mono) simp_all
  then have "(of_nat (avg_hundredths u c) / 10 ^ 2 :: rat) \<le> of_nat (avg_hundredths v c) / 10 ^ 2"
    by (intro divide_right_mono) simp_all
  moreover have "avgMs (Num (Fin (of_nat u))) (Num (Fin (of_nat c))) = fixed_digits 2 (avg_hundredths u c) @ '' ms''"
    and "avgMs (Num (Fin (of_nat v))) (Num (Fin (of_nat c))) = fixed_digits 2 (avg_hundredths v c) @ '' ms''"
    using assms by (auto intro!: avgMs_digits)
  moreover have "read_decimal (fixed_digits 2 m) = Some (of_nat m / 10 ^ 2)" for m
    by (rule read_fixed_digits) simp
  ultimately show ?thesis by blast
qed

lemma avg_ms_monotone_witness:
  "\<exists>s t x y. avgMs (Num (Fin (of_nat 1500))) (Num (Fin (of_nat 4))) = s @ '' ms'' \<and>
    avgMs (Num (Fin (of_nat 2500))) (Num (Fin (of_nat 4))) = t @ '' ms'' \<and>
    read_decimal s = Some x \<and> read_decimal t = Some y \<and> x \<le> y"
  by (rule avg_ms_monotone) simp_all

end
