(* ===== verification/Memory.thy ===== *)
theory Memory
  imports Charts DataTable
begin

text \<open>
  \<open>src/sections/Memory.jsx\<close>: the statistics of the allocator, with byte counts in units of
  1024, the utilisation of the heap, the twenty size classes with the most free bytes and
  the allocated bytes over time. The lemmas bound the error of the shown byte counts and show
  that the chart of the size classes leaves out no larger class.

  A property of a value that the code has tested to be truthy is read with \<open>opt_get\<close>.
\<close>

subsection \<open>Byte counts\<close>

definition fmtBytes :: "jv \<Rightarrow> string" where
  "fmtBytes b =
     (if nullish b then em_dash
      else if js_ge b (lit (1024 * 1024 * 1024))
        then to_fixed 2 (to_num (js_div b (lit (1024 * 1024 * 1024)))) @ '' GB''
      else if js_ge b (lit (1024 * 1024))
        then to_fixed 2 (to_num (js_div b (lit (1024 * 1024)))) @ '' MB''
      else if js_ge b (lit 1024)
        then to_fixed 1 (to_num (js_div b (lit 1024))) @ '' KB''
      else to_str (js_add b (Str '' B'')))"

subsection \<open>Heap\<close>

definition fragmented :: "jv \<Rightarrow> jv \<Rightarrow> jv" where
  "fragmented heapSize allocated =
     (if \<not> nullish heapSize \<and> \<not> nullish allocated then js_sub heapSize allocated else Null)"

text \<open>\<open>m > 0 ? v / m : 0\<close>\<close>

definition mem_ratio :: "jv \<Rightarrow> jv \<Rightarrow> jv" where
  "mem_ratio v m = (if js_gt m (lit 0) then js_div v m else lit 0)"

text \<open>A pair of labels over a bar: \<open>title\<close>, and the value over its maximum.\<close>

definition bytes_bar :: "string \<Rightarrow> jv \<Rightarrow> jv \<Rightarrow> jv" where
  "bytes_bar title v m =
     El ''div'' []
       [El ''div'' [cls ''flex justify-between text-xs text-muted-foreground mb-1'']
          [El ''span'' [] [Str title],
           El ''span'' [] [Str (fmtBytes v), Str '' / '', Str (fmtBytes m)]],
        El ''ProgressBar'' [(''value'', v), (''max'', m)] []]"

definition heap_card :: "jv \<Rightarrow> jv \<Rightarrow> jv \<Rightarrow> jv \<Rightarrow> jv" where
  "heap_card allocated heapSize tcCur tcMax =
     (let heapRatio = mem_ratio allocated heapSize in
      El ''Card'' []
        [El ''CardHeader'' [] [El ''CardTitle'' [] [Str ''Heap Utilization'']],
         El ''CardContent'' [cls ''space-y-4'']
           [El ''div'' [cls ''flex items-center gap-6'']
              [El ''RingGauge''
                 [(''value'', heapRatio), (''size'', lit 64), (''warn'', lit (7 / 10)),
                  (''danger'', lit (9 / 10)),
                  (''label'', Str (num_str (math_round (to_num (js_mul heapRatio (lit 100)))) @ ''%''))] [],
               El ''div'' [cls ''flex-1 space-y-3'']
                 [bytes_bar ''Allocated / Heap'' allocated heapSize,
                  if js_gt tcMax (lit 0) then bytes_bar ''Thread Cache Used / Max'' tcCur tcMax
                  else Bool False]]]])"

definition caches_card :: "(string \<times> jv) list \<Rightarrow> jv" where
  "caches_card entries =
     El ''Card'' []
       [El ''CardHeader'' [] [El ''CardTitle'' [] [Str ''tcmalloc Internal Caches'']],
        El ''CardContent'' []
          [El ''dl'' [cls ''grid grid-cols-2 md:grid-cols-3 gap-3 text-sm'']
             [Arr (map (\<lambda>(label, val).
                El ''div'' [(''key'', Str label)]
                  [El ''dt'' [cls ''text-muted-foreground text-xs''] [Str label],
                   El ''dd'' [cls ''font-mono font-medium''] [Str (fmtBytes val)]]) entries)]]]"

subsection \<open>Size classes\<close>

definition by_free_bytes :: "jv \<Rightarrow> jv \<Rightarrow> number" where
  "by_free_bytes a b = to_num (js_sub (opt_get b ''freeBytes'') (opt_get a ''freeBytes''))"

text \<open>The comparator throws on a null element, and is called as soon as there are two.\<close>

definition top_classes :: "jv list \<Rightarrow> jv list throws" where
  "top_classes xs =
     (if 2 \<le> length xs \<and> list_ex nullish xs then None
      else Some (take 20 (js_sort by_free_bytes xs)))"

definition axis_label :: "(string \<times> jv) list \<Rightarrow> jv" where
  "axis_label ps = Obj ((''fontSize'', lit 10) # ps)"

text \<open>\<open>params[0]\<close>\<close>

definition first_item :: "jv \<Rightarrow> jv throws" where
  "first_item v = (case v of
       Arr xs \<Rightarrow> Some (if xs = [] then Undef else hd xs)
     | Str s \<Rightarrow> Some (if s = [] then Undef else Str [hd s])
     | _ \<Rightarrow> get v ''0'')"

text \<open>The tooltip of the chart of size classes, called by ECharts.\<close>

definition classes_tooltip :: "jv \<Rightarrow> string throws" where
  "classes_tooltip params = do {
     p \<leftarrow> first_item params;
     name \<leftarrow> get p ''name'';
     value \<leftarrow> get p ''value'';
     Some (to_str name @ '': '' @ fmtBytes value)
   }"

definition classes_chart :: "jv \<Rightarrow> jv throws" where
  "classes_chart memorySizeClasses = do {
     xs \<leftarrow> spread memorySizeClasses;
     top \<leftarrow> top_classes xs;
     sizes \<leftarrow> mapM (\<lambda>c. get c ''size'') top;
     frees \<leftarrow> mapM (\<lambda>c. get c ''freeBytes'') top;
     Some (El ''EChartsWrapper''
       [(''style'', Obj [(''width'', Str ''100%''),
          (''height'', Num (math_max [Fin 200, to_num (js_mul (nat_num (length top)) (lit 20))]))]),
        (''option'', Obj
          [(''animation'', Bool False),
           (''grid'', Obj [(''top'', lit 8), (''bottom'', lit 28), (''left'', lit 56), (''right'', lit 12)]),
           (''tooltip'', Obj [(''trigger'', Str ''axis''), (''formatter'', Clo ''classes_tooltip'' [])]),
           (''xAxis'', Obj [(''type'', Str ''value''),
              (''axisLabel'', axis_label [(''formatter'', Clo ''fmtBytes'' [])])]),
           (''yAxis'', Obj [(''type'', Str ''category''),
              (''data'', Arr (map (\<lambda>v. Str (to_str v @ ''B'')) sizes)),
              (''axisLabel'', axis_label [])]),
           (''series'', Arr [Obj [(''type'', Str ''bar''), (''data'', Arr frees),
              (''itemStyle'', Obj [(''color'', Str ''#3b82f6'')])]])])] [])
   }"

definition classes_card :: "jv \<Rightarrow> jv throws" where
  "classes_card memorySizeClasses = do {
     content \<leftarrow>
       (if \<not> truthy memorySizeClasses \<or> strict_eq (opt_get memorySizeClasses ''length'') (lit 0)
        then Some (El ''p'' [cls ''text-muted-foreground text-sm'']
          [Str (''Size class data unavailable. Note: tcmalloc does not expose per-thread ''
                @ ''allocation breakdown.'')])
        else classes_chart memorySizeClasses);
     Some (El ''Card'' []
       [El ''CardHeader'' [] [El ''CardTitle'' [] [Str ''Size Class Breakdown'']],
        El ''CardContent'' [] [content]])
   }"

subsection \<open>History\<close>

definition memory_tooltip :: "jv \<Rightarrow> string throws" where
  "memory_tooltip params = (case params of
       Arr xs \<Rightarrow> map_option (join ''<br/>'') (mapM (\<lambda>p. do {
          name \<leftarrow> get p ''seriesName'';
          value \<leftarrow> get p ''value'';
          Some (to_str name @ '': '' @ fmtBytes value)
        }) xs)
     | _ \<Rightarrow> None)"

definition memory_history_card :: "env \<Rightarrow> jv \<Rightarrow> jv throws" where
  "memory_history_card e history = do {
     times \<leftarrow> js_map history (\<lambda>h. do { t \<leftarrow> get h ''t''; Some (Str (locale_time e (to_num t))) });
     allocs \<leftarrow> js_map history (\<lambda>h. get h ''memAlloc'');
     Some (El ''Card'' []
       [El ''CardHeader'' [] [El ''CardTitle'' [] [Str ''Memory Over Time'']],
        El ''CardContent'' []
          [El ''EChartsWrapper''
             [(''style'', Obj [(''width'', Str ''100%''), (''height'', lit 200)]),
              (''option'', Obj
                [(''animation'', Bool False),
                 (''grid'', Obj [(''top'', lit 24), (''bottom'', lit 28), (''left'', lit 60), (''right'', lit 12)]),
                 (''tooltip'', Obj [(''trigger'', Str ''axis''), (''formatter'', Clo ''memory_tooltip'' [])]),
                 (''legend'', Obj [(''top'', lit 0), (''right'', lit 0),
                    (''textStyle'', Obj [(''fontSize'', lit 11)])]),
                 (''xAxis'', Obj [(''type'', Str ''category''), (''data'', times),
                    (''axisLabel'', axis_label [])]),
                 (''yAxis'', Obj [(''type'', Str ''value''),
                    (''axisLabel'', axis_label [(''formatter'', Clo ''fmtBytes'' [])])]),
                 (''series'', Arr [Obj
                    [(''name'', Str ''Allocated''), (''type'', Str ''line''), (''smooth'', Bool True),
                     (''symbol'', Str ''none''),
                     (''lineStyle'', Obj [(''color'', Str ''#3b82f6'')]),
                     (''itemStyle'', Obj [(''color'', Str ''#3b82f6'')]),
                     (''data'', allocs)]])])] []]])
   }"

subsection \<open>The section\<close>

definition unavailable_note :: jv where
  "unavailable_note = El ''p'' [cls ''text-muted-foreground text-sm'']
     [Str ''tcmalloc stats not available (server not built with tcmalloc).'']"

definition Memory :: "env \<Rightarrow> props \<Rightarrow> jv throws" where
  "Memory e ps =
     (let memory = lookup ps ''memory'';
          memorySizeClasses = lookup ps ''memorySizeClasses'';
          history = lookup ps ''history''
      in if \<not> truthy memory then Some Null
      else if \<not> truthy (opt_get memory ''available'') then Some unavailable_note
      else
       (let allocated = opt_get memory ''generic.current_allocated_bytes'';
            heapSize = opt_get memory ''generic.heap_size'';
            phFree = opt_get memory ''tcmalloc.pageheap_free_bytes'';
            phUnmap = opt_get memory ''tcmalloc.pageheap_unmapped_bytes'';
            tcMax = opt_get memory ''tcmalloc.max_total_thread_cache_bytes'';
            tcCur = opt_get memory ''tcmalloc.current_total_thread_cache_bytes'';
            ccFree = opt_get memory ''tcmalloc.central_cache_free_bytes'';
            xfFree = opt_get memory ''tcmalloc.transfer_cache_free_bytes'';
            thFree = opt_get memory ''tcmalloc.thread_cache_free_bytes'';
            stat = (\<lambda>label v sub. El ''StatCard''
              [(''label'', Str label), (''value'', Str (fmtBytes v)), (''sub'', Str sub)] [])
        in do {
          classes \<leftarrow> classes_card memorySizeClasses;
          hist \<leftarrow> (if truthy history
                   then if js_gt (opt_get history ''length'') (lit 1)
                        then memory_history_card e history else Some (Bool False)
                   else Some history);
          Some (El ''div'' [cls ''space-y-6'']
            [El ''div'' [cls ''grid grid-cols-2 md:grid-cols-4 gap-4'']
               [stat ''Allocated'' allocated ''in use by app'',
                stat ''Heap Size'' heapSize ''total from OS'',
                stat ''Page Heap Free'' phFree ''ready to reuse'',
                stat ''Fragmentation'' (fragmented heapSize allocated)
                  (''heap '' @ minus_sign @ '' allocated'')],
             if js_gt heapSize (lit 0) then heap_card allocated heapSize tcCur tcMax else Bool False,
             caches_card
               [(''Central Cache Free'', ccFree), (''Transfer Cache Free'', xfFree),
                (''Thread Cache Free'', thFree), (''Page Heap Unmapped'', phUnmap),
                (''Thread Cache (cur)'', tcCur), (''Thread Cache (max)'', tcMax)],
             classes,
             hist])
        }))"

subsection \<open>The accuracy of byte counts\<close>

lemma byte_literals:
  "lit (1024 * 1024 * 1024) = Num (Fin (of_nat (2 ^ 30)))"
  "lit (1024 * 1024) = Num (Fin (of_nat (2 ^ 20)))"
  "lit 1024 = Num (Fin (of_nat (2 ^ 10)))"
  using lit_numeral [of "num.Bit0 _"] by (simp_all add: lit_numeral)

lemma num_div_pow2:
  assumes "0 < n" "n \<le> 2 ^ 53" "k \<le> 1074"
  shows "num_div (Fin (of_nat n)) (Fin (of_nat (2 ^ k))) = Fin (of_nat n / 2 ^ k)"
proof -
  have n: "int n \<le> 2 ^ 53" using assms(2) by (metis of_nat_le_iff of_nat_numeral of_nat_power)
  have "representable (of_int (int n) / 2 ^ k)"
    by (rule representable_dyadic) (use n assms in simp_all)
  moreover have "\<bar>of_nat n / 2 ^ k :: rat\<bar> < 2 ^ 1024"
  proof -
    have "(of_nat n :: rat) \<le> of_nat (2 ^ 53)" using assms(2) by (simp only: of_nat_le_iff)
    moreover have "of_nat n / 2 ^ k \<le> (of_nat n :: rat)"
      by (simp add: divide_le_eq mult_left_mono [of 1 _ "of_nat n", simplified])
    ultimately show ?thesis by simp
  qed
  ultimately show ?thesis using assms(1) by (simp add: num_div_def number_value_fin)
qed


text \<open>The text of one unit: its number is read back within half a unit of its last place.\<close>

lemma to_fixed_unit:
  assumes "0 < n" "n \<le> 2 ^ 53" "k \<le> 1074" "0 < f"
  shows "\<exists>x. read_decimal (to_fixed f (num_div (Fin (of_nat n)) (Fin (of_nat (2 ^ k))))) = Some x \<and>
    \<bar>x - of_nat n / 2 ^ k\<bar> \<le> 1 / (2 * 10 ^ f)"
proof -
  let ?q = "of_nat n / 2 ^ k :: rat"
  have "(of_nat n :: rat) \<le> of_nat (2 ^ 53)" using assms(2) by (simp only: of_nat_le_iff)
  moreover have "?q \<le> of_nat n"
    by (simp add: divide_le_eq mult_left_mono [of 1 _ "of_nat n", simplified])
  ultimately have q: "0 \<le> ?q" "?q < 10 ^ 21" by simp_all
  show ?thesis
    using read_fixed_digits [OF assms(4)] fixed_scaled_error [OF q(1), of f]
    by (simp only: num_div_pow2 [OF assms(1-3)] to_fixed_nonneg [OF q]) blast
qed

text \<open>
  Byte counts: below 1024 the count is shown exactly; from there on it is shown in
  the largest of KB, MB and GB that it reaches, and the number read back from the text differs
  from the count by at most half a unit of the last decimal shown.
\<close>

theorem fmt_bytes_accuracy:
  assumes "n \<le> 2 ^ 53"
  shows "if n < 1024 then fmtBytes (Num (Fin (of_nat n))) = nat_str n @ '' B''
    else \<exists>(u, k, f) \<in> {('' KB'', 10, 1), ('' MB'', 20, 2), ('' GB'', 30, 2 :: nat)}.
      2 ^ k \<le> n \<and> (k < 30 \<longrightarrow> n < 2 ^ (k + 10)) \<and>
      (\<exists>s x. fmtBytes (Num (Fin (of_nat n))) = s @ u \<and> read_decimal s = Some x \<and>
             \<bar>x - of_nat n / 2 ^ k\<bar> \<le> 1 / (2 * 10 ^ f))"
proof -
  have ge: "js_ge (Num (Fin (of_nat n))) (Num (Fin (of_nat (2 ^ k)))) \<longleftrightarrow> 2 ^ k \<le> n" for k
    by (simp only: js_order_Num num_le_Fin of_nat_le_iff)
  have unit: "\<exists>s x. to_fixed f (num_div (Fin (of_nat n)) (Fin (of_nat (2 ^ k)))) @ u = s @ u \<and>
      read_decimal s = Some x \<and> \<bar>x - of_nat n / 2 ^ k\<bar> \<le> 1 / (2 * 10 ^ f)"
    if "0 < n" "k \<le> 30" "0 < f" for k f u
    using to_fixed_unit [of n k f] that assms by auto
  have "n < 2 ^ 10 \<or> (2 ^ 10 \<le> n \<and> n < 2 ^ 20) \<or> (2 ^ 20 \<le> n \<and> n < 2 ^ 30) \<or> 2 ^ 30 \<le> n"
    by linarith
  then consider "n < 2 ^ 10" | "2 ^ 10 \<le> n" "n < 2 ^ 20" | "2 ^ 20 \<le> n" "n < 2 ^ 30" | "2 ^ 30 \<le> n"
    by blast
  then show ?thesis
  proof cases
    case 1
    have "num_str (Fin (of_int (int n))) = nat_str n"
      using num_str_int [of "int n"] 1 by (simp add: int_str_def del: num_str.simps)
    then have "num_str (Fin (of_nat n)) = nat_str n" by simp
    then show ?thesis using 1
      by (simp only: fmtBytes_def nullish_simps byte_literals ge js_add_Str to_str.simps) simp
  next
    case 2
    then have "fmtBytes (Num (Fin (of_nat n))) =
        to_fixed 1 (num_div (Fin (of_nat n)) (Fin (of_nat (2 ^ 10)))) @ '' KB''"
      by (simp only: fmtBytes_def nullish_simps byte_literals ge js_arith_Num to_num.simps) simp
    then show ?thesis using 2 unit [of 10 1 "'' KB''"] by simp
  next
    case 3
    then have "fmtBytes (Num (Fin (of_nat n))) =
        to_fixed 2 (num_div (Fin (of_nat n)) (Fin (of_nat (2 ^ 20)))) @ '' MB''"
      by (simp only: fmtBytes_def nullish_simps byte_literals ge js_arith_Num to_num.simps) simp
    then show ?thesis using 3 unit [of 20 2 "'' MB''"] by simp
  next
    case 4
    then have "fmtBytes (Num (Fin (of_nat n))) =
        to_fixed 2 (num_div (Fin (of_nat n)) (Fin (of_nat (2 ^ 30)))) @ '' GB''"
      by (simp only: fmtBytes_def nullish_simps byte_literals ge js_arith_Num to_num.simps) simp
    then show ?thesis using 4 unit [of 30 2 "'' GB''"] by simp
  qed
qed

lemma fmt_bytes_accuracy_witness:
  "\<exists>(u, k, f) \<in> {('' KB'', 10, 1), ('' MB'', 20, 2), ('' GB'', 30, 2 :: nat)}.
      2 ^ k \<le> (1536 :: nat) \<and> (k < 30 \<longrightarrow> (1536 :: nat) < 2 ^ (k + 10)) \<and>
      (\<exists>s x. fmtBytes (Num (Fin (of_nat 1536))) = s @ u \<and> read_decimal s = Some x \<and>
             \<bar>x - of_nat 1536 / 2 ^ k\<bar> \<le> 1 / (2 * 10 ^ f))"
proof -
  have ge: "\<not> 1536 < (1024 :: nat)" and le: "1536 \<le> (2 :: nat) ^ 53" by simp_all
  show ?thesis using fmt_bytes_accuracy [OF le] unfolding if_not_P [OF ge] .
qed

subsection \<open>The size classes shown\<close>

definition free_bytes :: "jv \<Rightarrow> rat" where
  "free_bytes c = (case opt_get c ''freeBytes'' of Num (Fin q) \<Rightarrow> q | _ \<Rightarrow> 0)"

text \<open>A size class as the endpoint reports it.\<close>

definition size_class :: "jv \<Rightarrow> bool" where
  "size_class c \<longleftrightarrow> (\<exists>ps q. c = Obj ps \<and> lookup ps ''freeBytes'' = Num (Fin q) \<and> representable q)"

lemma goes_before_free_bytes:
  "size_class a \<Longrightarrow> size_class b \<Longrightarrow> goes_before by_free_bytes a b \<longleftrightarrow> free_bytes b < free_bytes a"
  by (auto simp: size_class_def goes_before_def by_free_bytes_def free_bytes_def num_sub_neg_iff)

lemma consistent_free_bytes: "(\<forall>c \<in> S. size_class c) \<Longrightarrow> consistent by_free_bytes S"
  by (rule consistent_key [where key = "\<lambda>c. - free_bytes c"]) (simp add: goes_before_free_bytes)

lemma top_classes_Some:
  "(\<forall>c \<in> set xs. size_class c) \<Longrightarrow> top_classes xs = Some (take 20 (js_sort by_free_bytes xs))"
  by (auto simp: top_classes_def list_ex_iff size_class_def)

lemma top_classes_sorted:
  assumes "\<forall>c \<in> set xs. size_class c"
  shows "sorted_wrt (\<lambda>a b. free_bytes b \<le> free_bytes a) (take 20 (js_sort by_free_bytes xs))"
proof -
  have "sorted_wrt (\<lambda>x y. \<not> goes_before by_free_bytes y x) (js_sort by_free_bytes xs)"
    by (rule v8_sort.sort_sorted) (rule consistent_free_bytes [OF assms])
  then have "sorted_wrt (\<lambda>a b. free_bytes b \<le> free_bytes a) (js_sort by_free_bytes xs)"
    by (rule sorted_wrt_mono_rel [rotated])
       (use assms in \<open>auto simp: set_js_sort goes_before_free_bytes not_less\<close>)
  then show ?thesis by (rule sorted_wrt_take)
qed

text \<open>
  The twenty largest size classes: the chart shows at most twenty of the classes,
  all of them when there are no more, from the one with the most free bytes down, and no class
  that it leaves out has more free bytes than one that it shows.
\<close>

theorem size_classes_shown:
  assumes "\<forall>c \<in> set xs. size_class c"
  shows "\<exists>top rest. top_classes xs = Some top \<and> mset (top @ rest) = mset xs \<and>
    length top = min 20 (length xs) \<and>
    sorted_wrt (\<lambda>a b. free_bytes b \<le> free_bytes a) top \<and>
    (\<forall>a \<in> set top. \<forall>b \<in> set rest. free_bytes b \<le> free_bytes a)"
proof -
  let ?s = "js_sort by_free_bytes xs"
  have "\<forall>a \<in> set (take 20 ?s). \<forall>b \<in> set (drop 20 ?s). free_bytes b \<le> free_bytes a"
  proof (intro ballI)
    fix a b assume ab: "a \<in> set (take 20 ?s)" "b \<in> set (drop 20 ?s)"
    then have "\<not> goes_before by_free_bytes b a"
      using v8_sort.sort_prefix [OF consistent_free_bytes [OF assms]] by blast
    moreover have "size_class a" "size_class b"
      using assms ab by (auto dest!: in_set_takeD in_set_dropD simp: set_js_sort)
    ultimately show "free_bytes b \<le> free_bytes a" by (simp add: goes_before_free_bytes)
  qed
  moreover have "mset (take 20 ?s @ drop 20 ?s) = mset xs" by (simp only: append_take_drop_id mset_js_sort)
  moreover have "length (take 20 ?s) = min 20 (length xs)" by simp
  ultimately show ?thesis
    using top_classes_Some [OF assms] top_classes_sorted [OF assms] by blast
qed

lemma size_classes_shown_witness:
  "\<exists>top rest. top_classes [Obj [(''freeBytes'', Num (Fin 1))], Obj [(''freeBytes'', Num (Fin 2))]] = Some top \<and>
    mset (top @ rest) = mset [Obj [(''freeBytes'', Num (Fin 1))], Obj [(''freeBytes'', Num (Fin 2))]] \<and>
    length top = min 20 (length [Obj [(''freeBytes'', Num (Fin 1))], Obj [(''freeBytes'', Num (Fin 2))]]) \<and>
    sorted_wrt (\<lambda>a b. free_bytes b \<le> free_bytes a) top \<and>
    (\<forall>a \<in> set top. \<forall>b \<in> set rest. free_bytes b \<le> free_bytes a)"
  by (rule size_classes_shown) (use representable_int [of 1] representable_int [of 2] in \<open>simp add: size_class_def\<close>)

text \<open>
  Fragmentation: with whole byte counts the allocated and the fragmented bytes add
  up to the heap, and the ratio that the gauge of the heap shows is between 0 and 1.
\<close>

theorem heap_accounts:
  assumes "a \<le> h" "h \<le> 2 ^ 53"
  shows "fragmented (Num (Fin (of_nat h))) (Num (Fin (of_nat a))) = Num (Fin (of_nat (h - a))) \<and>
    (\<exists>r. mem_ratio (Num (Fin (of_nat a))) (Num (Fin (of_nat h))) = Num (Fin r) \<and> 0 \<le> r \<and> r \<le> 1)"
proof -
  have "number_value (of_nat (h - a)) = Fin (of_nat (h - a))"
    by (rule number_value_nat) (use assms in linarith)
  then have "number_value (of_nat h - of_nat a) = Fin (of_nat (h - a))"
    using assms(1) by (simp add: of_nat_diff)
  then have "fragmented (Num (Fin (of_nat h))) (Num (Fin (of_nat a))) = Num (Fin (of_nat (h - a)))"
    by (simp add: fragmented_def num_sub_Fin)
  moreover have "\<exists>r. mem_ratio (Num (Fin (of_nat a))) (Num (Fin (of_nat h))) = Num (Fin r) \<and> 0 \<le> r \<and> r \<le> 1"
  proof (cases "h = 0 \<or> a = 0")
    case True
    then show ?thesis using assms(1) by (auto simp: mem_ratio_def num_div_def signed_zero_def)
  next
    case False
    have q: "0 \<le> (of_nat a / of_nat h :: rat)" "(of_nat a / of_nat h :: rat) \<le> of_int 1"
      using False assms(1) by simp_all
    from number_value_small [OF q] False show ?thesis
      by (auto simp: mem_ratio_def num_div_def)
  qed
  ultimately show ?thesis by simp
qed

lemma heap_accounts_witness:
  "fragmented (Num (Fin (of_nat 4096))) (Num (Fin (of_nat 1024))) = Num (Fin (of_nat (4096 - 1024))) \<and>
    (\<exists>r. mem_ratio (Num (Fin (of_nat 1024))) (Num (Fin (of_nat 4096))) = Num (Fin r) \<and> 0 \<le> r \<and> r \<le> 1)"
  by (rule heap_accounts) simp_all

end
