(* ===== verification/ServerStats.thy ===== *)
theory ServerStats
  imports Charts DataTable
begin

text \<open>
  \<open>src/sections/ServerStats.jsx\<close>: connections, the thread pool, the history charts and the
  tables of URLs, threads, locks and scheduled procedures. The lemmas show that times lose no
  microsecond, that the charts are aligned with their axis and that the rows of the lock table
  are coloured by contention.
\<close>

subsection \<open>Times\<close>

definition fmtTime :: "env \<Rightarrow> jv \<Rightarrow> string" where
  "fmtTime e epoch =
     (if \<not> truthy epoch then em_dash
      else locale_string e (to_num (js_mul epoch (lit 1000))))"

definition fmtUsec :: "jv \<Rightarrow> string" where
  "fmtUsec usec =
     (if nullish usec then em_dash
      else to_fixed 6 (to_num (js_div usec (lit 1000000))) @ ''s'')"

text \<open>A cell of the table of URLs.\<close>

definition sec_cell :: "jv \<Rightarrow> string" where
  "sec_cell usec =
     (if \<not> nullish usec then to_fixed 6 (to_num (js_div usec (lit 1000000))) else em_dash)"

subsection \<open>Charts\<close>

text \<open>A series is its key in the history, its name and its colour.\<close>

definition series_option :: "jv \<Rightarrow> string \<times> string \<times> string \<Rightarrow> jv throws" where
  "series_option history = (\<lambda>(key, name, color). do {
     points \<leftarrow> js_map history (\<lambda>h. do { v \<leftarrow> get h key; Some (coalesce v (lit 0)) });
     Some (Obj
       [(''name'', Str name), (''type'', Str ''line''), (''smooth'', Bool True),
        (''symbol'', Str ''none''),
        (''lineStyle'', Obj [(''color'', Str color)]),
        (''itemStyle'', Obj [(''color'', Str color)]),
        (''data'', points)])
   })"

definition makeTimeseriesOption :: "env \<Rightarrow> jv \<Rightarrow> (string \<times> string \<times> string) list \<Rightarrow> jv throws" where
  "makeTimeseriesOption e history series = do {
     times \<leftarrow> js_map history (\<lambda>h. do { t \<leftarrow> get h ''t''; Some (Str (locale_time e (to_num t))) });
     lines \<leftarrow> mapM (series_option history) series;
     Some (Obj
       [(''animation'', Bool False),
        (''grid'', Obj [(''top'', lit 24), (''bottom'', lit 28), (''left'', lit 40), (''right'', lit 12)]),
        (''tooltip'', Obj [(''trigger'', Str ''axis'')]),
        (''legend'', Obj [(''top'', lit 0), (''right'', lit 0),
           (''textStyle'', Obj [(''fontSize'', lit 11)])]),
        (''xAxis'', Obj [(''type'', Str ''category''), (''data'', times),
           (''axisLabel'', Obj [(''fontSize'', lit 10)])]),
        (''yAxis'', Obj [(''type'', Str ''value''), (''minInterval'', lit 1),
           (''axisLabel'', Obj [(''fontSize'', lit 10)])]),
        (''series'', Arr lines)])
   }"

definition history_card :: "env \<Rightarrow> string \<Rightarrow> jv \<Rightarrow> (string \<times> string \<times> string) list \<Rightarrow> jv throws" where
  "history_card e title hist series =
     (if js_gt (opt_get hist ''length'') (lit 1)
      then do {
        option \<leftarrow> makeTimeseriesOption e hist series;
        Some (El ''Card'' []
          [El ''CardHeader'' [] [El ''CardTitle'' [] [Str title]],
           El ''CardContent'' []
             [El ''EChartsWrapper''
                [(''style'', Obj [(''width'', Str ''100%''), (''height'', lit 200)]),
                 (''option'', option)] []]])
      }
      else Some (Bool False))"

subsection \<open>Connections and threads\<close>

definition conn_stats :: "jv \<Rightarrow> jv" where
  "conn_stats server =
     (let stat = (\<lambda>label key. El ''StatCard''
            [(''label'', Str label), (''value'', coalesce (opt_get server key) (Str em_dash))] [])
      in El ''div'' [cls ''grid grid-cols-2 md:grid-cols-4 gap-4'']
           [stat ''Active Conns'' ''active'', stat ''Queued Conns'' ''queued'',
            stat ''Waiting Conns'' ''waiting'', stat ''Keep-alive Conns'' ''keepalive''])"

definition utilization_bar :: "string \<Rightarrow> jv \<Rightarrow> jv \<Rightarrow> jv" where
  "utilization_bar title v mx =
     El ''div'' []
       [El ''div'' [cls ''flex justify-between text-xs text-muted-foreground mb-1'']
          [El ''span'' [] [Str title], El ''span'' [] [v, Str ''/'', mx]],
        El ''ProgressBar'' [(''value'', v), (''max'', mx)] []]"

definition pool_gauge :: "jv \<Rightarrow> jv \<Rightarrow> jv" where
  "pool_gauge current mx =
     El ''RingGauge''
       [(''value'', if js_gt mx (lit 0) then js_div current mx else lit 0), (''size'', lit 64),
        (''warn'', lit (7 / 10)), (''danger'', lit (9 / 10)),
        (''label'', Str (num_str (math_round (to_num
           (if js_gt mx (lit 0) then js_mul (js_div current mx) (lit 100) else lit 0))) @ ''%''))] []"

text \<open>The counts of the pool: its maximum, its current size and its busy threads.\<close>

definition pool_counts :: "jv \<Rightarrow> jv \<times> jv \<times> jv" where
  "pool_counts t =
     (let mx = js_or (opt_get t ''max'') (lit 1);
          current = js_or (opt_get t ''current'') (lit 0);
          idle = js_or (opt_get t ''idle'') (lit 0)
      in (mx, current, js_sub current idle))"

definition thread_pool_card :: "jv \<Rightarrow> jv" where
  "thread_pool_card t =
     (let (mx, current, active) = pool_counts t in
      El ''Card'' []
        [El ''CardHeader'' [] [El ''CardTitle'' [] [Str ''Thread Pool'']],
         El ''CardContent'' [cls ''space-y-4'']
           [El ''div'' [cls ''flex items-center gap-6'']
              [pool_gauge current mx,
               El ''div'' [cls ''flex-1'']
                 [El ''div'' [cls ''grid grid-cols-3 md:grid-cols-5 gap-4 text-center text-sm mb-3'']
                    [Arr (map (\<lambda>(label, val).
                       El ''div'' [(''key'', Str label)]
                         [El ''p'' [cls ''text-muted-foreground text-xs''] [Str label],
                          El ''p'' [cls ''text-xl font-bold''] [coalesce val (Str em_dash)]])
                       [(''Min'', opt_get t ''min''), (''Max'', opt_get t ''max''),
                        (''Current'', opt_get t ''current''), (''Idle'', opt_get t ''idle''),
                        (''Stopping'', opt_get t ''stopping'')])],
                  El ''div'' [cls ''space-y-2'']
                    [utilization_bar ''Thread utilization'' current mx,
                     utilization_bar ''Active (busy) threads'' active mx]]]]])"

definition totals_card :: "jv \<Rightarrow> jv" where
  "totals_card server =
     (if typeof (opt_get server ''connections'') \<noteq> ''undefined''
      then El ''Card'' []
        [El ''CardHeader'' [] [El ''CardTitle'' [] [Str ''Total Connections'']],
         El ''CardContent'' []
           [El ''p'' [cls ''text-3xl font-bold''] [opt_get server ''connections''],
            El ''p'' [cls ''text-sm text-muted-foreground mt-1''] [Str ''Since server start'']]]
      else Bool False)"

definition pools_card :: "jv \<Rightarrow> jv throws" where
  "pools_card pools =
     (if \<not> truthy pools then Some pools
      else if \<not> js_gt (opt_get pools ''length'') (lit 0) then Some (Bool False)
      else do {
        items \<leftarrow> js_map pools (\<lambda>p. Some (El ''li''
          [(''key'', p), cls ''rounded-md border px-3 py-1 text-sm font-mono''] [p]));
        Some (El ''Card'' []
          [El ''CardHeader'' [] [El ''CardTitle'' [] [Str ''Connection Pools'']],
           El ''CardContent'' [] [El ''ul'' [cls ''flex flex-wrap gap-2''] [items]]])
      })"

subsection \<open>Tables\<close>

definition columns_of :: "(string \<times> string) list \<Rightarrow> jv" where
  "columns_of cols = Arr (map (\<lambda>(k, l). Obj [(''key'', Str k), (''label'', Str l)]) cols)"

text \<open>A table in a card. The title may carry the number of rows.\<close>

definition table_card :: "jv list \<Rightarrow> props \<Rightarrow> jv" where
  "table_card title ps =
     El ''Card'' []
       [El ''CardHeader'' [] [El ''CardTitle'' [] title],
        El ''CardContent'' [] [El ''DataTable'' ps []]]"

definition counted :: "string \<Rightarrow> jv \<Rightarrow> jv list" where
  "counted title xs = [Str (title @ '' (''), opt_get xs ''length'', Str '')'']"

text \<open>\<open>xs.length > 0 && ...\<close>\<close>

definition if_rows :: "jv \<Rightarrow> jv throws \<Rightarrow> jv throws" where
  "if_rows xs elem = (if js_gt (opt_get xs ''length'') (lit 0) then elem else Some (Bool False))"

definition url_row :: "jv \<Rightarrow> jv throws" where
  "url_row u = do {
     url \<leftarrow> get u ''url'';
     hits \<leftarrow> get u ''hits'';
     waitUsec \<leftarrow> get u ''waitUsec'';
     openUsec \<leftarrow> get u ''openUsec'';
     closedUsec \<leftarrow> get u ''closedUsec'';
     Some (Obj [(''url'', url), (''hits'', hits), (''waitSec'', Str (sec_cell waitUsec)),
       (''openSec'', Str (sec_cell openUsec)), (''closedSec'', Str (sec_cell closedUsec))])
   }"

definition url_card :: "jv \<Rightarrow> jv throws" where
  "url_card urlstats = if_rows urlstats (do {
     rows \<leftarrow> js_map urlstats url_row;
     Some (table_card [Str ''URL Stats'']
       [(''columns'', columns_of [(''url'', ''URL''), (''hits'', ''Hits''), (''waitSec'', ''Wait (s)''),
          (''openSec'', ''Open (s)''), (''closedSec'', ''Closed (s)'')]),
        (''rows'', rows), (''emptyText'', Str ''No URL stats.'')])
   })"

definition thread_row :: "env \<Rightarrow> jv \<Rightarrow> jv throws" where
  "thread_row e th = do {
     name \<leftarrow> get th ''name'';
     tid \<leftarrow> get th ''tid'';
     flags \<leftarrow> get th ''flags'';
     ctime \<leftarrow> get th ''ctime'';
     proc \<leftarrow> get th ''proc'';
     Some (Obj [(''name'', name), (''tid'', tid), (''flags'', flags),
       (''ctime'', Str (fmtTime e ctime)), (''proc'', proc)])
   }"

definition threads_card :: "env \<Rightarrow> jv \<Rightarrow> jv throws" where
  "threads_card e threadList = if_rows threadList (do {
     rows \<leftarrow> js_map threadList (thread_row e);
     Some (table_card (counted ''Running Threads'' threadList)
       [(''columns'', columns_of [(''name'', ''Name''), (''tid'', ''TID''), (''flags'', ''Flags''),
          (''ctime'', ''Created''), (''proc'', ''Proc'')]),
        (''rows'', rows), (''emptyText'', Str ''No threads.'')])
   })"

definition lock_ratio :: "jv \<Rightarrow> jv \<Rightarrow> jv" where
  "lock_ratio nbusy nlock = (if js_gt nlock (lit 0) then js_div nbusy nlock else lit 0)"

definition lock_row :: "jv \<Rightarrow> jv throws" where
  "lock_row lk = do {
     nlock \<leftarrow> get lk ''nlock'';
     nbusy \<leftarrow> get lk ''nbusy'';
     let ratio = lock_ratio nbusy nlock;
     name \<leftarrow> get lk ''name'';
     owner \<leftarrow> get lk ''owner'';
     Some (Obj [(''name'', name), (''owner'', js_or owner (Str em_dash)),
       (''nlock'', nlock), (''nbusy'', nbusy),
       (''contention'', Str (if js_gt nlock (lit 0)
          then to_fixed 1 (to_num (js_mul ratio (lit 100))) @ ''%'' else em_dash)),
       (''_ratio'', ratio)])
   }"

text \<open>The closure that the lock table gets as \<open>rowClassName\<close>.\<close>

definition lock_row_class :: "jv \<Rightarrow> jv throws" where
  "lock_row_class row = do {
     ratio \<leftarrow> get row ''_ratio'';
     Some (Str (if js_gt ratio (lit (25 / 100)) then ''bg-red-50 dark:bg-red-950/30''
       else if js_gt ratio (lit (5 / 100)) then ''bg-amber-50 dark:bg-amber-950/30'' else ''''))
   }"

definition locks_card :: "jv \<Rightarrow> jv throws" where
  "locks_card lockList = if_rows lockList (do {
     rows \<leftarrow> js_map lockList lock_row;
     Some (table_card (counted ''Thread Locks'' lockList)
       [(''columns'', columns_of [(''name'', ''Name''), (''owner'', ''Owner''), (''nlock'', ''Locks''),
          (''nbusy'', ''Busy''), (''contention'', ''Contention'')]),
        (''rows'', rows), (''rowClassName'', Clo ''lock_row_class'' []),
        (''emptyText'', Str ''No locks.'')])
   })"

definition sched_row :: "env \<Rightarrow> jv \<Rightarrow> jv throws" where
  "sched_row e s = do {
     proc \<leftarrow> get s ''proc'';
     id \<leftarrow> get s ''id'';
     interval \<leftarrow> get s ''interval'';
     nextqueue \<leftarrow> get s ''nextqueue'';
     lastend \<leftarrow> get s ''lastend'';
     Some (Obj [(''proc'', proc), (''id'', id), (''interval'', interval),
       (''nextqueue'', Str (fmtTime e nextqueue)), (''lastend'', Str (fmtTime e lastend))])
   }"

definition sched_card :: "env \<Rightarrow> jv \<Rightarrow> jv throws" where
  "sched_card e schedList = if_rows schedList (do {
     rows \<leftarrow> js_map schedList (sched_row e);
     Some (table_card (counted ''Scheduled Procedures'' schedList)
       [(''columns'', columns_of [(''proc'', ''Proc''), (''id'', ''ID''), (''interval'', ''Interval (s)''),
          (''nextqueue'', ''Next Run''), (''lastend'', ''Last End'')]),
        (''rows'', rows), (''emptyText'', Str ''No scheduled procedures.'')])
   })"

subsection \<open>The section\<close>

definition ServerStats :: "env \<Rightarrow> props \<Rightarrow> jv throws" where
  "ServerStats e ps =
     (let server = lookup ps ''server''; list = (\<lambda>v. js_or v (Arr []));
          hist = list (lookup ps ''history'');
          t = js_or (opt_get server ''threads'') (Obj [])
      in if \<not> truthy server then Some Null
      else do {
        pools \<leftarrow> pools_card (opt_get server ''pools'');
        conns \<leftarrow> history_card e ''Connection History'' hist
          [(''active'', ''Active'', ''#3b82f6''), (''queued'', ''Queued'', ''#f59e0b'')];
        threads \<leftarrow> history_card e ''Thread Pool History'' hist
          [(''threads'', ''Current'', ''#3b82f6''), (''threadsMax'', ''Max'', ''#e2e8f0'')];
        urls \<leftarrow> url_card (list (opt_get server ''urlstats''));
        running \<leftarrow> threads_card e (list (lookup ps ''threads''));
        locks \<leftarrow> locks_card (list (lookup ps ''locks''));
        scheds \<leftarrow> sched_card e (list (lookup ps ''scheduled''));
        Some (El ''div'' [cls ''space-y-6'']
          [conn_stats server, thread_pool_card t,
           El ''div'' [cls ''grid grid-cols-1 md:grid-cols-2 gap-4''] [totals_card server, pools],
           conns, threads, urls, running, locks, scheds])
      })"

subsection \<open>Times lose no microsecond\<close>

text \<open>\<open>toFixed(6)\<close> undoes the division by a million: the rounding of the quotient is too small.\<close>

lemma million_round_trip:
  assumes "u \<le> 2 ^ 51"
  shows "fixed_scaled 6 (rnd (of_nat u / 1000000)) = u"
proof -
  let ?q = "of_nat u / 1000000 :: rat"
  have "(of_nat u :: rat) \<le> of_nat (2 ^ 51)" using assms by (simp only: of_nat_le_iff)
  then have q: "0 \<le> ?q" "?q < 2 powi 32" by simp_all
  define y where "y = rnd ?q"
  have "\<bar>y - ?q\<bar> \<le> 2 powi (32 - 54)"
    unfolding y_def by (rule rnd_error [OF q]) simp
  also have "(2 :: rat) powi (32 - 54) = inverse (2 powi 22)"
    unfolding power_int_minus [symmetric] by simp
  also have "\<dots> = 1 / 4194304" by simp
  finally have err: "\<bar>y - ?q\<bar> \<le> 1 / 4194304" .
  have million: "(10 :: rat) ^ 6 = 1000000" by simp
  have "y - ?q \<le> 1 / 4194304" "- (y - ?q) \<le> 1 / 4194304" using err by (simp_all only: abs_le_iff)
  then have "of_int (int u) \<le> y * 10 ^ 6 + 1 / 2" "y * 10 ^ 6 + 1 / 2 < of_int (int u) + 1"
    unfolding million of_int_of_nat_eq by linarith+
  then have "\<lfloor>y * 10 ^ 6 + 1 / 2\<rfloor> = int u" by (simp only: floor_eq_iff)
  then show ?thesis by (simp only: fixed_scaled_def y_def nat_int)
qed

lemma usec_text:
  assumes "u \<le> 2 ^ 51"
  shows "to_fixed 6 (to_num (js_div (Num (Fin (of_nat u))) (lit 1000000))) = fixed_digits 6 u"
proof (cases "u = 0")
  case True
  then show ?thesis by (simp add: lit_numeral num_div_def signed_zero_def fixed_scaled_def)
next
  case False
  let ?q = "of_nat u / 1000000 :: rat"
  have "(of_nat u :: rat) \<le> of_nat (2 ^ 51)" using assms by (simp only: of_nat_le_iff)
  then have q: "0 \<le> ?q" "?q \<le> of_int (2 ^ 51)" by simp_all
  from number_value_small [OF q]
  have v: "number_value ?q = Fin (rnd ?q)" "0 \<le> rnd ?q" "rnd ?q \<le> of_int (2 ^ 51)" by simp_all
  have lt: "rnd ?q < 10 ^ 21" using v(3) by simp
  have "num_div (Fin (of_nat u)) (Fin 1000000) = Fin (rnd ?q)"
    using False v(1) by (simp add: num_div_def)
  then have "js_div (Num (Fin (of_nat u))) (lit 1000000) = Num (Fin (rnd ?q))"
    by (simp add: lit_numeral)
  then show ?thesis
    by (simp only: to_num.simps to_fixed_nonneg [OF v(2) lt] million_round_trip [OF assms])
qed

lemma sec_cell_exact:
  assumes "u \<le> 2 ^ 51"
  shows "read_decimal (sec_cell (Num (Fin (of_nat u)))) = Some (of_nat u / 10 ^ 6)"
  using usec_text [OF assms] read_fixed_digits [of 6 u] by (simp only: sec_cell_def nullish_simps) simp

text \<open>
  The table of URLs shows the three times of a URL to the microsecond: the decimal
  numbers in its row are exactly the microseconds that the server reports over a million, for
  times of up to seventy years.
\<close>

theorem url_times_exact:
  assumes "lookup u ''waitUsec'' = Num (Fin (of_nat a))" "a \<le> 2 ^ 51"
    and "lookup u ''openUsec'' = Num (Fin (of_nat b))" "b \<le> 2 ^ 51"
    and "lookup u ''closedUsec'' = Num (Fin (of_nat c))" "c \<le> 2 ^ 51"
  shows "\<exists>row r s t. url_row (Obj u) = Some (Obj row) \<and>
    lookup row ''waitSec'' = Str r \<and> read_decimal r = Some (of_nat a / 10 ^ 6) \<and>
    lookup row ''openSec'' = Str s \<and> read_decimal s = Some (of_nat b / 10 ^ 6) \<and>
    lookup row ''closedSec'' = Str t \<and> read_decimal t = Some (of_nat c / 10 ^ 6)"
  using sec_cell_exact [OF assms(2)] sec_cell_exact [OF assms(4)] sec_cell_exact [OF assms(6)]
  by (simp add: url_row_def assms(1,3,5))

lemma url_times_exact_witness:
  "\<exists>row r s t. url_row (Obj [(''waitUsec'', Num (Fin (of_nat 7))), (''openUsec'', Num (Fin (of_nat 0))),
      (''closedUsec'', Num (Fin (of_nat 1500000)))]) = Some (Obj row) \<and>
    lookup row ''waitSec'' = Str r \<and> read_decimal r = Some (of_nat 7 / 10 ^ 6) \<and>
    lookup row ''openSec'' = Str s \<and> read_decimal s = Some (of_nat 0 / 10 ^ 6) \<and>
    lookup row ''closedSec'' = Str t \<and> read_decimal t = Some (of_nat 1500000 / 10 ^ 6)"
  by (rule url_times_exact) simp_all

subsection \<open>The charts are aligned\<close>

lemma js_map_get:
  assumes "\<forall>h \<in> set hs. \<not> nullish h"
  shows "js_map (Arr hs) (\<lambda>h. do { v \<leftarrow> get h k; Some (g v) }) = Some (Arr (map (\<lambda>h. g (opt_get h k)) hs))"
proof -
  have "mapM (\<lambda>h. do { v \<leftarrow> get h k; Some (g v) }) hs = Some (map (\<lambda>h. g (opt_get h k)) hs)"
    using assms
  proof (induction hs)
    case Nil
    then show ?case by simp
  next
    case (Cons h hs)
    then obtain v where "get h k = Some v" using get_total by fastforce
    with Cons show ?case by (simp add: opt_get_def)
  qed
  then show ?thesis by (simp add: js_map_def)
qed

definition series_points :: "jv list \<Rightarrow> string \<Rightarrow> jv" where
  "series_points hs key = Arr (map (\<lambda>h. coalesce (opt_get h key) (Num (Fin 0))) hs)"

text \<open>
  Time series: for every history the chart has one point per sample in every series,
  in the order of the time axis, each the value of its sample or 0 where the sample has none.
\<close>

theorem timeseries_aligned:
  assumes "\<forall>h \<in> set hs. \<not> nullish h"
  shows "\<exists>opt lines. makeTimeseriesOption e (Arr hs) series = Some opt \<and>
    opt_get (opt_get opt ''xAxis'') ''data'' =
      Arr (map (\<lambda>h. Str (locale_time e (to_num (opt_get h ''t'')))) hs) \<and>
    opt_get opt ''series'' = Arr lines \<and>
    map (\<lambda>l. opt_get l ''data'') lines = map (\<lambda>(key, name, color). series_points hs key) series"
proof -
  let ?line = "\<lambda>(key, name, color). Obj
    [(''name'', Str name), (''type'', Str ''line''), (''smooth'', Bool True), (''symbol'', Str ''none''),
     (''lineStyle'', Obj [(''color'', Str color)]), (''itemStyle'', Obj [(''color'', Str color)]),
     (''data'', series_points hs key)]"
  have "series_option (Arr hs) s = Some (?line s)" for s
    by (cases s) (simp add: series_option_def js_map_get [OF assms] series_points_def)
  then have "series_option (Arr hs) = (\<lambda>s. Some (?line s))" by (rule ext)
  then have "mapM (series_option (Arr hs)) series = Some (map ?line series)" by (simp only: mapM_pure)
  then show ?thesis
    by (simp add: makeTimeseriesOption_def js_map_get [OF assms] split_def)
qed

lemma timeseries_aligned_witness:
  "\<exists>opt lines. makeTimeseriesOption plain_env (Arr [Obj [(''t'', Num (Fin 5)), (''active'', Num (Fin 2))]])
       [(''active'', ''Active'', ''#3b82f6'')] = Some opt \<and>
    opt_get (opt_get opt ''xAxis'') ''data'' =
      Arr (map (\<lambda>h. Str (locale_time plain_env (to_num (opt_get h ''t''))))
        [Obj [(''t'', Num (Fin 5)), (''active'', Num (Fin 2))]]) \<and>
    opt_get opt ''series'' = Arr lines \<and>
    map (\<lambda>l. opt_get l ''data'') lines =
      map (\<lambda>(key, name, color). series_points [Obj [(''t'', Num (Fin 5)), (''active'', Num (Fin 2))]] key)
        [(''active'', ''Active'', ''#3b82f6'')]"
  by (rule timeseries_aligned) simp

subsection \<open>The thread pool\<close>

text \<open>
  The thread pool: with whole counts the busy threads are the current threads that
  are not idle, and the gauge is labelled with a whole percentage from 0 to 100, which is 100
  when the pool is full.
\<close>

theorem thread_pool_percentage:
  assumes "lookup t ''max'' = Num (Fin (of_nat m))" "lookup t ''current'' = Num (Fin (of_nat c))"
    and "lookup t ''idle'' = Num (Fin (of_nat i))"
    and "i \<le> c" "c \<le> m" "0 < m" "m \<le> 2 ^ 53"
  shows "\<exists>current mx active p. pool_counts (Obj t) = (mx, current, active) \<and>
    active = Num (Fin (of_nat (c - i))) \<and>
    attr ''label'' (pool_gauge current mx) = Str (nat_str p @ ''%'') \<and>
    p \<le> 100 \<and> (c = m \<longrightarrow> p = 100)"
proof -
  have counts: "pool_counts (Obj t) = (Num (Fin (of_nat m)), Num (Fin (of_nat c)), Num (Fin (of_nat (c - i))))"
  proof -
    have "number_value (of_nat (c - i)) = Fin (of_nat (c - i))"
      by (rule number_value_nat) (use assms in linarith)
    then have "number_value (of_nat c - of_nat i) = Fin (of_nat (c - i))"
      using assms(4) by (simp add: of_nat_diff)
    with assms show ?thesis by (auto simp: pool_counts_def js_or_def num_sub_Fin Let_def)
  qed
  define r where "r = rnd (of_nat c / of_nat m)"
  have r: "num_div (Fin (of_nat c)) (Fin (of_nat m)) = Fin r" "0 \<le> r" "r \<le> 1"
    using num_ratio [OF assms(5,6)] by (simp_all add: r_def)
  have full: "c = m \<longrightarrow> r = 1" using assms(6) rnd_int [of 1] by (simp add: r_def)
  have wf: "wf_number (Fin 100)" using representable_int [of 100] by simp
  obtain y where y: "num_mul (Fin r) (Fin 100) = Fin y" "0 \<le> y" "y \<le> 100"
    using num_mul_shrink [OF r(2,3) _ wf] by auto
  have y_full: "c = m \<longrightarrow> y = 100"
    using full y(1) number_value_int [of 100] by (auto simp: num_mul_def)
  let ?p = "\<lfloor>y + 1/2\<rfloor>"
  have p: "0 \<le> ?p" "?p \<le> 100" using y(2,3) by linarith+
  have "math_round (Fin y) = Fin (of_int ?p)" by (rule math_round_nonneg [OF y(2)])
  moreover have "num_str (Fin (of_int ?p)) = nat_str (nat ?p)"
    using num_str_int [of ?p] p by (simp add: int_str_def del: num_str.simps)
  moreover have "pool_gauge (Num (Fin (of_nat c))) (Num (Fin (of_nat m))) = El ''RingGauge''
      [(''value'', Num (Fin r)), (''size'', lit 64), (''warn'', lit (7 / 10)), (''danger'', lit (9 / 10)),
       (''label'', Str (num_str (math_round (Fin y)) @ ''%''))] []"
  proof -
    have "js_gt (Num (Fin (of_nat m))) (lit 0)" using assms(6) by simp
    moreover have "lit 100 = Num (Fin 100)" by (simp add: lit_numeral)
    ultimately show ?thesis
      by (simp only: pool_gauge_def if_True js_arith_Num r(1) y(1) to_num.simps)
  qed
  ultimately have label: "attr ''label'' (pool_gauge (Num (Fin (of_nat c))) (Num (Fin (of_nat m)))) =
      Str (nat_str (nat ?p) @ ''%'')" by (simp only: attr.simps lookup_Cons) simp
  have "\<lfloor>100 + 1/2 :: rat\<rfloor> = 100" by (simp only: floor_eq_iff) simp
  then have "c = m \<longrightarrow> nat ?p = 100" using y_full by auto
  moreover have "nat ?p \<le> 100" using nat_mono [OF p(2)] by simp
  ultimately show ?thesis using counts label by blast
qed

lemma thread_pool_percentage_witness:
  "\<exists>current mx active p. pool_counts (Obj [(''max'', Num (Fin (of_nat 10))), (''current'', Num (Fin (of_nat 10))),
      (''idle'', Num (Fin (of_nat 4)))]) = (mx, current, active) \<and>
    active = Num (Fin (of_nat (10 - 4))) \<and>
    attr ''label'' (pool_gauge current mx) = Str (nat_str p @ ''%'') \<and>
    p \<le> 100 \<and> (10 = (10 :: nat) \<longrightarrow> p = 100)"
  by (rule thread_pool_percentage) simp_all

subsection \<open>Contended locks\<close>

text \<open>What a table does with the closure of its rows.\<close>

definition apply_closure :: "jv \<Rightarrow> jv \<Rightarrow> jv throws" where
  "apply_closure f x = (case f of
       Clo name _ \<Rightarrow> if name = ''lock_row_class'' then lock_row_class x else None
     | _ \<Rightarrow> None)"

text \<open>The row of the table for the \<open>i\<close>-th lock.\<close>

definition lock_tr :: "jv \<Rightarrow> nat \<Rightarrow> jv \<Rightarrow> jv throws" where
  "lock_tr cols i lk =
     lock_row lk \<bind> data_row apply_closure [(''columns'', cols), (''rowClassName'', Clo ''lock_row_class'' [])] i"

primrec lock_class :: "level \<Rightarrow> string" where
  "lock_class OkLevel = ''''"
| "lock_class WarnLevel = ''bg-amber-50 dark:bg-amber-950/30''"
| "lock_class DangerLevel = ''bg-red-50 dark:bg-red-950/30''"

text \<open>The literals 0.05 and 0.25.\<close>

definition lock_level :: "rat \<Rightarrow> level" where
  "lock_level r =
     (if num_lt (number_value (25 / 100)) (Fin r) then DangerLevel
      else if num_lt (number_value (5 / 100)) (Fin r) then WarnLevel else OkLevel)"

lemma num_lt_number_value:
  "0 \<le> x \<Longrightarrow> x < 1 \<Longrightarrow> num_lt (number_value x) (Fin r) \<longleftrightarrow> rnd x < r"
  using number_value_small(1) [of x 1] by simp

lemma lock_level_mono: "r \<le> s \<Longrightarrow> lock_level r \<le> lock_level s"
  by (auto simp: lock_level_def less_eq_level_def num_lt_number_value)

lemma quarter: "rnd (1 / 4) = 1 / 4"
  using rnd_representable [OF representable_dyadic [of 1 2]] by simp

lemma lock_tr_class:
  assumes "lookup lk ''nlock'' = Num (Fin (of_nat n))" "lookup lk ''nbusy'' = Num (Fin (of_nat b))"
    and "b \<le> n" "0 < n" "lock_tr (Arr cols) i (Obj lk) = Some tr"
  shows "attr ''className'' tr =
    Str (''border-t hover:bg-muted/50 '' @ lock_class (lock_level (rnd (of_nat b / of_nat n))))"
proof -
  let ?r = "rnd (of_nat b / of_nat n)"
  have ratio: "lock_ratio (Num (Fin (of_nat b))) (Num (Fin (of_nat n))) = Num (Fin ?r)"
    using num_ratio [OF assms(3,4)] assms(4) by (simp add: lock_ratio_def)
  have "\<exists>row. lock_row (Obj lk) = Some (Obj row) \<and> lookup row ''_ratio'' = Num (Fin ?r)"
    by (simp add: lock_row_def Let_def assms(1,2) ratio)
  then obtain row where row: "lock_row (Obj lk) = Some (Obj row)" "lookup row ''_ratio'' = Num (Fin ?r)"
    by blast
  then have tr: "data_row apply_closure [(''columns'', Arr cols), (''rowClassName'', Clo ''lock_row_class'' [])] i (Obj row) = Some tr"
    using assms(5) by (simp add: lock_tr_def)
  from row have "lock_row_class (Obj row) = Some (Str (lock_class (lock_level ?r)))"
    by (simp add: lock_row_class_def lock_level_def lit_def js_gt_def)
  with tr show ?thesis
    by (auto simp: data_row_def apply_closure_def bind_eq_Some_conv)
qed

text \<open>
  The lock table is coloured by contention: of two locks taken equally often the one
  that was busy more often is not shown in a milder colour, and no lock is shown in red that
  was busy at most once in four.
\<close>

theorem lock_colours:
  assumes "lookup lk ''nlock'' = Num (Fin (of_nat n))" "lookup lk ''nbusy'' = Num (Fin (of_nat b))"
    and "lookup lk' ''nlock'' = Num (Fin (of_nat n))" "lookup lk' ''nbusy'' = Num (Fin (of_nat b'))"
    and "b \<le> b'" "b' \<le> n" "0 < n"
    and "lock_tr (Arr cols) i (Obj lk) = Some tr" "lock_tr (Arr cols) j (Obj lk') = Some tr'"
  shows "\<exists>l m. attr ''className'' tr = Str (''border-t hover:bg-muted/50 '' @ lock_class l) \<and>
    attr ''className'' tr' = Str (''border-t hover:bg-muted/50 '' @ lock_class m) \<and> l \<le> m \<and>
    (4 * b' \<le> n \<longrightarrow> m \<noteq> DangerLevel)"
proof -
  let ?r = "rnd (of_nat b / of_nat n)" and ?s = "rnd (of_nat b' / of_nat n)"
  have "?r \<le> ?s" using assms(5,7) by (intro rnd_mono divide_right_mono) simp_all
  then have "lock_level ?r \<le> lock_level ?s" by (rule lock_level_mono)
  moreover have "lock_level ?s \<noteq> DangerLevel" if "4 * b' \<le> n"
  proof -
    have "(of_nat (4 * b') :: rat) \<le> of_nat n" using that by (simp only: of_nat_le_iff)
    then have "of_nat b' / of_nat n \<le> (1 / 4 :: rat)" using assms(7) by (simp add: divide_le_eq)
    from rnd_mono [OF this] have "?s \<le> rnd (1 / 4)" .
    then show ?thesis by (simp add: lock_level_def num_lt_number_value)
  qed
  ultimately show ?thesis
    using lock_tr_class [OF assms(1,2) _ assms(7,8)] lock_tr_class [OF assms(3,4,6,7,9)] assms(5,6)
    by (meson le_trans)
qed

lemma lock_colours_witness:
  "\<exists>tr tr' l m. lock_tr (Arr []) 0 (Obj [(''nlock'', Num (Fin (of_nat 8))), (''nbusy'', Num (Fin (of_nat 1)))]) = Some tr \<and>
    lock_tr (Arr []) 1 (Obj [(''nlock'', Num (Fin (of_nat 8))), (''nbusy'', Num (Fin (of_nat 2)))]) = Some tr' \<and>
    attr ''className'' tr = Str (''border-t hover:bg-muted/50 '' @ lock_class l) \<and>
    attr ''className'' tr' = Str (''border-t hover:bg-muted/50 '' @ lock_class m) \<and> l \<le> m \<and> m \<noteq> DangerLevel"
proof -
  have tr: "\<exists>tr. lock_tr (Arr []) i (Obj [(''nlock'', v), (''nbusy'', w)]) = Some tr" for i v w
    by (simp add: lock_tr_def lock_row_def data_row_def apply_closure_def lock_row_class_def js_map_def Let_def)
  obtain tr where t: "lock_tr (Arr []) 0 (Obj [(''nlock'', Num (Fin (of_nat 8))), (''nbusy'', Num (Fin (of_nat 1)))]) = Some tr"
    using tr by blast
  obtain tr' where t': "lock_tr (Arr []) 1 (Obj [(''nlock'', Num (Fin (of_nat 8))), (''nbusy'', Num (Fin (of_nat 2)))]) = Some tr'"
    using tr by blast
  from lock_colours [OF _ _ _ _ _ _ _ t t', of 8 1 2] t t' show ?thesis by (simp del: of_nat_numeral)
qed

end
