(* ===== verification/Listings.thy ===== *)
theory Listings
  imports ServerStats
begin

text \<open>
  The four sections that list what the server reports: \<open>src/sections/Caches.jsx\<close>,
  \<open>Drivers.jsx\<close>, \<open>AdpCache.jsx\<close> and \<open>Log.jsx\<close>. The lemmas show which entries are listed and
  when a section falls back to its note.
\<close>

subsection \<open>Caches\<close>

definition cache_entries :: "jv \<Rightarrow> (string \<times> jv) list" where
  "cache_entries caches =
     (if truthy caches \<and> typeof caches = ''object'' \<and> \<not> is_array caches
      then obj_entries caches else [])"

definition cache_row :: "string \<times> jv \<Rightarrow> (string \<times> jv) list throws" where
  "cache_row = (\<lambda>(name, s). do {
     entries \<leftarrow> get s ''entries'';
     hits \<leftarrow> get s ''hits'';
     misses \<leftarrow> get s ''misses'';
     flushed \<leftarrow> get s ''flushed'';
     hitrate \<leftarrow> get s ''hitrate'';
     Some [(''name'', Str name), (''entries'', coalesce entries (lit 0)),
       (''hits'', coalesce hits (lit 0)), (''misses'', coalesce misses (lit 0)),
       (''flushed'', coalesce flushed (lit 0)), (''hitrate'', coalesce hitrate (lit 0)),
       (''_hitrateRaw'', if typeof hitrate = ''number'' then js_div hitrate (lit 100) else lit 0)]
   })"

definition cache_gauge :: "(string \<times> jv) list \<Rightarrow> jv" where
  "cache_gauge r =
     El ''div'' [cls ''flex items-center gap-2'']
       [El ''RingGauge''
          [(''value'', lookup r ''_hitrateRaw''), (''size'', lit 32), (''warn'', lit (5 / 10)),
           (''danger'', lit (2 / 10)), (''label'', Str '''')] [],
        El ''span'' [cls ''text-xs''] [lookup r ''hitrate'', Str ''%'']]"

definition Caches :: "props \<Rightarrow> jv throws" where
  "Caches ps =
     (let entries = cache_entries (lookup ps ''caches'') in
      if entries = []
      then Some (El ''p'' [cls ''text-muted-foreground text-sm''] [Str ''No named caches configured.''])
      else do {
        rows \<leftarrow> mapM cache_row entries;
        Some (El ''div'' [cls ''space-y-6'']
          [El ''Card'' []
             [El ''CardHeader'' []
                [El ''CardTitle'' [] [Str ''Caches ('', nat_num (length entries), Str '')'']],
              El ''CardContent'' []
                [El ''DataTable''
                   [(''columns'', columns_of [(''name'', ''Name''), (''entries'', ''Entries''),
                      (''hits'', ''Hits''), (''misses'', ''Misses''), (''flushed'', ''Flushed''),
                      (''_gauge'', ''Hit Rate'')]),
                    (''rows'', Arr (map (\<lambda>r. Obj (r @ [(''_gauge'', cache_gauge r)])) rows)),
                    (''emptyText'', Str ''No caches.'')] []]]])
      })"

subsection \<open>Drivers\<close>

definition has_entries :: "jv \<Rightarrow> bool" where
  "has_entries v \<longleftrightarrow> \<not> nullish v \<and> typeof v = ''object'' \<and> obj_entries v \<noteq> []"

definition entry_list :: "jv \<Rightarrow> jv" where
  "entry_list v =
     El ''dl'' [cls ''grid grid-cols-2 gap-2 text-sm'']
       [Arr (map (\<lambda>(k, w). El ''div'' [(''key'', Str k), cls ''flex gap-2'']
          [El ''dt'' [cls ''font-medium text-muted-foreground''] [Str k],
           El ''dd'' [cls ''font-mono''] [Str (to_str w)]]) (obj_entries v))]"

definition driver_list_card :: "jv list \<Rightarrow> jv" where
  "driver_list_card drivers =
     El ''Card'' []
       [El ''CardHeader'' [] [El ''CardTitle'' [] [Str ''Network Drivers'']],
        El ''CardContent'' []
          [El ''ul'' [cls ''flex flex-wrap gap-2'']
             [Arr (map (\<lambda>d. El ''li''
                [(''key'', d), cls ''rounded-md border px-3 py-1 text-sm font-mono''] [d]) drivers)]]]"

definition driver_info_card :: "jv \<Rightarrow> jv" where
  "driver_info_card drivers =
     El ''Card'' []
       [El ''CardHeader'' [] [El ''CardTitle'' [] [Str ''Driver Info'']],
        El ''CardContent'' [] [entry_list drivers]]"

definition http_card :: "string \<Rightarrow> jv list \<Rightarrow> jv \<Rightarrow> jv" where
  "http_card title note v =
     El ''Card'' []
       [El ''CardHeader'' [] [El ''CardTitle'' [] [Str title]],
        El ''CardContent'' []
          [El ''p'' [cls ''text-xs text-muted-foreground mb-3''] note, entry_list v]]"

definition drivers_card :: "jv \<Rightarrow> jv" where
  "drivers_card drivers =
     (case drivers of
        Arr ds \<Rightarrow> if ds \<noteq> [] then driver_list_card ds else Null
      | _ \<Rightarrow> if \<not> nullish drivers \<and> typeof drivers = ''object'' then driver_info_card drivers else Null)"

definition no_drivers :: jv where
  "no_drivers = El ''p'' [cls ''text-muted-foreground text-sm'']
     [Str ''No drivers or HTTP/2/3 stats reported.'']"

definition Drivers :: "props \<Rightarrow> jv throws" where
  "Drivers ps =
     (let drivers = lookup ps ''drivers''; http2 = lookup ps ''http2''; http3 = lookup ps ''http3'';
          hasDriverList = is_array drivers \<and> js_gt (opt_get drivers ''length'') (lit 0);
          hasHttp2 = has_entries http2;
          hasHttp3 = has_entries http3
      in Some (if \<not> hasDriverList \<and> \<not> hasHttp2 \<and> \<not> hasHttp3 then no_drivers
         else El ''div'' [cls ''space-y-4'']
           [drivers_card drivers,
            if hasHttp2 then http_card ''HTTP/2 (global)''
              [Str ''Process-wide counters for TLS ALPN '', El ''code'' [cls ''font-mono''] [Str ''h2''],
               Str '' (nghttp2).''] http2
            else Null,
            if hasHttp3 then http_card ''HTTP/3 (global)''
              [Str ''Process-wide counters for QUIC + HTTP/3 (ngtcp2/nghttp3), when enabled in nsssl.''] http3
            else Null]))"

subsection \<open>ADP cache and log\<close>

definition adp_fmtTime :: "env \<Rightarrow> jv \<Rightarrow> string" where
  "adp_fmtTime e epoch =
     (if \<not> truthy epoch then em_dash
      else locale_string e (to_num (js_mul epoch (lit 1000))))"

definition adp_row :: "env \<Rightarrow> jv \<Rightarrow> jv throws" where
  "adp_row env e = do {
     file \<leftarrow> get e ''file'';
     evals \<leftarrow> get e ''evals'';
     refcnt \<leftarrow> get e ''refcnt'';
     sz \<leftarrow> get e ''size'';
     blocks \<leftarrow> get e ''blocks'';
     scripts \<leftarrow> get e ''scripts'';
     mtime \<leftarrow> get e ''mtime'';
     Some (Obj [(''file'', file), (''evals'', evals), (''refcnt'', refcnt), (''size'', sz),
       (''blocks'', blocks), (''scripts'', scripts), (''mtime'', Str (adp_fmtTime env mtime))])
   }"

definition AdpCache :: "env \<Rightarrow> props \<Rightarrow> jv throws" where
  "AdpCache env ps =
     (let rows = js_or (lookup ps ''adpStats'') (Arr []) in
      if strict_eq (opt_get rows ''length'') (lit 0)
      then Some (El ''Card'' []
        [El ''CardHeader'' [] [El ''CardTitle'' [] [Str ''ADP Page Cache'']],
         El ''CardContent'' [] [El ''p'' [cls ''text-muted-foreground text-sm''] [Str ''No ADP pages cached.'']]])
      else do {
        rs \<leftarrow> js_map rows (adp_row env);
        Some (El ''Card'' []
          [El ''CardHeader'' []
             [El ''CardTitle'' [] [Str ''ADP Page Cache ('', opt_get rows ''length'', Str '' entries)'']],
           El ''CardContent'' []
             [El ''DataTable''
                [(''columns'', columns_of [(''file'', ''File''), (''evals'', ''Evals''), (''refcnt'', ''Refs''),
                   (''size'', ''Size (B)''), (''blocks'', ''Blocks''), (''scripts'', ''Scripts''),
                   (''mtime'', ''Modified'')]),
                 (''rows'', rs), (''emptyText'', Str ''No ADP pages cached.'')] []]])
      })"

definition Log :: "props \<Rightarrow> jv" where
  "Log ps =
     El ''Card'' []
       [El ''CardHeader'' [] [El ''CardTitle'' [] [Str ''Server Log (last 8 KB)'']],
        El ''CardContent'' []
          [El ''pre''
             [(''ref'', Clo ''preRef'' []),
              cls (''text-xs font-mono bg-muted rounded p-3 overflow-auto max-h-[600px] ''
                @ ''whitespace-pre-wrap break-all'')]
             [js_or (lookup ps ''logTail'') (Str ''(empty)'')]]]"

text \<open>
  The scroll position of the log. The effect asks for the full height whenever the tail is
  new, which the browser limits to the last position that fills the view.
\<close>

record log_view =
  shown_tail :: jv
  scrollTop :: nat
  scrollHeight :: nat
  clientHeight :: nat

definition scroll_to :: "nat \<Rightarrow> log_view \<Rightarrow> log_view" where
  "scroll_to y v = v\<lparr>scrollTop := min y (scrollHeight v - clientHeight v)\<rparr>"

datatype log_event = NewTail jv nat | SameTail | UserScroll nat

primrec log_step :: "log_event \<Rightarrow> log_view \<Rightarrow> log_view" where
  "log_step (NewTail tail height) v =
     scroll_to height (v\<lparr>shown_tail := tail, scrollHeight := height\<rparr>)"
| "log_step SameTail v = v"
| "log_step (UserScroll y) v = scroll_to y v"

subsection \<open>What is listed\<close>

text \<open>The counters of a cache; a counter that is missing is 0.\<close>

definition counter :: "jv \<Rightarrow> string \<Rightarrow> jv" where
  "counter s k = coalesce (opt_get s k) (Num (Fin 0))"

definition row_of_cache :: "string \<times> jv \<Rightarrow> props" where
  "row_of_cache = (\<lambda>(name, s).
    [(''name'', Str name), (''entries'', counter s ''entries''), (''hits'', counter s ''hits''),
     (''misses'', counter s ''misses''), (''flushed'', counter s ''flushed''),
     (''hitrate'', counter s ''hitrate''),
     (''_hitrateRaw'', if typeof (opt_get s ''hitrate'') = ''number''
        then js_div (opt_get s ''hitrate'') (lit 100) else Num (Fin 0))])"

lemma cache_row_Obj: "\<not> nullish s \<Longrightarrow> cache_row (name, s) = Some (row_of_cache (name, s))"
  by (cases s) (simp_all add: cache_row_def row_of_cache_def counter_def opt_get_def)

text \<open>The rows that a section hands to its table.\<close>

definition cache_table_rows :: "jv \<Rightarrow> jv" where
  "cache_table_rows v = attr ''rows'' (child 0 (child 1 (child 0 v)))"

lemma caches_table:
  assumes "lookup ps ''caches'' = Obj cs" "cs \<noteq> []" "\<forall>(n, s) \<in> set cs. \<not> nullish s"
  shows "\<exists>v. Caches ps = Some v \<and> cache_table_rows v =
    Arr (map (\<lambda>c. Obj (row_of_cache c @ [(''_gauge'', cache_gauge (row_of_cache c))])) cs)"
proof -
  have rows: "mapM cache_row cs = Some (map row_of_cache cs)"
    using assms(3)
  proof (induction cs)
    case Nil
    then show ?case by simp
  next
    case (Cons c cs)
    then show ?case by (cases c) (simp add: cache_row_Obj)
  qed
  have "cache_entries (Obj cs) = cs" by (simp add: cache_entries_def is_array_def obj_entries_def)
  then show ?thesis using assms(1,2) rows
    by (simp add: Caches_def cache_table_rows_def Let_def comp_def)
qed

lemma caches_rows:
  assumes "lookup ps ''caches'' = Obj cs" "cs \<noteq> []" "\<forall>(n, s) \<in> set cs. \<not> nullish s"
  shows "\<exists>v rows. Caches ps = Some v \<and> cache_table_rows v = Arr rows \<and>
    map (\<lambda>r. map (opt_get r) [''name'', ''entries'', ''hits'', ''misses'', ''flushed'', ''hitrate'']) rows =
    map (\<lambda>(n, s). [Str n, counter s ''entries'', counter s ''hits'', counter s ''misses'',
                      counter s ''flushed'', counter s ''hitrate'']) cs"
  using caches_table [OF assms] by (force simp: row_of_cache_def split_def)

text \<open>
  The caches: every cache that the server reports has one row, in the order of the
  report, with its name and its counters, 0 for a counter that is missing.
\<close>

theorem caches_listed:
  assumes "lookup ps ''caches'' = Obj cs" "cs \<noteq> []" "\<forall>(n, s) \<in> set cs. \<not> nullish s"
  shows "\<exists>v rows. Caches ps = Some v \<and> cache_table_rows v = Arr rows \<and>
    map (\<lambda>r. map (opt_get r) [''name'', ''entries'', ''hits'', ''misses'', ''flushed'', ''hitrate'']) rows =
    map (\<lambda>(n, s). [Str n, counter s ''entries'', counter s ''hits'', counter s ''misses'',
                      counter s ''flushed'', counter s ''hitrate'']) cs"
  by (rule caches_rows) (use assms in blast)+

lemma caches_listed_witness:
  "\<exists>v rows. Caches [(''caches'', Obj [(''adp'', Obj [(''hits'', Num (Fin 3))])])] = Some v \<and>
    cache_table_rows v = Arr rows \<and>
    map (\<lambda>r. map (opt_get r) [''name'', ''entries'', ''hits'', ''misses'', ''flushed'', ''hitrate'']) rows =
    map (\<lambda>(n, s). [Str n, counter s ''entries'', counter s ''hits'', counter s ''misses'',
                      counter s ''flushed'', counter s ''hitrate'']) [(''adp'', Obj [(''hits'', Num (Fin 3))])]"
  by (rule caches_listed) simp_all

lemma percent_below_fifth: "h < 20 \<Longrightarrow> rnd (of_nat h / 100) < rnd (1 / 5)"
proof -
  assume "h < 20"
  then have "(of_nat h :: rat) \<le> of_nat 19" by (simp only: of_nat_le_iff)
  then have "(of_nat h / 100 :: rat) \<le> 19 / 100" by simp
  from rnd_mono [OF this] have "rnd (of_nat h / 100) \<le> rnd (19 / 100)" .
  moreover have "\<bar>rnd (19 / 100) - 19 / 100\<bar> \<le> 1 / 1024" "\<bar>rnd (1 / 5) - 1 / 5\<bar> \<le> 1 / 1024"
  proof -
    have "(2 :: rat) powi (0 - 54) \<le> 2 powi (- 10)" by (rule powi_mono2) simp
    also have "(2 :: rat) powi (- 10) = inverse (2 powi 10)" by (rule power_int_minus)
    also have "\<dots> = 1 / 1024" by simp
    finally have small: "(2 :: rat) powi (0 - 54) \<le> 1 / 1024" .
    show "\<bar>rnd (19 / 100) - 19 / 100\<bar> \<le> 1 / 1024"
      by (rule order.trans [OF rnd_error [of _ 0] small]) simp_all
    show "\<bar>rnd (1 / 5) - 1 / 5\<bar> \<le> 1 / 1024"
      by (rule order.trans [OF rnd_error [of _ 0] small]) simp_all
  qed
  ultimately show "rnd (of_nat h / 100) < rnd (1 / 5)" unfolding abs_le_iff by linarith
qed

text \<open>
  The gauge of a cache: for a hit rate in percent it is red from 20 upwards and blue
  below, and never amber, because its thresholds are inverted.
\<close>

theorem cache_gauge_colour:
  assumes "lookup s ''hitrate'' = Num (Fin (of_nat h))" "h \<le> 100"
    and "cache_row (name, Obj s) = Some r" "child 0 (cache_gauge r) = El t ps cs"
  shows "attr ''stroke'' (child 1 (RingGauge ps)) = Str (if 20 \<le> h then ''#ef4444'' else ''#3b82f6'')"
proof -
  have raw: "lookup r ''_hitrateRaw'' = Num (num_div (Fin (of_nat h)) (Fin (of_nat 100)))"
    using assms(1,3) by (auto simp: cache_row_def lit_numeral)
  define q where "q = rnd (of_nat h / 100)"
  have q: "lookup r ''_hitrateRaw'' = Num (Fin q)" "0 \<le> q" "q \<le> 1"
    using num_ratio [OF assms(2)] by (simp_all add: raw q_def)
  have fill: "gauge_fill (Num (Fin q)) = Fin q"
    using q(2,3) by (auto simp: gauge_fill_def math_max_def math_min_def num_max2_def num_min2_def)
  have ps: "ps = [(''value'', Num (Fin q)), (''size'', lit 32), (''warn'', lit (5 / 10)),
      (''danger'', lit (2 / 10)), (''label'', Str '''')]"
    using assms(4) q(1) by (simp add: cache_gauge_def)
  define f where "f = rnd (1 / 5)"
  have f: "lit (2 / 10) = Num (Fin f)"
    using number_value_small(1) [of "1/5" 1] by (simp add: lit_def f_def)
  have h: "lit (5 / 10) = Num (Fin (1/2))"
    using number_value_fin [of "1/2"] representable_dyadic [of 1 1] by (simp add: lit_def)
  have iff: "20 \<le> h \<longleftrightarrow> f \<le> q"
  proof
    assume "20 \<le> h"
    then have "(of_nat 20 :: rat) \<le> of_nat h" by (simp only: of_nat_le_iff)
    then have "(1 / 5 :: rat) \<le> of_nat h / 100" by simp
    then show "f \<le> q" unfolding f_def q_def by (rule rnd_mono)
  next
    assume "f \<le> q"
    then show "20 \<le> h" using percent_below_fifth [of h] unfolding f_def q_def by (meson not_less)
  qed
  have half: "f \<le> 1 / 2" unfolding f_def using rnd_mono [of "1/5" "1/2"]
      rnd_representable [OF representable_dyadic [of 1 1]] by simp
  have "attr ''stroke'' (child 1 (RingGauge ps)) = Str (level_color (Num (Fin q)) (Num (Fin (1/2))) (Num (Fin f)))"
    unfolding ps RingGauge_def Let_def by (simp add: pget_def fill f [simplified] h [simplified])
  then show ?thesis using iff half by (simp add: level_color_def)
qed

lemma cache_gauge_colour_witness:
  "\<exists>r ps. cache_row (''adp'', Obj [(''hitrate'', Num (Fin (of_nat 95)))]) = Some r \<and>
     child 0 (cache_gauge r) = El ''RingGauge'' ps [] \<and>
     attr ''stroke'' (child 1 (RingGauge ps)) = Str ''#ef4444''"
proof -
  obtain r where r: "cache_row (''adp'', Obj [(''hitrate'', Num (Fin (of_nat 95)))]) = Some r"
    by (simp add: cache_row_def)
  moreover obtain ps where ps: "child 0 (cache_gauge r) = El ''RingGauge'' ps []"
    by (simp add: cache_gauge_def)
  ultimately show ?thesis using cache_gauge_colour [OF _ _ r ps, of 95] by auto
qed

text \<open>
  The drivers: the section shows only its note exactly when there is no array of
  drivers with an element and neither HTTP version has counters; in particular an object of
  drivers is then left out.
\<close>

theorem drivers_fallback:
  "Drivers ps = Some no_drivers \<longleftrightarrow>
     \<not> (\<exists>d ds. lookup ps ''drivers'' = Arr (d # ds)) \<and>
     \<not> has_entries (lookup ps ''http2'') \<and> \<not> has_entries (lookup ps ''http3'')"
proof -
  have "is_array v \<and> js_gt (opt_get v ''length'') (lit 0) \<longleftrightarrow> (\<exists>d ds. v = Arr (d # ds))" for v
  proof (cases v)
    case (Arr xs)
    have "js_gt (nat_num (length xs)) (Num (Fin 0)) \<longleftrightarrow> (\<exists>d ds. xs = d # ds)"
      unfolding nat_num_pos by (cases xs) simp_all
    with Arr show ?thesis by (simp add: is_array_def opt_get_def)
  qed (simp_all add: is_array_def)
  then show ?thesis unfolding Drivers_def Let_def no_drivers_def by auto
qed

text \<open>
  The log follows its end: after a new tail the last line is in view, wherever the
  user had scrolled.
\<close>

theorem log_shows_end:
  "scrollHeight (log_step (NewTail t h) v) \<le> scrollTop (log_step (NewTail t h) v) + clientHeight v"
  by (simp add: scroll_to_def)

subsection \<open>The hit rate column\<close>

lemma caches_gauge_rows:
  assumes "lookup ps ''caches'' = Obj cs" "cs \<noteq> []" "\<forall>(n, s) \<in> set cs. \<not> nullish s" "Caches ps = Some v"
  shows "\<exists>rows. cache_table_rows v = Arr rows \<and>
    (\<forall>r \<in> set rows. \<not> nullish r \<and> (\<exists>t qs ch. opt_get r ''_gauge'' = El t qs ch))"
  using caches_table [OF assms(1-3)] assms(4) by (auto simp: row_of_cache_def cache_gauge_def)

text \<open>
  The column of hit rates cannot be sorted: its cells are elements, which the table
  compares as the text [object Object], so a click on its header leaves the rows as they are,
  in either direction.
\<close>

theorem gauge_column_unsortable:
  fixes rank :: "string \<Rightarrow> 'k :: linorder"
  assumes "collates e rank" "sortCol st = Str ''_gauge''"
    and "lookup ps ''caches'' = Obj cs" "cs \<noteq> []" "\<forall>(n, s) \<in> set cs. \<not> nullish s" "Caches ps = Some v"
  shows "sorted_rows e st (cache_table_rows v) = Some (cache_table_rows v)"
proof -
  obtain rows where rows: "cache_table_rows v = Arr rows" and
    el: "\<forall>r \<in> set rows. \<not> nullish r \<and> (\<exists>t qs ch. opt_get r ''_gauge'' = El t qs ch)"
    using caches_gauge_rows [OF assms(3-6)] by blast
  have tie: "\<not> goes_before (row_compare e st) x y" if xy: "x \<in> set rows" "y \<in> set rows" for x y
  proof -
    obtain t qs ch where "opt_get x ''_gauge'' = El t qs ch" using el xy(1) by blast
    moreover obtain u rs dh where "opt_get y ''_gauge'' = El u rs dh" using el xy(2) by blast
    ultimately show ?thesis
      using assms(1,2) by (auto simp: goes_before_def row_compare_def Let_def collates_def)
  qed
  then have "consistent (row_compare e st) (set rows)" by (auto simp: consistent_def)
  from v8_sort.sort_stable_class [OF this, of "\<lambda>_. True"] tie
  have "js_sort (row_compare e st) rows = rows" by (simp add: tied_def)
  moreover have "\<not> list_ex nullish rows" using el by (auto simp: list_ex_iff)
  ultimately show ?thesis using assms(2) by (simp add: sorted_rows_def rows spread_def)
qed

lemma gauge_column_unsortable_witness:
  "\<exists>v. Caches [(''caches'', Obj [(''b'', Obj [(''hitrate'', Num (Fin 9))]), (''a'', Obj [(''hitrate'', Num (Fin 5))])])] = Some v \<and>
    sorted_rows (plain_env\<lparr>locale_compare := (\<lambda>a b. Fin 0)\<rparr>) \<lparr>sortCol = Str ''_gauge'', sortAsc = False\<rparr>
      (cache_table_rows v) = Some (cache_table_rows v)"
proof -
  let ?cs = "[(''b'', Obj [(''hitrate'', Num (Fin 9))]), (''a'', Obj [(''hitrate'', Num (Fin 5))])]"
  obtain v where v: "Caches [(''caches'', Obj ?cs)] = Some v"
    using caches_table [of "[(''caches'', Obj ?cs)]" ?cs] by auto
  have "collates (plain_env\<lparr>locale_compare := (\<lambda>a b. Fin 0)\<rparr>) (\<lambda>_. 0 :: nat)"
    by (simp add: collates_def)
  from gauge_column_unsortable [OF this _ _ _ _ v, of "\<lparr>sortCol = Str ''_gauge'', sortAsc = False\<rparr>" ?cs] v
  show ?thesis by simp
qed

end
