(* ===== verification/App.thy ===== *)
theory App
  imports Tabs Overview JsEngine Memory Listings
begin

text \<open>
  \<open>src/App.jsx\<close>: the page, which distributes the data of the server over eight tabs, and
  \<open>src/server-entry.jsx\<close>, which renders it on the server. A component element is rendered by
  calling its function and rendering what that returns; the page renders when no call of that
  tree throws, no object ends up as a child and every chart has an option that can be shown. The lemmas show that it does so for all data
  of the shape that the endpoint sends and for every state of the tabs and tables.
\<close>

subsection \<open>The page\<close>

definition app_tabs :: "jv \<Rightarrow> jv \<Rightarrow> tab list" where
  "app_tabs data hist =
     (let f = opt_get data in
      [(''Overview'', El ''Overview'' [(''info'', f ''info'')] []),
       (''JS Engine'', El ''JsEngine'' [(''jsStats'', f ''jsStats''), (''history'', hist)] []),
       (''Server'', El ''ServerStats''
          [(''server'', f ''server''), (''locks'', f ''locks''), (''threads'', f ''threads''),
           (''scheduled'', f ''scheduled''), (''history'', hist)] []),
       (''Memory'', El ''Memory''
          [(''memory'', f ''memory''), (''memorySizeClasses'', f ''memorySizeClasses''),
           (''history'', hist)] []),
       (''Caches'', El ''Caches'' [(''caches'', f ''caches'')] []),
       (''Drivers'', El ''Drivers''
          [(''drivers'', f ''drivers''), (''http2'', f ''http2''), (''http3'', f ''http3'')] []),
       (''ADP Cache'', El ''AdpCache'' [(''adpStats'', f ''adpStats'')] []),
       (''Log'', El ''Log'' [(''logTail'', f ''logTail'')] [])])"

definition tab_objects :: "tab list \<Rightarrow> jv" where
  "tab_objects tabs = Arr (map (\<lambda>(l, c). Obj [(''label'', Str l), (''content'', c)]) tabs)"

definition App :: "props \<Rightarrow> jv" where
  "App ps =
     (let data = js_or (lookup ps ''data'') (Obj []);
          hist = js_or (lookup ps ''history'') (Arr [])
      in El ''div'' [cls ''h-screen flex flex-col bg-background overflow-hidden'']
           [El ''header'' [cls ''border-b bg-card px-6 py-4 flex items-center justify-between shrink-0'']
              [El ''div'' []
                 [El ''h1'' [cls ''text-xl font-bold''] [Str ''AOLserver Stats''],
                  El ''p'' [cls ''text-sm text-muted-foreground'']
                    [js_or (opt_get (opt_get data ''info'') ''serverName'') (Str ''server''),
                     Str ('' '' @ middle_dot @ '' Live dashboard'')]],
               El ''div'' [cls ''text-xs text-muted-foreground''] [Str ''Auto-refresh every 5s'']],
            El ''main'' [cls ''flex-1 overflow-y-auto px-6 py-6'']
              [El ''div'' [cls ''max-w-7xl mx-auto'']
                 [El ''Tabs'' [(''tabs'', tab_objects (app_tabs data hist))] []]]])"

text \<open>\<open>renderToString\<close> of React is the parameter \<open>rts\<close>.\<close>

definition server_render :: "(jv \<Rightarrow> string throws) \<Rightarrow> jv \<Rightarrow> string throws" where
  "server_render rts data = rts (El ''App'' [(''data'', data)] [])"

subsection \<open>Calling the components\<close>

text \<open>The state of the page's components: the active tab, and how a table is sorted.\<close>

record ui =
  ui_tab :: nat
  ui_sort :: table_state

text \<open>The properties with which a component is called: those of its element and the children.\<close>

definition jsx_props :: "props \<Rightarrow> jv list \<Rightarrow> props" where
  "jsx_props ps cs =
     (case cs of [] \<Rightarrow> ps | [c] \<Rightarrow> (''children'', c) # ps | _ \<Rightarrow> (''children'', Arr cs) # ps)"

definition tabs_of :: "jv \<Rightarrow> tab list" where
  "tabs_of v = (case v of
       Arr xs \<Rightarrow> map (\<lambda>t. (to_str (opt_get t ''label''), opt_get t ''content'')) xs
     | _ \<Rightarrow> [])"

definition call_component :: "env \<Rightarrow> ui \<Rightarrow> string \<Rightarrow> props \<Rightarrow> jv throws" where
  "call_component e u t ps =
     (if t = ''Card'' then Some (Card ps)
      else if t = ''CardHeader'' then Some (CardHeader ps)
      else if t = ''CardTitle'' then Some (CardTitle ps)
      else if t = ''CardContent'' then Some (CardContent ps)
      else if t = ''StatCard'' then Some (StatCard ps)
      else if t = ''ProgressBar'' then Some (ProgressBar ps)
      else if t = ''RingGauge'' then Some (RingGauge ps)
      else if t = ''EChartsWrapper'' then Some (EChartsWrapper ps)
      else if t = ''DataTable'' then DataTable e apply_closure (ui_sort u) ps
      else if t = ''Overview'' then Overview e ps
      else if t = ''JsEngine'' then JsEngine e ps
      else if t = ''ServerStats'' then ServerStats e ps
      else if t = ''Memory'' then Memory e ps
      else if t = ''Caches'' then Caches ps
      else if t = ''Drivers'' then Drivers ps
      else if t = ''AdpCache'' then AdpCache e ps
      else if t = ''Log'' then Some (Log ps)
      else if t = ''Tabs'' then Some (Tabs (ui_tab u) (tabs_of (lookup ps ''tabs'')))
      else if t = ''App'' then Some (App ps)
      else None)"

text \<open>JSX takes a capitalised tag for a component.\<close>

definition is_component :: "string \<Rightarrow> bool" where
  "is_component t \<longleftrightarrow> t \<noteq> [] \<and> hd t \<in> set ''ABCDEFGHIJKLMNOPQRSTUVWXYZ''"

definition scalar :: "jv \<Rightarrow> bool" where
  "scalar v \<longleftrightarrow> (case v of Undef \<Rightarrow> True | Null \<Rightarrow> True | Bool _ \<Rightarrow> True | Num _ \<Rightarrow> True | Str _ \<Rightarrow> True
     | _ \<Rightarrow> False)"

inductive renders :: "env \<Rightarrow> ui \<Rightarrow> jv \<Rightarrow> bool" for e :: env and u :: ui where
  scalar: "scalar v \<Longrightarrow> renders e u v"
| children: "\<forall>x \<in> set xs. renders e u x \<Longrightarrow> renders e u (Arr xs)"
| host: "\<not> is_component t \<Longrightarrow> \<forall>x \<in> set cs. renders e u x \<Longrightarrow> renders e u (El t ps cs)"
| component: "is_component t \<Longrightarrow> call_component e u t (jsx_props ps cs) = Some v \<Longrightarrow> renders e u v \<Longrightarrow>
    t = ''EChartsWrapper'' \<longrightarrow> chart_ok (lookup ps ''option'') \<Longrightarrow> renders e u (El t ps cs)"

inductive_simps renders_Arr [simp]: "renders e u (Arr xs)"
inductive_simps renders_Obj [simp]: "renders e u (Obj ps)"
inductive_simps renders_El: "renders e u (El t ps cs)"

subsection \<open>Elements that render\<close>

lemma scalar_simps [simp]:
  "scalar Undef" "scalar Null" "scalar (Bool b)" "scalar (Num n)" "scalar (Str s)" "scalar (lit x)"
  "\<not> scalar (Arr xs)" "\<not> scalar (Obj ps)" "\<not> scalar (El t ps cs)" "\<not> scalar (Clo f xs)"
  by (simp_all add: scalar_def lit_def)

lemma scalar_nat_num [simp]: "scalar (nat_num n)"
  by (simp add: nat_num_def)

lemma scalar_or [simp]: "scalar a \<Longrightarrow> scalar b \<Longrightarrow> scalar (js_or a b)"
  and scalar_coalesce [simp]: "scalar a \<Longrightarrow> scalar b \<Longrightarrow> scalar (coalesce a b)"
  and scalar_arith [simp]: "scalar (js_sub a b)" "scalar (js_mul a b)" "scalar (js_div a b)"
  and scalar_add [simp]: "scalar (js_add a b)"
  by (simp_all add: js_or_def coalesce_def js_sub_def js_mul_def js_div_def js_add_def Let_def
      split: jv.splits)

lemma renders_scalar [simp]: "scalar v \<Longrightarrow> renders e u v"
  by (rule renders.scalar)

lemma renders_host [simp]:
  "\<not> is_component t \<Longrightarrow> renders e u (El t ps cs) \<longleftrightarrow> (\<forall>x \<in> set cs. renders e u x)"
  by (simp add: renders_El)

lemma renders_component:
  "is_component t \<Longrightarrow> renders e u (El t ps cs) \<longleftrightarrow>
     (\<exists>v. call_component e u t (jsx_props ps cs) = Some v \<and> renders e u v) \<and>
     (t = ''EChartsWrapper'' \<longrightarrow> chart_ok (lookup ps ''option''))"
  by (auto simp: renders_El)

lemma is_component_simps [simp]:
  "\<not> is_component ''div''" "\<not> is_component ''span''" "\<not> is_component ''p''" "\<not> is_component ''h1''"
  "\<not> is_component ''h3''" "\<not> is_component ''dl''" "\<not> is_component ''dt''" "\<not> is_component ''dd''"
  "\<not> is_component ''ul''" "\<not> is_component ''li''" "\<not> is_component ''pre''" "\<not> is_component ''code''"
  "\<not> is_component ''header''" "\<not> is_component ''main''" "\<not> is_component ''button''"
  "\<not> is_component ''svg''" "\<not> is_component ''circle''" "\<not> is_component ''text''" "\<not> is_component ''rect''"
  "\<not> is_component ''table''" "\<not> is_component ''thead''" "\<not> is_component ''tbody''"
  "\<not> is_component ''tr''" "\<not> is_component ''th''" "\<not> is_component ''td''"
  by (simp_all add: is_component_def)

text \<open>A child property is one child or an array of them.\<close>

lemma lookup_jsx_props:
  "lookup (jsx_props ps cs) k =
     (if k = ''children'' \<and> cs \<noteq> [] then (case cs of [c] \<Rightarrow> c | _ \<Rightarrow> Arr cs) else lookup ps k)"
  by (cases cs rule: list.exhaust [case_product list.exhaust [of "tl cs"]])
     (auto simp: jsx_props_def split: list.splits)

lemma renders_children:
  "lookup ps ''children'' = Undef \<Longrightarrow> \<forall>c \<in> set cs. renders e u c \<Longrightarrow>
     renders e u (lookup (jsx_props ps cs) ''children'')"
  by (auto simp: lookup_jsx_props split: list.splits)

lemma renders_containers [simp]:
  assumes "lookup ps ''children'' = Undef" "\<forall>c \<in> set cs. renders e u c"
  shows "renders e u (El ''Card'' ps cs)" "renders e u (El ''CardHeader'' ps cs)"
    "renders e u (El ''CardTitle'' ps cs)" "renders e u (El ''CardContent'' ps cs)"
  using renders_children [OF assms]
  by (simp_all add: renders_component is_component_def call_component_def
      Card_def CardHeader_def CardTitle_def CardContent_def)

lemma renders_and [simp]: "renders e u a \<Longrightarrow> renders e u b \<Longrightarrow> renders e u (js_and a b)"
  by (simp add: js_and_def)

lemma renders_leaves [simp]:
  "scalar (lookup ps ''label'') \<Longrightarrow> scalar (lookup ps ''value'') \<Longrightarrow> scalar (lookup ps ''sub'') \<Longrightarrow>
     renders e u (El ''StatCard'' ps [])"
  "renders e u (El ''ProgressBar'' ps [])"
  "scalar (lookup ps ''label'') \<Longrightarrow> renders e u (El ''RingGauge'' ps [])"
  "chart_ok (lookup ps ''option'') \<Longrightarrow> renders e u (El ''EChartsWrapper'' ps [])"
  by (simp_all add: renders_component is_component_def call_component_def jsx_props_def
      StatCard_def ProgressBar_def RingGauge_def EChartsWrapper_def Let_def)

subsection \<open>Tables that render\<close>

text \<open>A row of a table: its cells render, and it is coloured without an exception.\<close>

definition good_row :: "env \<Rightarrow> ui \<Rightarrow> jv \<Rightarrow> bool" where
  "good_row e u r \<longleftrightarrow> (\<exists>ps. r = Obj ps \<and> (\<forall>k. renders e u (lookup ps k)))"

lemma renders_coalesce [simp]: "renders e u a \<Longrightarrow> renders e u b \<Longrightarrow> renders e u (coalesce a b)"
  by (simp add: coalesce_def)

lemma header_cells:
  "\<exists>hs. js_map (columns_of cols) (header_cell s) = Some (Arr hs) \<and> (\<forall>h \<in> set hs. renders e u h)"
proof -
  let ?h = "\<lambda>(k, l). El ''th'' [(''key'', Str k),
      cls ''px-4 py-2 text-left font-medium cursor-pointer select-none hover:bg-accent'',
      (''onClick'', Clo ''handleSort'' [Str k])]
      [Str l, Str (if strict_eq (sortCol s) (Str k)
        then (if sortAsc s then '' '' @ arrow_up else '' '' @ arrow_down) else '''')]"
  have "mapM (header_cell s) (map (\<lambda>(k, l). Obj [(''key'', Str k), (''label'', Str l)]) cols) =
      Some (map ?h cols)"
    by (induction cols) (auto simp: header_cell_def)
  then show ?thesis by (auto simp: js_map_def columns_of_def)
qed

lemma data_cells:
  assumes "good_row e u r"
  shows "\<exists>cs. js_map (columns_of cols) (data_cell r) = Some (Arr cs) \<and> (\<forall>c \<in> set cs. renders e u c)"
proof -
  obtain ps where r: "r = Obj ps" and ok: "renders e u (lookup ps k)" for k
    using assms by (auto simp: good_row_def)
  let ?c = "\<lambda>(k, l). El ''td'' [(''key'', Str k), cls ''px-4 py-2''] [coalesce (lookup ps k) (Str em_dash)]"
  have "mapM (data_cell r) (map (\<lambda>(k, l). Obj [(''key'', Str k), (''label'', Str l)]) cols) =
      Some (map ?c cols)"
    by (induction cols) (auto simp: data_cell_def r)
  then show ?thesis using ok by (auto simp: js_map_def columns_of_def)
qed

lemma data_row_renders:
  assumes "good_row e u r" "lookup ps ''columns'' = columns_of cols"
    and "lookup ps ''rowClassName'' = Undef \<or> lookup ps ''rowClassName'' = Clo ''lock_row_class'' []"
  shows "\<exists>t. data_row apply_closure ps i r = Some t \<and> renders e u t"
proof -
  obtain qs where r: "r = Obj qs" using assms(1) by (auto simp: good_row_def)
  obtain cs where "js_map (columns_of cols) (data_cell r) = Some (Arr cs)" "\<forall>c \<in> set cs. renders e u c"
    using data_cells [OF assms(1)] by blast
  with assms(2,3) r show ?thesis
    by (auto simp: data_row_def apply_closure_def lock_row_class_def)
qed

lemma table_renders [simp]:
  assumes rows: "lookup ps ''rows'' = Arr xs" "\<forall>r \<in> set xs. good_row e u r"
    and cols: "lookup ps ''columns'' = columns_of cols"
    and cl: "lookup ps ''rowClassName'' = Undef \<or> lookup ps ''rowClassName'' = Clo ''lock_row_class'' []"
    and empty: "scalar (lookup ps ''emptyText'')"
  shows "renders e u (El ''DataTable'' ps [])"
proof -
  let ?s = "ui_sort u"
  have null: "\<not> list_ex nullish xs" using rows(2) by (auto simp: list_ex_iff good_row_def)
  then obtain ys where sorted: "sorted_rows e ?s (Arr xs) = Some (Arr ys)" "set ys = set xs"
    by (cases "truthy (sortCol ?s)") (auto simp: sorted_rows_def spread_def set_js_sort)
  obtain hs where hs: "js_map (columns_of cols) (header_cell ?s) = Some (Arr hs)" "\<forall>h \<in> set hs. renders e u h"
    using header_cells by blast
  have row: "\<exists>t. data_row apply_closure ps i r = Some t \<and> renders e u t" if "r \<in> set ys" for i r
    using data_row_renders [OF _ cols cl] rows(2) sorted(2) that by blast
  have "\<exists>t. (\<lambda>(i, row). data_row apply_closure ps i row) x = Some t"
    if "x \<in> set (zip [0..<length ys] ys)" for x
    using row [of "snd x" "fst x"] set_zip_rightD [of "fst x" "snd x"] that by (auto simp: split_def)
  then have "\<exists>ts. mapM (\<lambda>(i, row). data_row apply_closure ps i row) (zip [0..<length ys] ys) = Some ts"
    by (rule mapM_total)
  then obtain ts where ts: "mapM (\<lambda>(i, row). data_row apply_closure ps i row) (zip [0..<length ys] ys) = Some ts"
    by blast
  have body: "\<forall>t \<in> set ts. renders e u t"
  proof
    fix t assume "t \<in> set ts"
    from mapM_in_set [OF ts this] obtain i r
      where r: "(i, r) \<in> set (zip [0..<length ys] ys)" "data_row apply_closure ps i r = Some t"
      by auto
    from row [OF set_zip_rightD [OF r(1)], of i] r(2) show "renders e u t" by simp
  qed
  have txt': "scalar (pget ps ''emptyText'' (Str ''No data.''))" using empty by (simp add: pget_def Let_def)
  obtain n where n: "get (columns_of cols) ''length'' = Some n" by (simp add: columns_of_def)
  from sorted(1) hs ts body txt' n rows(1) cols show ?thesis
    by (auto simp: renders_component is_component_def call_component_def jsx_props_def DataTable_def)
qed

subsection \<open>Data that the endpoint sends\<close>

text \<open>An object whose properties are scalars, and lists and tables of such objects.\<close>

definition flat :: "jv \<Rightarrow> bool" where
  "flat v \<longleftrightarrow> (case v of Obj ps \<Rightarrow> list_all (\<lambda>(k, w). scalar w) ps | _ \<Rightarrow> False)"

definition flat_opt :: "jv \<Rightarrow> bool" where
  "flat_opt v \<longleftrightarrow> nullish v \<or> flat v"

definition flat_list :: "jv \<Rightarrow> bool" where
  "flat_list v \<longleftrightarrow> nullish v \<or> (case v of Arr xs \<Rightarrow> list_all flat xs | _ \<Rightarrow> False)"

definition scalar_list :: "jv \<Rightarrow> bool" where
  "scalar_list v \<longleftrightarrow> nullish v \<or> (case v of Arr xs \<Rightarrow> list_all scalar xs | _ \<Rightarrow> False)"

definition flat_table :: "jv \<Rightarrow> bool" where
  "flat_table v \<longleftrightarrow> nullish v \<or> (case v of Obj ps \<Rightarrow> list_all (\<lambda>(k, w). flat w) ps | _ \<Rightarrow> False)"

definition valid_server :: "jv \<Rightarrow> bool" where
  "valid_server v \<longleftrightarrow> nullish v \<or>
     (list_all (\<lambda>k. scalar (opt_get v k)) [''active'', ''queued'', ''waiting'', ''keepalive'', ''connections''] \<and>
      flat_opt (opt_get v ''threads'') \<and> scalar_list (opt_get v ''pools'') \<and> flat_list (opt_get v ''urlstats''))"

definition valid_drivers :: "jv \<Rightarrow> bool" where
  "valid_drivers v \<longleftrightarrow> (case v of Arr xs \<Rightarrow> list_all scalar xs | _ \<Rightarrow> True)"

text \<open>A history is absent or a list of samples.\<close>

definition valid_history :: "jv \<Rightarrow> bool" where
  "valid_history v \<longleftrightarrow> nullish v \<or> (case v of Arr hs \<Rightarrow> list_all (\<lambda>h. \<not> nullish h) hs | _ \<Rightarrow> False)"

definition valid_data :: "jv \<Rightarrow> bool" where
  "valid_data d \<longleftrightarrow> (let f = opt_get d in
     flat_opt (f ''info'') \<and> flat_opt (f ''jsStats'') \<and> flat_list (f ''memorySizeClasses'') \<and>
     valid_server (f ''server'') \<and> flat_list (f ''locks'') \<and> flat_list (f ''threads'') \<and>
     flat_list (f ''scheduled'') \<and> flat_table (f ''caches'') \<and> valid_drivers (f ''drivers'') \<and>
     flat_list (f ''adpStats'') \<and> scalar (f ''logTail''))"

lemma scalar_lookup: "list_all (\<lambda>(k, w). scalar w) ps \<Longrightarrow> scalar (lookup ps k)"
  by (induction ps) auto

lemma scalar_opt_get [simp]: "flat_opt v \<Longrightarrow> scalar (opt_get v k)"
  by (auto simp: flat_opt_def nullish_def flat_def scalar_lookup split: jv.splits)

lemma flat_Obj: "flat v \<Longrightarrow> \<exists>ps. v = Obj ps \<and> (\<forall>k. scalar (lookup ps k))"
  by (auto simp: flat_def scalar_lookup split: jv.splits)

lemma flat_not_nullish: "flat v \<Longrightarrow> \<not> nullish v"
  by (auto simp: flat_def split: jv.splits)

lemma flat_list_cases:
  assumes "flat_list v"
  obtains "nullish v" | xs where "v = Arr xs" "\<forall>x \<in> set xs. flat x"
  using assms by (auto simp: flat_list_def list_all_iff split: jv.splits)

lemma nullish_falsy: "nullish v \<Longrightarrow> \<not> truthy v"
  by (auto simp: nullish_def)

lemma js_map_flat:
  assumes "\<forall>x \<in> set xs. flat x" and "\<And>ps. \<forall>k. scalar (lookup ps k) \<Longrightarrow> \<exists>r. f (Obj ps) = Some r \<and> P r"
  shows "\<exists>rs. js_map (Arr xs) f = Some (Arr rs) \<and> (\<forall>r \<in> set rs. P r)"
proof -
  have ok: "\<exists>r. f x = Some r \<and> P r" if "x \<in> set xs" for x
  proof -
    have "flat x" using assms(1) that by simp
    from flat_Obj [OF this] obtain ps where "x = Obj ps" "\<forall>k. scalar (lookup ps k)" by blast
    with assms(2) [of ps] show ?thesis by simp
  qed
  then have "\<exists>rs. mapM f xs = Some rs" by (intro mapM_total) blast
  then obtain rs where rs: "mapM f xs = Some rs" by blast
  have "P r" if r: "r \<in> set rs" for r
    using mapM_in_set [OF rs r] ok by force
  with rs show ?thesis by (auto simp: js_map_def)
qed

subsection \<open>The sections\<close>

lemma renders_sections:
  "renders e u (El ''Overview'' ps []) \<longleftrightarrow> (\<exists>v. Overview e ps = Some v \<and> renders e u v)"
  "renders e u (El ''JsEngine'' ps []) \<longleftrightarrow> (\<exists>v. JsEngine e ps = Some v \<and> renders e u v)"
  "renders e u (El ''ServerStats'' ps []) \<longleftrightarrow> (\<exists>v. ServerStats e ps = Some v \<and> renders e u v)"
  "renders e u (El ''Memory'' ps []) \<longleftrightarrow> (\<exists>v. Memory e ps = Some v \<and> renders e u v)"
  "renders e u (El ''Caches'' ps []) \<longleftrightarrow> (\<exists>v. Caches ps = Some v \<and> renders e u v)"
  "renders e u (El ''Drivers'' ps []) \<longleftrightarrow> (\<exists>v. Drivers ps = Some v \<and> renders e u v)"
  "renders e u (El ''AdpCache'' ps []) \<longleftrightarrow> (\<exists>v. AdpCache e ps = Some v \<and> renders e u v)"
  "renders e u (El ''Log'' ps []) \<longleftrightarrow> renders e u (Log ps)"
  "renders e u (El ''Tabs'' ps []) \<longleftrightarrow> renders e u (Tabs (ui_tab u) (tabs_of (lookup ps ''tabs'')))"
  "renders e u (El ''App'' ps []) \<longleftrightarrow> renders e u (App ps)"
  by (simp_all add: renders_component is_component_def call_component_def jsx_props_def)

lemma info_line_renders [simp]: "scalar v \<Longrightarrow> renders e u (info_line k v)"
  by (simp add: info_line_def)

lemma overview_renders: "flat_opt v \<Longrightarrow> renders e u (El ''Overview'' [(''info'', v)] [])"
  by (simp add: renders_sections Overview_def Let_def)

lemma samples_map:
  "\<forall>h \<in> set hs. \<not> nullish h \<Longrightarrow>
     \<exists>v. js_map (Arr hs) (\<lambda>h. do { t \<leftarrow> get h k; Some (g t) }) = Some v"
  by (simp add: js_map_get)

lemma request_history_renders:
  assumes "\<forall>h \<in> set hs. \<not> nullish h"
  shows "\<exists>v. request_history_card e (Arr hs) = Some v \<and> renders e u v"
  using js_map_get [OF assms, of "''t''" "\<lambda>t. Str (locale_time e (to_num t))"]
    js_map_get [OF assms, of "''active''" "\<lambda>a. coalesce a (Num (Fin 0))"]
  by (simp add: request_history_card_def chart_ok_simps)

lemma valid_history_cases:
  assumes "valid_history v"
  obtains hs where "js_or v (Arr []) = Arr hs" "\<forall>h \<in> set hs. \<not> nullish h"
proof (cases "nullish v")
  case True
  then show ?thesis using that [of "[]"] by (simp add: js_or_def nullish_falsy)
next
  case False
  with assms obtain hs where "v = Arr hs" "\<forall>h \<in> set hs. \<not> nullish h"
    by (auto simp: valid_history_def list_all_iff split: jv.splits)
  then show ?thesis using that [of hs] by (simp add: js_or_def)
qed

lemma script_cache_renders: "flat_opt v \<Longrightarrow> renders e u (script_cache_card v)"
  by (simp add: script_cache_card_def hit_gauge_def Let_def)

lemma engine_renders:
  assumes "flat_opt v" "valid_history h"
  shows "renders e u (El ''JsEngine'' [(''jsStats'', v), (''history'', h)] [])"
proof -
  obtain hs where hs: "js_or h (Arr []) = Arr hs" "\<forall>h \<in> set hs. \<not> nullish h"
    using valid_history_cases [OF assms(2)] .
  obtain c where c: "(if js_gt (opt_get (Arr hs) ''length'') (lit 1)
      then request_history_card e (Arr hs) else Some (Bool False)) = Some c" "renders e u c"
    using request_history_renders [OF hs(2)] by (cases "js_gt (opt_get (Arr hs) ''length'') (lit 1)") auto
  show ?thesis
    using assms(1) c script_cache_renders [OF assms(1)]
    by (simp add: renders_sections hs(1) JsEngine_def Let_def)
qed

lemma flat_list_or:
  assumes "flat_list v"
  obtains xs where "js_or v (Arr []) = Arr xs" "\<forall>x \<in> set xs. flat x"
  using assms
proof (cases rule: flat_list_cases)
  case 1
  then show ?thesis using that [of "[]"] by (simp add: js_or_def nullish_falsy)
next
  case (2 xs)
  then show ?thesis using that [of xs] by (simp add: js_or_def)
qed

lemma good_row_Obj: "(\<And>k. renders e u (lookup ps k)) \<Longrightarrow> good_row e u (Obj ps)"
  by (simp add: good_row_def)

lemma history_card_renders:
  assumes "\<forall>h \<in> set hs. \<not> nullish h"
  shows "\<exists>v. history_card e title (Arr hs) series = Some v \<and> renders e u v"
proof -
  let ?times = "Arr (map (\<lambda>h. Str (locale_time e (to_num (opt_get h ''t'')))) hs)"
  have line: "\<exists>l. series_option (Arr hs) s = Some l \<and> series_ok ?times l" for s
    using js_map_get [OF assms, of "fst s" "\<lambda>a. coalesce a (Num (Fin 0))"]
    by (cases s) (simp add: series_option_def series_ok_def is_array_def)
  then have "\<exists>ls. mapM (series_option (Arr hs)) series = Some ls" by (intro mapM_total) blast
  then obtain ls where ls: "mapM (series_option (Arr hs)) series = Some ls" by blast
  have "list_all (series_ok ?times) ls"
    unfolding list_all_iff
  proof
    fix l assume "l \<in> set ls"
    from mapM_in_set [OF ls this] obtain s where "series_option (Arr hs) s = Some l" by blast
    with line [of s] show "series_ok ?times l" by simp
  qed
  then have "\<exists>opt. makeTimeseriesOption e (Arr hs) series = Some opt \<and> chart_ok opt"
    using ls js_map_get [OF assms, of "''t''" "\<lambda>t. Str (locale_time e (to_num t))"]
    by (simp add: makeTimeseriesOption_def chart_ok_def categories_def is_array_def coalesce_def)
  then show ?thesis by (auto simp: history_card_def)
qed

lemma pools_card_renders:
  assumes "scalar_list v"
  shows "\<exists>w. pools_card v = Some w \<and> renders e u w"
proof (cases "nullish v")
  case True
  then show ?thesis by (auto simp: pools_card_def nullish_def)
next
  case False
  with assms obtain xs where "v = Arr xs" "\<forall>x \<in> set xs. scalar x"
    by (auto simp: scalar_list_def list_all_iff split: jv.splits)
  then show ?thesis by (auto simp: pools_card_def js_map_def)
qed

lemma if_rows_renders: "\<exists>w. c = Some w \<and> renders e u w \<Longrightarrow> \<exists>w. if_rows xs c = Some w \<and> renders e u w"
  by (simp add: if_rows_def)

lemma table_card_renders:
  "\<forall>c \<in> set title. renders e u c \<Longrightarrow> renders e u (El ''DataTable'' ps []) \<Longrightarrow> renders e u (table_card title ps)"
  by (simp add: table_card_def)

lemma counted_renders: "\<forall>c \<in> set (counted title (Arr xs)). renders e u c"
  by (simp add: counted_def opt_get_def)

lemma url_card_renders:
  assumes "\<forall>x \<in> set xs. flat x"
  shows "\<exists>w. url_card (Arr xs) = Some w \<and> renders e u w"
proof -
  obtain rs where "js_map (Arr xs) url_row = Some (Arr rs)" "\<forall>r \<in> set rs. good_row e u r"
    using js_map_flat [OF assms, of url_row "good_row e u"] by (force simp: url_row_def intro!: good_row_Obj)
  then show ?thesis
    unfolding url_card_def by (intro if_rows_renders) (simp add: table_card_renders)
qed

lemma threads_card_renders:
  assumes "\<forall>x \<in> set xs. flat x"
  shows "\<exists>w. threads_card e (Arr xs) = Some w \<and> renders e u w"
proof -
  obtain rs where "js_map (Arr xs) (thread_row e) = Some (Arr rs)" "\<forall>r \<in> set rs. good_row e u r"
    using js_map_flat [OF assms, of "thread_row e" "good_row e u"] by (force simp: thread_row_def intro!: good_row_Obj)
  then show ?thesis
    unfolding threads_card_def by (intro if_rows_renders) (simp add: table_card_renders counted_renders)
qed

lemma locks_card_renders:
  assumes "\<forall>x \<in> set xs. flat x"
  shows "\<exists>w. locks_card (Arr xs) = Some w \<and> renders e u w"
proof -
  have "\<exists>r. lock_row (Obj ps) = Some r \<and> good_row e u r" if "\<forall>k. scalar (lookup ps k)" for ps
    using that by (auto simp: lock_row_def lock_ratio_def Let_def intro!: good_row_Obj)
  then obtain rs where "js_map (Arr xs) lock_row = Some (Arr rs)" "\<forall>r \<in> set rs. good_row e u r"
    using js_map_flat [OF assms, of lock_row "good_row e u"] by blast
  then show ?thesis
    unfolding locks_card_def by (intro if_rows_renders) (simp add: table_card_renders counted_renders)
qed

lemma sched_card_renders:
  assumes "\<forall>x \<in> set xs. flat x"
  shows "\<exists>w. sched_card e (Arr xs) = Some w \<and> renders e u w"
proof -
  obtain rs where "js_map (Arr xs) (sched_row e) = Some (Arr rs)" "\<forall>r \<in> set rs. good_row e u r"
    using js_map_flat [OF assms, of "sched_row e" "good_row e u"] by (force simp: sched_row_def intro!: good_row_Obj)
  then show ?thesis
    unfolding sched_card_def by (intro if_rows_renders) (simp add: table_card_renders counted_renders)
qed

lemma thread_pool_renders: "flat_opt t \<Longrightarrow> renders e u (thread_pool_card t)"
  by (simp add: thread_pool_card_def pool_counts_def pool_gauge_def utilization_bar_def Let_def)

lemma conn_stats_renders:
  "list_all (\<lambda>k. scalar (opt_get v k)) [''active'', ''queued'', ''waiting'', ''keepalive'', ''connections''] \<Longrightarrow>
     renders e u (conn_stats v) \<and> renders e u (totals_card v)"
  by (simp add: conn_stats_def totals_card_def)

lemma server_renders:
  assumes "valid_server v" "flat_list l" "flat_list t" "flat_list s" "valid_history h"
  shows "renders e u (El ''ServerStats'' [(''server'', v), (''locks'', l), (''threads'', t),
    (''scheduled'', s), (''history'', h)] [])"
proof (cases "truthy v")
  case False
  then show ?thesis by (simp add: renders_sections ServerStats_def)
next
  case True
  then have v: "list_all (\<lambda>k. scalar (opt_get v k)) [''active'', ''queued'', ''waiting'', ''keepalive'', ''connections'']"
      "flat_opt (opt_get v ''threads'')" "scalar_list (opt_get v ''pools'')" "flat_list (opt_get v ''urlstats'')"
    using assms(1) nullish_falsy by (auto simp: valid_server_def)
  obtain hs where hs: "js_or h (Arr []) = Arr hs" "\<forall>h \<in> set hs. \<not> nullish h"
    using valid_history_cases [OF assms(5)] .
  obtain us where us: "js_or (opt_get v ''urlstats'') (Arr []) = Arr us" "\<forall>x \<in> set us. flat x"
    using flat_list_or [OF v(4)] .
  obtain ls where ls: "js_or l (Arr []) = Arr ls" "\<forall>x \<in> set ls. flat x" using flat_list_or [OF assms(2)] .
  obtain ts where ts: "js_or t (Arr []) = Arr ts" "\<forall>x \<in> set ts. flat x" using flat_list_or [OF assms(3)] .
  obtain ss where ss: "js_or s (Arr []) = Arr ss" "\<forall>x \<in> set ss. flat x" using flat_list_or [OF assms(4)] .
  have pool: "flat_opt (js_or (opt_get v ''threads'') (Obj []))"
    using v(2) by (simp add: js_or_def flat_opt_def flat_def)
  obtain p where p: "pools_card (opt_get v ''pools'') = Some p" "renders e u p"
    using pools_card_renders [OF v(3)] by blast
  obtain h1 where h1: "history_card e ''Connection History'' (Arr hs)
      [(''active'', ''Active'', ''#3b82f6''), (''queued'', ''Queued'', ''#f59e0b'')] = Some h1" "renders e u h1"
    using history_card_renders [OF hs(2)] by blast
  obtain h2 where h2: "history_card e ''Thread Pool History'' (Arr hs)
      [(''threads'', ''Current'', ''#3b82f6''), (''threadsMax'', ''Max'', ''#e2e8f0'')] = Some h2" "renders e u h2"
    using history_card_renders [OF hs(2)] by blast
  obtain uc where uc: "url_card (Arr us) = Some uc" "renders e u uc" using url_card_renders [OF us(2)] by blast
  obtain tc where tc: "threads_card e (Arr ts) = Some tc" "renders e u tc" using threads_card_renders [OF ts(2)] by blast
  obtain lc where lc: "locks_card (Arr ls) = Some lc" "renders e u lc" using locks_card_renders [OF ls(2)] by blast
  obtain sc where sc: "sched_card e (Arr ss) = Some sc" "renders e u sc" using sched_card_renders [OF ss(2)] by blast
  have eq: "ServerStats e [(''server'', v), (''locks'', l), (''threads'', t), (''scheduled'', s), (''history'', h)] =
    Some (El ''div'' [cls ''space-y-6'']
      [conn_stats v, thread_pool_card (js_or (opt_get v ''threads'') (Obj [])),
       El ''div'' [cls ''grid grid-cols-1 md:grid-cols-2 gap-4''] [totals_card v, p], h1, h2, uc, tc, lc, sc])"
    using True by (simp add: ServerStats_def Let_def hs(1) us(1) ls(1) ts(1) ss(1)
        p(1) h1(1) h2(1) uc(1) tc(1) lc(1) sc(1))
  show ?thesis
    using conn_stats_renders [OF v(1), of e u] thread_pool_renders [OF pool, of e u]
      p(2) h1(2) h2(2) uc(2) tc(2) lc(2) sc(2)
    by (simp add: renders_sections eq)
qed

lemma mapM_get_flat:
  assumes "\<forall>x \<in> set xs. flat x"
  shows "\<exists>ys. mapM (\<lambda>c. get c k) xs = Some ys"
  by (rule mapM_total) (use assms flat_not_nullish in \<open>auto intro: get_total\<close>)

lemma classes_card_renders:
  assumes "flat_list v"
  shows "\<exists>w. classes_card v = Some w \<and> renders e u w"
  using assms
proof (cases rule: flat_list_cases)
  case 1
  then show ?thesis by (simp add: classes_card_def nullish_falsy)
next
  case (2 xs)
  then have "\<not> list_ex nullish xs" using flat_not_nullish by (auto simp: list_ex_iff)
  then have top: "top_classes xs = Some (take 20 (js_sort by_free_bytes xs))" by (simp add: top_classes_def)
  have "\<forall>x \<in> set (take 20 (js_sort by_free_bytes xs)). flat x"
    using 2(2) by (auto simp: set_js_sort dest: in_set_takeD)
  note get = mapM_get_flat [OF this]
  obtain ss where ss: "mapM (\<lambda>c. get c ''size'') (take 20 (js_sort by_free_bytes xs)) = Some ss" using get by blast
  obtain fs where fs: "mapM (\<lambda>c. get c ''freeBytes'') (take 20 (js_sort by_free_bytes xs)) = Some fs" using get by blast
  have "length ss = length fs" using mapM_length [OF ss] mapM_length [OF fs] by simp
  then have "\<exists>w. classes_chart (Arr xs) = Some w \<and> renders e u w"
    by (simp add: classes_chart_def spread_def top ss fs chart_ok_simps)
  with 2(1) show ?thesis by (auto simp: classes_card_def)
qed

lemma memory_history_renders:
  assumes "valid_history h" "truthy h"
  shows "\<exists>w. memory_history_card e h = Some w \<and> renders e u w"
proof -
  obtain hs where hs: "h = Arr hs" "\<forall>h \<in> set hs. \<not> nullish h"
    using assms nullish_falsy by (auto simp: valid_history_def list_all_iff split: jv.splits)
  have "\<exists>ys. mapM (\<lambda>c. get c ''memAlloc'') hs = Some ys"
    by (rule mapM_total) (use hs(2) in \<open>auto intro: get_total\<close>)
  then obtain ys where ys: "mapM (\<lambda>c. get c ''memAlloc'') hs = Some ys" by blast
  have "js_map (Arr hs) (\<lambda>h. get h ''memAlloc'') = Some (Arr ys)" using ys by (simp add: js_map_def)
  then show ?thesis
    using js_map_get [OF hs(2), of "''t''" "\<lambda>t. Str (locale_time e (to_num t))"] mapM_length [OF ys]
    by (simp add: memory_history_card_def hs(1) chart_ok_simps)
qed

lemma heap_card_renders: "renders e u (heap_card a b c d)"
  by (simp add: heap_card_def bytes_bar_def Let_def)

lemma caches_card_renders: "renders e u (caches_card es)"
  by (simp add: caches_card_def split_def)

lemma memory_renders:
  assumes "flat_list c" "valid_history h"
  shows "renders e u (El ''Memory'' [(''memory'', m), (''memorySizeClasses'', c), (''history'', h)] [])"
proof -
  obtain cc where cc: "classes_card c = Some cc" "renders e u cc"
    using classes_card_renders [OF assms(1)] by blast
  have "\<not> truthy h \<Longrightarrow> scalar h"
    using assms(2) by (auto simp: valid_history_def split: jv.splits)
  then have "\<exists>w. (if truthy h then if js_gt (opt_get h ''length'') (lit 1) then memory_history_card e h
      else Some (Bool False) else Some h) = Some w \<and> renders e u w"
    using memory_history_renders [OF assms(2)] by simp
  then obtain w where w: "(if truthy h then if js_gt (opt_get h ''length'') (lit 1) then memory_history_card e h
      else Some (Bool False) else Some h) = Some w" "renders e u w" by blast
  show ?thesis
    using cc(2) w(2) heap_card_renders caches_card_renders
    unfolding renders_sections Memory_def Let_def lookup_Cons
    by (simp only: lookup_Cons list.inject char.inject if_False if_True w(1) cc(1) bind.bind_lunit simp_thms refl)
       (simp add: w(1) cc(1) unavailable_note_def)
qed

lemma caches_renders:
  assumes "flat_table v"
  shows "renders e u (El ''Caches'' [(''caches'', v)] [])"
proof (cases "cache_entries v = []")
  case True
  then show ?thesis by (simp add: renders_sections Caches_def)
next
  case False
  then obtain cs where v: "v = Obj cs" "\<forall>(n, s) \<in> set cs. flat s"
    using assms by (auto simp: flat_table_def cache_entries_def list_all_iff nullish_falsy split: jv.splits)
  have row: "\<exists>r. cache_row c = Some r \<and> (\<forall>k. scalar (lookup r k))" if "c \<in> set cs" for c
  proof -
    obtain n s where c: "c = (n, s)" by (cases c)
    with v(2) that have "flat s" by auto
    from flat_Obj [OF this] c show ?thesis by (auto simp: cache_row_def)
  qed
  then have "\<exists>rs. mapM cache_row cs = Some rs" by (intro mapM_total) blast
  then obtain rs where rs: "mapM cache_row cs = Some rs" by blast
  have "good_row e u (Obj (r @ [(''_gauge'', cache_gauge r)]))" if "r \<in> set rs" for r
  proof -
    have "\<forall>k. scalar (lookup r k)" using mapM_in_set [OF rs that] row by force
    moreover have "lookup (r @ [(k', w)]) k \<in> {lookup r k, w, Undef}" for k k' w
      by (simp add: lookup_def map_add_def split: option.splits)
    moreover have "renders e u (cache_gauge r)" using calculation(1) by (simp add: cache_gauge_def)
    ultimately show ?thesis
      by (intro good_row_Obj) (metis insert_iff empty_iff renders_scalar scalar_simps(1))
  qed
  then show ?thesis
    using False v(1) rs
    by (auto simp: renders_sections Caches_def cache_entries_def obj_entries_def is_array_def)
qed

lemma entry_list_renders [simp]: "renders e u (entry_list v)"
  by (auto simp: entry_list_def)

lemma drivers_renders:
  assumes "valid_drivers d"
  shows "renders e u (El ''Drivers'' [(''drivers'', d), (''http2'', h2), (''http3'', h3)] [])"
proof -
  have "renders e u (drivers_card d)"
    using assms by (auto simp: drivers_card_def valid_drivers_def list_all_iff driver_list_card_def
        driver_info_card_def split: jv.splits)
  then show ?thesis by (simp add: renders_sections Drivers_def Let_def no_drivers_def http_card_def)
qed

lemma adp_renders:
  assumes "flat_list v"
  shows "renders e u (El ''AdpCache'' [(''adpStats'', v)] [])"
proof -
  obtain xs where xs: "js_or v (Arr []) = Arr xs" "\<forall>x \<in> set xs. flat x" using flat_list_or [OF assms] .
  obtain rs where "js_map (Arr xs) (adp_row e) = Some (Arr rs)" "\<forall>r \<in> set rs. good_row e u r"
    using js_map_flat [OF xs(2), of "adp_row e" "good_row e u"] by (force simp: adp_row_def intro!: good_row_Obj)
  then show ?thesis by (simp add: renders_sections AdpCache_def xs(1) Let_def opt_get_def)
qed

lemma log_renders: "scalar v \<Longrightarrow> renders e u (El ''Log'' [(''logTail'', v)] [])"
  by (simp add: renders_sections Log_def)

subsection \<open>The whole page\<close>

lemma tabs_of_objects [simp]: "tabs_of (tab_objects tabs) = tabs"
  by (induction tabs) (auto simp: tabs_of_def tab_objects_def)

lemma tabs_render:
  assumes "\<forall>(l, c) \<in> set tabs. renders e u c"
  shows "renders e u (Tabs n tabs)"
proof -
  have "renders e u (snd (tabs ! n))" if "n < length tabs"
    using assms nth_mem [OF that] by (auto simp: split_beta)
  then show ?thesis by (simp add: Tabs_def split_def)
qed

lemma app_tabs_render:
  assumes "valid_data d" "valid_history h"
  shows "\<forall>(l, c) \<in> set (app_tabs d h). renders e u c"
  using assms
  by (auto simp: app_tabs_def valid_data_def Let_def overview_renders engine_renders server_renders
      memory_renders caches_renders drivers_renders adp_renders log_renders)

lemma valid_data_falsy: "valid_data d \<Longrightarrow> valid_data (js_or d (Obj []))"
  by (simp add: js_or_def valid_data_def Let_def flat_opt_def flat_list_def valid_server_def
      flat_table_def valid_drivers_def)

lemma valid_history_or: "valid_history h \<Longrightarrow> valid_history (js_or h (Arr []))"
  by (simp add: js_or_def valid_history_def)

lemma app_element_renders:
  assumes "valid_data (lookup ps ''data'')" "valid_history (lookup ps ''history'')"
  shows "renders e u (El ''App'' ps [])"
proof -
  let ?d = "js_or (lookup ps ''data'') (Obj [])" and ?h = "js_or (lookup ps ''history'') (Arr [])"
  have ok: "valid_data ?d" "valid_history ?h"
    using assms valid_data_falsy valid_history_or by blast+
  then have "flat_opt (opt_get ?d ''info'')" by (simp add: valid_data_def Let_def)
  then have "scalar (opt_get (opt_get ?d ''info'') ''serverName'')" by simp
  moreover have "renders e u (El ''Tabs'' [(''tabs'', tab_objects (app_tabs ?d ?h))] [])"
    using tabs_render [OF app_tabs_render [OF ok]] by (simp add: renders_sections)
  ultimately show ?thesis by (simp add: renders_sections App_def Let_def)
qed



text \<open>
  Server-side rendering returns: if \<open>renderToString\<close> returns for every element whose
  components return, the server renders the page for all data of the endpoint's shape.
\<close>

theorem server_render_returns:
  assumes "\<forall>v. renders e \<lparr>ui_tab = 0, ui_sort = table_init\<rparr> v \<longrightarrow> (\<exists>s. rts v = Some s)"
    and "valid_data d"
  shows "\<exists>s. server_render rts d = Some s"
proof -
  have "renders e \<lparr>ui_tab = 0, ui_sort = table_init\<rparr> (El ''App'' [(''data'', d)] [])"
    by (rule app_element_renders) (use assms(2) in \<open>simp_all add: valid_history_def\<close>)
  with assms(1) show ?thesis by (simp add: server_render_def)
qed

lemma server_render_returns_witness:
  "\<exists>s. server_render (\<lambda>v. case v of El t _ _ \<Rightarrow> Some (''<div>'' @ t @ ''</div>'') | _ \<Rightarrow> Some '''')
     (Obj [(''logTail'', Str ''x'')]) = Some s"
  by (rule server_render_returns [of plain_env])
     (simp_all add: valid_data_def flat_opt_def flat_list_def flat_table_def valid_server_def
       valid_drivers_def split: jv.splits)

text \<open>
  The tabs of the page can be linked to: the eight labels have distinct hashes, and
  each survives the address bar unchanged.
\<close>

theorem app_tabs_linkable: "linkable (app_tabs d h)"
  by (simp add: app_tabs_def Let_def linkable_def labelToHash_def lower_char_def is_space_def plain_hash_def
      fragment_escaped_def)

end
