(* ===== verification/Client.thy ===== *)
theory Client
  imports App
begin

text \<open>
  \<open>src/client-entry.jsx\<close>: the polling client. Every five seconds a poll is started; it awaits
  the response, then its body, then appends a sample to the history of the last sixty and
  renders the page. Polls overlap when the server is slow, so their steps interleave: the
  step relation has one rule for each point at which a poll resumes. The history refines the
  list of all completed samples.
\<close>

subsection \<open>Polls\<close>

datatype stage = Fetching | Reading

record client =
  currentHistory :: "jv list"
  page :: jv
  pending :: "(nat \<times> stage) list"
  next_poll :: nat

text \<open>\<open>a ?? 0\<close> of a path of optional members.\<close>

definition member_or_0 :: "jv \<Rightarrow> string list \<Rightarrow> jv" where
  "member_or_0 v path = coalesce (foldl opt_get v path) (lit 0)"

text \<open>Reading a member of a body that is null throws; the exception ends the poll.\<close>

definition poll_sample :: "rat \<Rightarrow> jv \<Rightarrow> jv throws" where
  "poll_sample now data = do {
     server \<leftarrow> get data ''server'';
     memory \<leftarrow> get data ''memory'';
     Some (Obj
       [(''t'', Num (Fin now)),
        (''active'', member_or_0 server [''active'']),
        (''queued'', member_or_0 server [''queued'']),
        (''threads'', member_or_0 server [''threads'', ''current'']),
        (''threadsMax'', member_or_0 server [''threads'', ''max'']),
        (''memAlloc'', member_or_0 memory [''generic.current_allocated_bytes''])])
   }"

definition renderWithData :: "jv \<Rightarrow> jv list \<Rightarrow> jv" where
  "renderWithData data hist = El ''App'' [(''data'', data), (''history'', Arr hist)] []"

definition client_init :: "jv \<Rightarrow> client" where
  "client_init stats_data =
     \<lparr>currentHistory = [], page = renderWithData (js_or stats_data (Obj [])) [],
      pending = [], next_poll = 0\<rparr>"

definition finished :: "nat \<Rightarrow> client \<Rightarrow> client" where
  "finished n c = c\<lparr>pending := filter (\<lambda>(m, _). m \<noteq> n) (pending c)\<rparr>"

definition completed :: "jv \<Rightarrow> jv \<Rightarrow> client \<Rightarrow> client" where
  "completed h data c =
     (let hist = last_n 60 (currentHistory c @ [h])
      in c\<lparr>currentHistory := hist, page := renderWithData data hist\<rparr>)"

datatype client_event =
    Interval             \<comment> \<open>the timer starts a poll\<close>
  | FetchFails nat
  | Response nat bool    \<comment> \<open>the headers are there; is the status in the 200s?\<close>
  | BadBody nat
  | Body nat rat jv      \<comment> \<open>the body is parsed, at the given time\<close>

inductive client_step :: "client \<Rightarrow> client_event \<Rightarrow> client \<Rightarrow> bool" where
  interval: "client_step c Interval
     (c\<lparr>pending := pending c @ [(next_poll c, Fetching)], next_poll := Suc (next_poll c)\<rparr>)"
| fetch_fails: "(n, Fetching) \<in> set (pending c) \<Longrightarrow> client_step c (FetchFails n) (finished n c)"
| not_ok: "(n, Fetching) \<in> set (pending c) \<Longrightarrow> client_step c (Response n False) (finished n c)"
| ok: "(n, Fetching) \<in> set (pending c) \<Longrightarrow>
     client_step c (Response n True)
       (c\<lparr>pending := map (\<lambda>(m, s). (m, if m = n then Reading else s)) (pending c)\<rparr>)"
| bad_body: "(n, Reading) \<in> set (pending c) \<Longrightarrow> client_step c (BadBody n) (finished n c)"
| body_throws: "(n, Reading) \<in> set (pending c) \<Longrightarrow> poll_sample t data = None \<Longrightarrow>
     client_step c (Body n t data) (finished n c)"
| body: "(n, Reading) \<in> set (pending c) \<Longrightarrow> poll_sample t data = Some h \<Longrightarrow>
     client_step c (Body n t data) (finished n (completed h data c))"

code_pred client_step .

inductive_cases client_stepE: "client_step c e c'"

text \<open>A run: a sequence of events and the state that it leads to.\<close>

inductive client_run :: "jv \<Rightarrow> client_event list \<Rightarrow> client \<Rightarrow> bool" for d :: jv where
  start: "client_run d [] (client_init d)"
| step: "client_run d es c \<Longrightarrow> client_step c e c' \<Longrightarrow> client_run d (es @ [e]) c'"

subsection \<open>The abstract history\<close>

text \<open>All samples of a run, and the page that the last of them makes.\<close>

definition sample_of :: "client_event \<Rightarrow> (jv \<times> jv) option" where
  "sample_of e = (case e of
       Body n t data \<Rightarrow> map_option (\<lambda>h. (h, data)) (poll_sample t data)
     | _ \<Rightarrow> None)"

definition samples :: "client_event list \<Rightarrow> (jv \<times> jv) list" where
  "samples es = List.map_filter sample_of es"

definition shown_data :: "jv \<Rightarrow> (jv \<times> jv) list \<Rightarrow> jv" where
  "shown_data d ss = (if ss = [] then js_or d (Obj []) else snd (last ss))"

lemma samples_snoc:
  "samples (es @ [e]) = samples es @ (case sample_of e of None \<Rightarrow> [] | Some s \<Rightarrow> [s])"
  by (simp add: samples_def map_filter_def split: option.splits)

text \<open>The refinement: the client keeps the end of the abstract history.\<close>

definition client_abs :: "jv \<Rightarrow> (jv \<times> jv) list \<Rightarrow> client \<Rightarrow> bool" where
  "client_abs d ss c \<longleftrightarrow>
     currentHistory c = last_n 60 (map fst ss) \<and>
     page c = renderWithData (shown_data d ss) (currentHistory c)"

lemma client_abs_init: "client_abs d [] (client_init d)"
  by (simp add: client_abs_def client_init_def shown_data_def)

lemma finished_simps [simp]:
  "currentHistory (finished n c) = currentHistory c" "page (finished n c) = page c"
  by (simp_all add: finished_def)

lemma client_abs_step:
  assumes "client_abs d ss c" "client_step c e c'"
  shows "client_abs d (ss @ (case sample_of e of None \<Rightarrow> [] | Some s \<Rightarrow> [s])) c'"
  using assms(2)
proof (cases rule: client_step.cases)
  case (body n t data h)
  with assms(1) show ?thesis
    by (simp add: client_abs_def completed_def sample_of_def shown_data_def Let_def last_n_append_last_n)
qed (use assms(1) in \<open>simp_all add: client_abs_def sample_of_def\<close>)

lemma client_abs_run: "client_run d es c \<Longrightarrow> client_abs d (samples es) c"
proof (induction rule: client_run.induct)
  case start
  show ?case using client_abs_init by (simp add: samples_def map_filter_def)
next
  case (step es c e c')
  then show ?case by (simp add: samples_snoc client_abs_step)
qed

subsection \<open>Properties\<close>

text \<open>
  Claim C6. The history of the client is a sliding window: however polls overlap, fail or
  return out of order, it holds exactly the last sixty of the samples taken so far, in the
  order in which the polls completed, and the page shows it with the data of the last one.
\<close>

theorem history_is_window:
  assumes "client_run d es c"
  shows "currentHistory c = last_n 60 (map fst (samples es)) \<and> length (currentHistory c) \<le> 60 \<and>
    page c = renderWithData (shown_data d (samples es)) (currentHistory c)"
  using client_abs_run [OF assms] by (simp add: client_abs_def)

lemma overlapping_run:
  "client_run Null [Interval, Interval, Response 1 True, FetchFails 0, Body 1 7 (Obj [])]
     (finished 1 (completed (the (poll_sample 7 (Obj []))) (Obj [])
        (\<lparr>currentHistory = [], page = renderWithData (Obj []) [], pending = [(1, Reading)], next_poll = 2\<rparr>)))"
proof -
  let ?c = "\<lambda>ps n. \<lparr>currentHistory = [], page = renderWithData (Obj []) [], pending = ps, next_poll = n\<rparr>"
  have 0: "client_run Null [] (?c [] 0)"
    using client_run.start [of Null] by (simp add: client_init_def js_or_def)
  have 1: "client_run Null ([] @ [Interval]) (?c [(0, Fetching)] 1)"
    by (rule client_run.step [OF 0]) (use client_step.interval [of "?c [] 0"] in simp)
  have 2: "client_run Null (([] @ [Interval]) @ [Interval]) (?c [(0, Fetching), (1, Fetching)] 2)"
    by (rule client_run.step [OF 1]) (use client_step.interval [of "?c [(0, Fetching)] 1"] in \<open>simp add: numeral_2_eq_2\<close>)
  have 3: "client_run Null ((([] @ [Interval]) @ [Interval]) @ [Response 1 True]) (?c [(0, Fetching), (1, Reading)] 2)"
    by (rule client_run.step [OF 2]) (use client_step.ok [of 1 "?c [(0, Fetching), (1, Fetching)] 2"] in simp)
  have 4: "client_run Null (((([] @ [Interval]) @ [Interval]) @ [Response 1 True]) @ [FetchFails 0]) (?c [(1, Reading)] 2)"
    by (rule client_run.step [OF 3])
       (use client_step.fetch_fails [of 0 "?c [(0, Fetching), (1, Reading)] 2"] in \<open>simp add: finished_def\<close>)
  have 5: "client_step (?c [(1, Reading)] 2) (Body 1 7 (Obj []))
      (finished 1 (completed (the (poll_sample 7 (Obj []))) (Obj []) (?c [(1, Reading)] 2)))"
    by (rule client_step.body) (simp_all add: poll_sample_def)
  from client_run.step [OF 4 5] show ?thesis by simp
qed

lemma history_is_window_witness:
  "\<exists>c. client_run Null [Interval, Interval, Response 1 True, FetchFails 0, Body 1 7 (Obj [])] c \<and>
     currentHistory c = last_n 60 (map fst (samples
       [Interval, Interval, Response 1 True, FetchFails 0, Body 1 7 (Obj [])]))"
  using overlapping_run history_is_window [OF overlapping_run] by blast

text \<open>The times at which bodies arrive, by the clock of the browser.\<close>

definition body_times :: "client_event list \<Rightarrow> rat list" where
  "body_times es = List.map_filter (\<lambda>e. case e of Body n t data \<Rightarrow> Some t | _ \<Rightarrow> None) es"

definition sample_time :: "jv \<Rightarrow> rat" where
  "sample_time h = (case opt_get h ''t'' of Num (Fin t) \<Rightarrow> t | _ \<Rightarrow> 0)"

lemma poll_sample_time: "poll_sample t data = Some h \<Longrightarrow> sample_time h = t"
  by (auto simp: poll_sample_def sample_time_def bind_eq_Some_conv)

lemma sample_times_sorted:
  "sorted (body_times es) \<Longrightarrow>
     sorted (map (\<lambda>s. sample_time (fst s)) (samples es)) \<and>
     (\<forall>s \<in> set (samples es). sample_time (fst s) \<in> set (body_times es))"
proof (induction es rule: rev_induct)
  case Nil
  then show ?case by (simp add: samples_def map_filter_def)
next
  case (snoc e es)
  have bt: "body_times (es @ [e]) = body_times es @ (case e of Body n t data \<Rightarrow> [t] | _ \<Rightarrow> [])"
    by (simp add: body_times_def map_filter_def split: client_event.splits)
  with snoc have IH: "sorted (map (\<lambda>s. sample_time (fst s)) (samples es))"
      "\<forall>s \<in> set (samples es). sample_time (fst s) \<in> set (body_times es)"
    by (auto simp: sorted_append)
  show ?case
  proof (cases e)
    case (Body n t data)
    with snoc.prems bt IH show ?thesis
      by (auto simp: samples_snoc sample_of_def sorted_append poll_sample_time split: option.splits)
  qed (use IH bt in \<open>simp_all add: samples_snoc sample_of_def\<close>)
qed

text \<open>
  The charts' time axis never goes back: with a clock that does not, the samples of
  the history are in the order of their times, even when polls complete out of order.
\<close>

theorem history_in_time_order:
  assumes "client_run d es c" "sorted (body_times es)"
  shows "sorted (map sample_time (currentHistory c))"
proof -
  have "sorted (map sample_time (map fst (samples es)))"
    using sample_times_sorted [OF assms(2)] by (simp add: comp_def)
  then have "sorted (map sample_time (last_n 60 (map fst (samples es))))"
    by (simp only: sorted_map sorted_wrt_last_n)
  then show ?thesis using client_abs_run [OF assms(1)] by (simp add: client_abs_def)
qed

lemma history_in_time_order_witness:
  "\<exists>c. client_run Null [Interval, Interval, Response 1 True, FetchFails 0, Body 1 7 (Obj [])] c \<and>
     sorted (map sample_time (currentHistory c))"
  using overlapping_run history_in_time_order [OF overlapping_run]
  by (auto simp: body_times_def map_filter_def)

lemma poll_sample_not_nullish: "poll_sample t data = Some h \<Longrightarrow> \<not> nullish h"
  by (auto simp: poll_sample_def bind_eq_Some_conv)

lemma samples_good:
  "\<forall>(h, data) \<in> set (samples es). \<not> nullish h \<and> (\<exists>n t. Body n t data \<in> set es)"
  by (auto simp: samples_def map_filter_def sample_of_def poll_sample_not_nullish split: client_event.splits) blast+

text \<open>
  The polling page never crashes: if the initial data and every body have the shape
  of the endpoint's data, then after every run the page renders, whichever tab is open and
  however the tables are sorted.
\<close>

theorem polled_page_renders:
  assumes "client_run d es c" "valid_data d" "\<forall>n t data. Body n t data \<in> set es \<longrightarrow> valid_data data"
  shows "renders e u (page c)"
proof -
  have abs: "client_abs d (samples es) c" by (rule client_abs_run) fact
  have "valid_data (shown_data d (samples es))"
  proof (cases "samples es = []")
    case True
    with assms(2) show ?thesis by (simp add: shown_data_def valid_data_falsy)
  next
    case False
    then have "last (samples es) \<in> set (samples es)" by simp
    with samples_good assms(3) False show ?thesis by (fastforce simp: shown_data_def)
  qed
  moreover have "\<forall>h \<in> set (currentHistory c). \<not> nullish h"
    using abs samples_good set_last_n [of 60 "map fst (samples es)"] by (fastforce simp: client_abs_def)
  ultimately show ?thesis using abs
    by (auto simp: client_abs_def renderWithData_def valid_history_def list_all_iff intro!: app_element_renders)
qed

lemma polled_page_renders_witness:
  "\<exists>c. client_run Null [Interval, Interval, Response 1 True, FetchFails 0, Body 1 7 (Obj [])] c \<and>
     renders plain_env \<lparr>ui_tab = 2, ui_sort = table_init\<rparr> (page c)"
proof -
  have "valid_data (Obj [])" "valid_data Null"
    by (simp_all add: valid_data_def flat_opt_def flat_list_def flat_table_def valid_server_def valid_drivers_def)
  with polled_page_renders [OF overlapping_run] overlapping_run show ?thesis by auto
qed

subsection \<open>Polls end\<close>













text \<open>
  A poll contributes at most one sample, and none while it is under way: however the
  polls interleave, the samples and the polls under way together are at most as many as the
  ticks of the timer.
\<close>

theorem one_sample_per_poll:
  assumes "client_run d es c"
  shows "length (samples es) + length (pending c) \<le> length (filter (\<lambda>e. e = Interval) es)"
  using assms
proof (induction rule: client_run.induct)
  case start
  show ?case by (simp add: samples_def map_filter_def client_init_def)
next
  case (step es c e c')
  have shrink: "length (filter (\<lambda>(m, _). m \<noteq> n) ps) < length ps" if "(n, s) \<in> set ps" for n s and ps :: "(nat \<times> stage) list"
    using length_filter_less [OF that, of "\<lambda>(m, _). m \<noteq> n"] by simp
  from step.hyps(2) step.IH show ?case
    by (cases rule: client_step.cases)
       (auto simp: samples_snoc sample_of_def finished_def completed_def Let_def dest!: shrink)
qed

lemma one_sample_per_poll_witness:
  "length (samples [Interval, Interval, Response 1 True, FetchFails 0, Body 1 7 (Obj [])]) \<le> 2"
  using one_sample_per_poll [OF overlapping_run] by simp

end
