(* ===== verification/NumberText.thy ===== *)
theory NumberText
  imports JsValue
begin

text \<open>
  The text of a Number determines it: \<open>Number::toString\<close> writes the shortest decimal that
  rounds to the value, seventeen digits are always enough, and each of its four layouts is a
  decimal literal of that value.
\<close>

subsection \<open>A value near a representable one rounds to it\<close>

lemma round_half_even_near: "\<bar>z - of_int m\<bar> < 1/2 \<Longrightarrow> round_half_even z = m"
proof -
  assume "\<bar>z - of_int m\<bar> < 1/2"
  with round_half_even_error [of z] have "\<bar>of_int (round_half_even z) - (of_int m :: rat)\<bar> < 1"
    by linarith
  then have "\<bar>of_int (round_half_even z - m) :: rat\<bar> < of_int 1" by simp
  then have "\<bar>round_half_even z - m\<bar> < 1" by (simp only: of_int_abs [symmetric] of_int_less_iff)
  then show ?thesis by simp
qed

lemma rnd_pos_near_grid:
  assumes "x = of_int m * 2 powi (quantum_exp y)" "\<bar>y - x\<bar> < 2 powi (quantum_exp y) / 2"
  shows "rnd_pos y = x"
proof -
  let ?q = "2 powi (quantum_exp y) :: rat"
  have q: "0 < ?q" by simp
  have "y / ?q - of_int m = (y - x) / ?q" using q by (simp add: assms(1) diff_divide_distrib)
  then have "\<bar>y / ?q - of_int m\<bar> = \<bar>y - x\<bar> / ?q" by simp
  also have "\<dots> < 1/2" using assms(2) q by (simp add: divide_less_eq)
  finally show ?thesis by (simp add: rnd_pos_def Let_def round_half_even_near assms(1))
qed

lemma representable_quantum:
  assumes "0 < x" "representable x"
  obtains m where "x = of_int m * 2 powi (quantum_exp x)"
  using rnd_pos_representable [OF assms] by (metis rnd_pos_def)

lemma powi_grid: "e \<le> k \<Longrightarrow> (2 :: rat) powi k = of_int (2 ^ nat (k - e)) * 2 powi e"
  using powi_add2 [of "k - e" e] by (simp add: powi_nonneg_int)

lemma grid_gap:
  assumes "(of_int a :: rat) * 2 powi e < of_int b * 2 powi e"
  shows "of_int a * 2 powi e + 2 powi e \<le> (of_int b :: rat) * 2 powi e"
proof -
  have "a < b" using assms by simp
  then have "(of_int (a + 1) :: rat) \<le> of_int b" by (simp only: of_int_le_iff)
  then have "of_int (a + 1) * 2 powi e \<le> (of_int b :: rat) * 2 powi e" by (rule mult_right_mono) simp
  then show ?thesis by (simp add: algebra_simps)
qed

lemma rnd_near:
  assumes x: "0 < x" "representable x" and near: "\<bar>y - x\<bar> < x * 2 powi (- 54)"
  shows "rnd y = x"
proof -
  let ?k = "ilog2 x" and ?e = "quantum_exp x" and ?f = "quantum_exp y"
  have "x * 2 powi (- 54) \<le> x * 2 powi (- 1)" using x by (intro mult_left_mono powi_mono2) simp_all
  also have "\<dots> = x / 2" by (simp add: power_int_minus)
  finally have half: "x / 2 < y" using near by linarith
  then have y: "0 < y" using x by simp
  obtain m where m: "x = of_int m * 2 powi ?e" using representable_quantum [OF x] .
  have kb: "2 powi ?k \<le> x" "x < 2 powi (?k + 1)" using ilog2_bounds [OF x(1)] .
  have lb: "2 powi (ilog2 y) \<le> y" "y < 2 powi (ilog2 y + 1)" using ilog2_bounds [OF y] .
  have "2 powi (?k + 1) \<le> (2 powi (?e + 53) :: rat)" by (rule powi_mono2) (simp add: quantum_exp_def)
  with kb(2) have "x * 2 powi (- 54) < 2 powi (?e + 53) * 2 powi (- 54)" by (intro mult_strict_right_mono) simp_all
  also have "\<dots> = (2 powi (?e + 53 - 54) :: rat)" by (subst powi_add2 [symmetric]) simp
  also have "\<dots> = 2 powi ?e / 2" using powi_add2 [of ?e "- 1"] by (simp add: power_int_minus)
  finally have gap: "\<bar>y - x\<bar> < 2 powi ?e / 2" using near by linarith
  have rnd: "rnd y = rnd_pos y" using y by (simp add: rnd_def)
  consider "?f = ?e" | "?e < ?f" | "?f < ?e" by linarith
  then show ?thesis
  proof cases
    case 1
    with m gap rnd_pos_near_grid [of x m y] show ?thesis unfolding rnd by simp
  next
    case 2
    then have ky: "?k + 1 \<le> ilog2 y" by (auto simp: quantum_exp_def)
    have ek: "?e \<le> ?k + 1"
    proof (rule ccontr)
      assume "\<not> ?e \<le> ?k + 1"
      then have "(2 :: rat) powi (?k + 1) \<le> 2 powi ?e" by (intro powi_mono2) simp
      moreover have "2 powi ?e \<le> x" using grid_gap [of 0 ?e m] m x(1) by simp
      ultimately show False using kb(2) by simp
    qed
    have "2 powi (?k + 1) \<le> y" using powi_mono2 [OF ky] lb(1) by linarith
    moreover have "x + 2 powi ?e \<le> 2 powi (?k + 1)"
      using kb(2) grid_gap [of m ?e "2 ^ nat (?k + 1 - ?e)"] m powi_grid [OF ek] by simp
    moreover have "(0 :: rat) < 2 powi ?e" by simp
    ultimately have False using gap by linarith
    then show ?thesis ..
  next
    case 3
    then have e: "?e = ?k - 52" and ly: "ilog2 y < ?k" by (auto simp: quantum_exp_def)
    have ek: "?e \<le> ?k" using e by simp
    have y_lt: "y < 2 powi ?k" using powi_mono2 [of "ilog2 y + 1" ?k] ly lb(2) by linarith
    have "\<not> 2 powi ?k < x"
    proof
      assume "2 powi ?k < x"
      then have "2 powi ?k + 2 powi ?e \<le> x"
        using grid_gap [of "2 ^ nat (?k - ?e)" ?e m] m powi_grid [OF ek] by simp
      moreover have "(0 :: rat) < 2 powi ?e" by simp
      ultimately show False using gap y_lt by linarith
    qed
    with kb(1) have xk: "x = 2 powi ?k" by simp
    have "2 powi (?k - 1) < y"
      using half powi_add2 [of ?k "- 1"] by (simp add: power_int_minus flip: xk)
    then have "\<not> ilog2 y + 1 \<le> ?k - 1" using powi_mono2 [of "ilog2 y + 1" "?k - 1"] lb(2) by linarith
    with ly have "ilog2 y = ?k - 1" by simp
    then have f: "?f = ?k - 53" using 3 e by (simp add: quantum_exp_def)
    have "x = of_int (2 ^ 53) * 2 powi ?f" using powi_grid [of ?f ?k] f by (simp flip: xk)
    moreover have "x * 2 powi (- 54) = 2 powi ?f / 2"
      using powi_add2 [of ?k "- 54"] powi_add2 [of "?k - 53" "- 1"] f by (simp add: power_int_minus flip: xk)
    ultimately show ?thesis using near rnd_pos_near_grid [of x "2 ^ 53" y] unfolding rnd by simp
  qed
qed

subsection \<open>The decimal exponent of a positive rational\<close>

lemma powi_add10: "(10 :: rat) powi (a + b) = 10 powi a * 10 powi b"
  by (simp add: power_int_add)

lemma powi_pos10 [simp]: "(0 :: rat) < 10 powi a"
  by (simp add: zero_less_power_int)

lemma floorlog10_int:
  assumes "0 < n"
  shows "10 powi (int (floorlog 10 (nat n)) - 1) \<le> (of_int n :: rat)"
    and "(of_int n :: rat) < 10 powi (int (floorlog 10 (nat n)))"
proof -
  define m l where "m = nat n" and "l = floorlog 10 m"
  have m: "0 < m" and n: "(of_int n :: rat) = of_nat m" using assms by (auto simp: m_def)
  have b: "10 ^ (l - 1) \<le> m" "m < 10 ^ l"
    using floorlog_bounds [OF m, of 10] by (auto simp: l_def)
  have "0 < l" using m by (simp add: l_def floorlog_def)
  then have l: "int l - 1 = int (l - 1)" by simp
  have "(of_nat (10 ^ (l - 1)) :: rat) \<le> of_nat m" using b(1) by (rule of_nat_mono)
  then show "10 powi (int (floorlog 10 (nat n)) - 1) \<le> (of_int n :: rat)"
    unfolding n m_def [symmetric] l_def [symmetric] l by simp
  have "(of_nat m :: rat) < of_nat (10 ^ l)" using b(2) by (rule of_nat_less_iff [THEN iffD2])
  then show "(of_int n :: rat) < 10 powi (int (floorlog 10 (nat n)))"
    unfolding n m_def [symmetric] l_def [symmetric] by simp
qed

lemma ilog10_bounds:
  assumes "0 < x"
  shows "10 powi (ilog10 x) \<le> x" and "x < 10 powi (ilog10 x + 1)"
proof -
  obtain n d where q: "quotient_of x = (n, d)" by (cases "quotient_of x")
  have d: "0 < d" and x: "x = of_int n / of_int d"
    using q quotient_of_denom_pos quotient_of_div by blast+
  have n: "0 < n" using assms x d by (simp add: zero_less_divide_iff)
  let ?ln = "int (floorlog 10 (nat n))" and ?ld = "int (floorlog 10 (nat d))"
  have "x < 10 powi (?ln - ?ld + 1)"
  proof -
    have "10 powi ?ln = (10 powi (?ln - ?ld + 1) :: rat) * 10 powi (?ld - 1)"
      by (subst powi_add10 [symmetric]) simp
    also have "\<dots> \<le> 10 powi (?ln - ?ld + 1) * of_int d"
      using floorlog10_int(1) [OF d] by (simp add: mult_left_mono)
    finally have "of_int n < (10 powi (?ln - ?ld + 1) * of_int d :: rat)"
      using floorlog10_int(2) [OF n] by (rule less_le_trans [rotated])
    then show ?thesis using d by (simp add: x divide_less_eq)
  qed
  moreover have "10 powi (?ln - ?ld - 1) \<le> x"
  proof -
    have "10 powi (?ln - ?ld - 1) * of_int d \<le> (10 powi (?ln - ?ld - 1) :: rat) * 10 powi ?ld"
      using floorlog10_int(2) [OF d] by (simp add: mult_left_mono)
    also have "\<dots> = 10 powi (?ln - 1)" by (subst powi_add10 [symmetric]) simp
    finally show ?thesis using floorlog10_int(1) [OF n] d by (simp add: x le_divide_eq)
  qed
  moreover have "ilog10 x = (if 10 powi (?ln - ?ld) \<le> x then ?ln - ?ld else ?ln - ?ld - 1)"
    by (simp add: ilog10_def q)
  ultimately show "10 powi (ilog10 x) \<le> x" and "x < 10 powi (ilog10 x + 1)"
    by (auto split: if_splits)
qed

subsection \<open>The shortest digits\<close>

lemma floor_ceil_near:
  fixes y :: rat
  shows "\<exists>s \<in> {\<lfloor>y\<rfloor>, \<lceil>y\<rceil>}. \<bar>of_int s - y\<bar> \<le> 1/2"
proof (cases "y - of_int \<lfloor>y\<rfloor> \<le> 1/2")
  case True
  moreover have "of_int \<lfloor>y\<rfloor> \<le> y" by simp
  ultimately have "\<bar>of_int \<lfloor>y\<rfloor> - y\<bar> \<le> 1/2" by simp
  then show ?thesis by blast
next
  case False
  have "y \<le> of_int \<lceil>y\<rceil>" "of_int \<lceil>y\<rceil> \<le> of_int \<lfloor>y\<rfloor> + (1 :: rat)"
    using ceiling_le [of y "\<lfloor>y\<rfloor> + 1"] by linarith+
  with False have "\<bar>of_int \<lceil>y\<rceil> - y\<bar> \<le> 1/2" by linarith
  then show ?thesis by blast
qed

lemma set_digit_candidates:
  "set (digit_candidates x n k) =
     {s \<in> {\<lfloor>x / 10 powi (n - int k)\<rfloor>, \<lceil>x / 10 powi (n - int k)\<rceil>}. rnd (of_int s * 10 powi (n - int k)) = x}"
  by (auto simp: digit_candidates_def Let_def)

lemma seventeen_digits:
  assumes "0 < x" "representable x" "n = ilog10 x + 1"
  shows "digit_candidates x n 17 \<noteq> []"
proof -
  let ?u = "10 powi (n - 17) :: rat"
  have u: "0 < ?u" by simp
  obtain s where s: "s \<in> {\<lfloor>x / ?u\<rfloor>, \<lceil>x / ?u\<rceil>}" "\<bar>of_int s - x / ?u\<bar> \<le> 1/2"
    using floor_ceil_near by blast
  have "?u * 10 ^ 16 = 10 powi (ilog10 x)"
    using powi_add10 [of "n - 17" 16] assms(3) by simp
  with ilog10_bounds(1) [OF assms(1)] have ux: "?u * 10 ^ 16 \<le> x" by simp
  have "(of_int s * ?u - x) = (of_int s - x / ?u) * ?u" using u by (simp add: left_diff_distrib)
  then have "\<bar>of_int s * ?u - x\<bar> = \<bar>of_int s - x / ?u\<bar> * ?u" using u by (simp add: abs_mult)
  also have "\<dots> \<le> 1/2 * ?u" using s(2) u by (intro mult_right_mono) simp_all
  also have "\<dots> < x * 2 powi (- 54)"
  proof -
    have "1/2 * ?u * 2 ^ 54 < ?u * 10 ^ 16" using u by simp
    with ux have "1/2 * ?u * 2 ^ 54 < x" by linarith
    then show ?thesis by (simp add: power_int_minus divide_inverse [symmetric] less_divide_eq)
  qed
  finally have "rnd (of_int s * ?u) = x" by (rule rnd_near [OF assms(1,2)])
  with s(1) have "s \<in> set (digit_candidates x n 17)" by (simp add: set_digit_candidates)
  then show ?thesis by auto
qed

lemma find_SomeD: "find P xs = Some x \<Longrightarrow> x \<in> set xs \<and> P x"
  by (induction xs) (auto split: if_splits)

text \<open>The digits are as many as announced, without a leading zero, and round to the value.\<close>

lemma shortest_digits:
  assumes "0 < x" "representable x" and d: "shortest_digits x = (s, k, n)"
  shows "1 \<le> k" "10 ^ (k - 1) \<le> s" "s < 10 ^ k" "rnd (of_nat s * 10 powi (n - int k)) = x"
proof -
  define n0 where "n0 = ilog10 x + 1"
  have "find (\<lambda>k. digit_candidates x n0 k \<noteq> []) [1..<18] \<noteq> None"
    using seventeen_digits [OF assms(1,2) n0_def] by (auto simp: find_None_iff intro!: exI [of _ 17])
  then obtain j where j: "find (\<lambda>k. digit_candidates x n0 k \<noteq> []) [1..<18] = Some j" by blast
  from find_SomeD [OF this] have j1: "1 \<le> j" and ne: "digit_candidates x n0 j \<noteq> []" by auto
  define c where "c = hd (digit_candidates x n0 j)"
  define u :: rat where "u = 10 powi (n0 - int j)"
  have u: "0 < u" by (simp add: u_def)
  have "c \<in> set (digit_candidates x n0 j)" using ne by (simp add: c_def)
  then have c: "c \<in> {\<lfloor>x / u\<rfloor>, \<lceil>x / u\<rceil>}" "rnd (of_int c * u) = x"
    by (simp_all add: set_digit_candidates u_def)
  have lo: "of_int (10 ^ (j - 1)) \<le> x / u"
  proof -
    obtain i where "j = Suc i" using j1 by (cases j) auto
    then have "10 ^ (j - 1) * u = 10 powi (ilog10 x)"
      using powi_add10 [of "int i" "n0 - int j"] by (simp add: u_def n0_def)
    with ilog10_bounds(1) [OF assms(1)] show ?thesis using u by (simp add: le_divide_eq)
  qed
  have hi: "x / u < of_int (10 ^ j)"
  proof -
    have "10 ^ j * u = 10 powi (ilog10 x + 1)"
      using powi_add10 [of "int j" "n0 - int j"] by (simp add: u_def n0_def)
    with ilog10_bounds(2) [OF assms(1)] show ?thesis using u by (simp add: divide_less_eq)
  qed
  have "\<lfloor>x / u\<rfloor> \<le> c" "c \<le> \<lceil>x / u\<rceil>" using c(1) by (auto simp: floor_le_ceiling)
  moreover have "10 ^ (j - 1) \<le> \<lfloor>x / u\<rfloor>" "\<lceil>x / u\<rceil> \<le> 10 ^ j"
    using lo hi by (simp_all add: le_floor_iff ceiling_le_iff)
  ultimately have cb: "10 ^ (j - 1) \<le> c" "c \<le> 10 ^ j" by linarith+
  have c0: "0 \<le> c" using cb(1) zero_le_power [of "10 :: int" "j - 1"] by linarith
  have sd: "shortest_digits x = (if nat c = 10 ^ j then (1, 1, n0 + 1) else (nat c, j, n0))"
    unfolding shortest_digits_def Let_def n0_def [symmetric] by (simp only: j option.case c_def)
  have "1 \<le> k \<and> 10 ^ (k - 1) \<le> s \<and> s < 10 ^ k \<and> rnd (of_nat s * 10 powi (n - int k)) = x"
  proof (cases "nat c = 10 ^ j")
    case True
    then have "c = 10 ^ j" using c0 by (metis int_nat_eq of_nat_numeral of_nat_power)
    then have "of_int c * u = 10 powi n0"
      using powi_add10 [of "int j" "n0 - int j"] by (simp add: u_def)
    with True sd d c(2) show ?thesis by auto
  next
    case False
    then have "nat c < 10 ^ j" using cb(2) by (simp add: nat_le_iff le_neq_implies_less)
    moreover have "10 ^ (j - 1) \<le> nat c" using cb(1) by (simp add: le_nat_iff c0)
    moreover have "(of_nat (nat c) :: rat) = of_int c" using c0 by simp
    ultimately show ?thesis using False sd d c(2) j1 by (auto simp: u_def)
  qed
  then show "1 \<le> k" "10 ^ (k - 1) \<le> s" "s < 10 ^ k" "rnd (of_nat s * 10 powi (n - int k)) = x" by blast+
qed

lemma length_nat_str: "10 ^ (k - 1) \<le> n \<Longrightarrow> n < 10 ^ k \<Longrightarrow> 1 \<le> k \<Longrightarrow> length (nat_str n) = k"
proof (induction n arbitrary: k rule: nat_str.induct)
  case (1 n)
  show ?case
  proof (cases "n < 10")
    case True
    have "k = 1"
    proof (rule ccontr)
      assume "k \<noteq> 1"
      with 1(4) have "(10 :: nat) ^ 1 \<le> 10 ^ (k - 1)" by (intro power_increasing) simp_all
      with 1(2) True show False by simp
    qed
    then show ?thesis using True by (simp add: nat_str.simps [of n])
  next
    case False
    then have "k \<noteq> 1" using 1(3) by auto
    then obtain j where k: "k = Suc (Suc j)" using 1(4) by (metis One_nat_def Suc_le_D not0_implies_Suc)
    have "10 ^ (Suc j - 1) \<le> n div 10" "n div 10 < 10 ^ Suc j"
      using 1(2,3) by (simp_all add: k less_eq_div_iff_mult_less_eq div_less_iff_less_mult mult.commute)
    from 1(1) [OF False this] show ?thesis using False by (simp add: nat_str.simps [of n] k)
  qed
qed

lemma hd_nat_str: "0 < n \<Longrightarrow> hd (nat_str n) \<noteq> CHR ''0''"
proof (induction n rule: nat_str.induct)
  case (1 n)
  have d: "digit_char m \<noteq> CHR ''0''" if "0 < m" "m < 10" for m
    using less_ten_cases [OF that(2)] that(1) by (elim disjE) (simp_all add: digit_char_def)
  show ?case
  proof (cases "n < 10")
    case True
    with d [OF 1(2) this] show ?thesis by (simp add: nat_str.simps [of n])
  next
    case False
    then have "0 < n div 10" by (simp add: div_greater_zero_iff)
    with 1(1) [OF False] False show ?thesis by (subst nat_str.simps) (simp add: hd_append)
  qed
qed

subsection \<open>Decimal literals\<close>

text \<open>A literal of an integer part, a fraction that may be missing and an exponent that may be.\<close>

definition decimal_text :: "string \<Rightarrow> string \<Rightarrow> int option \<Rightarrow> string" where
  "decimal_text ip fp ex =
     ip @ (if fp = [] then [] else CHR ''.'' # fp) @
     (case ex of None \<Rightarrow> [] | Some e \<Rightarrow> ''e'' @ (if e < 0 then ''-'' else ''+'') @ nat_str (nat \<bar>e\<bar>))"

definition decimal_exp :: "int option \<Rightarrow> int" where
  "decimal_exp ex = (case ex of None \<Rightarrow> 0 | Some e \<Rightarrow> e)"

text \<open>Digits that JSON allows as an integer part, and the value of the literal.\<close>

definition decimal_literal :: "string \<Rightarrow> string \<Rightarrow> int option \<Rightarrow> rat \<Rightarrow> bool" where
  "decimal_literal ip fp ex v \<longleftrightarrow>
     ip \<noteq> [] \<and> list_all is_digit (ip @ fp) \<and> (hd ip = CHR ''0'' \<longrightarrow> length ip = 1) \<and>
     (\<exists>m. read_radix 10 0 (ip @ fp) = Some m \<and> v = of_nat m * 10 powi (decimal_exp ex - int (length fp)))"

lemma read_radix_digits: "read_radix 10 0 (nat_str n) = Some n"
  using read_radix_nat_str [of 0 n "[]"] by simp

lemma read_radix_zeros_end: "read_radix 10 a (zeros k) = Some (a * 10 ^ k)"
proof -
  have "radix_val 10 (CHR ''0'') = Some 0" by (simp add: radix_val_def)
  then show ?thesis by (induction k arbitrary: a) (simp_all add: zeros_def)
qed

lemma layout_decimal:
  assumes k: "1 \<le> k" "10 ^ (k - 1) \<le> s" "s < 10 ^ k"
  shows "\<exists>ip fp ex. layout_digits (s, k, n) = decimal_text ip fp ex \<and>
    decimal_literal ip fp ex (of_nat s * 10 powi (n - int k))"
proof -
  let ?ds = "nat_str s" and ?v = "of_nat s * 10 powi (n - int k) :: rat"
  have len: "length ?ds = k" by (rule length_nat_str [OF k(2,3,1)])
  have s: "0 < s" using k(2) zero_less_power [of "10 :: nat" "k - 1"] by linarith
  have hd: "hd ?ds \<noteq> CHR ''0''" by (rule hd_nat_str [OF s])
  have dig: "list_all is_digit ?ds" by (rule all_digits_nat_str)
  have zd: "is_digit (CHR ''0'')" by (simp add: is_digit_def digit_val_def)
  consider "int k \<le> n \<and> n \<le> 21" | "\<not> int k \<le> n" "0 < n" "n \<le> 21" | "- 6 < n" "n \<le> 0"
    | "21 < n \<or> n \<le> - 6" by linarith
  then show ?thesis
  proof cases
    case 1
    let ?z = "zeros (nat (n - int k))"
    have "?v = of_nat (s * 10 ^ nat (n - int k))" using 1 by (simp add: power_int_def)
    then have "decimal_literal (?ds @ ?z) [] None ?v"
      using len k(1) hd dig all_digits_zeros
      by (auto simp: decimal_literal_def decimal_exp_def read_radix_nat_str read_radix_zeros_end)
    moreover have "layout_digits (s, k, n) = decimal_text (?ds @ ?z) [] None"
      using 1 by (simp add: layout_digits_def decimal_text_def Let_def)
    ultimately show ?thesis by blast
  next
    case 2
    let ?ip = "take (nat n) ?ds" and ?fp = "drop (nat n) ?ds"
    have n: "nat n < k" "0 < nat n" using 2 by linarith+
    then have "int (length ?fp) = int k - n" using len 2 by simp
    then have "decimal_literal ?ip ?fp None ?v"
      using n hd dig len
      by (auto simp: decimal_literal_def decimal_exp_def read_radix_digits list_all_iff
          dest: in_set_takeD in_set_dropD)
    moreover have "layout_digits (s, k, n) = decimal_text ?ip ?fp None"
      using 2 n len by (simp add: layout_digits_def decimal_text_def Let_def)
    ultimately show ?thesis by blast
  next
    case 3
    let ?fp = "zeros (nat (- n)) @ ?ds"
    have "''0'' @ ?fp = zeros (Suc (nat (- n))) @ ?ds" by (simp add: zeros_def)
    then have "read_radix 10 0 (''0'' @ ?fp) = Some s" by (simp only: read_radix_zeros read_radix_digits)
    moreover have "int (length ?fp) = int k - n" using len 3 by (simp add: zeros_def)
    ultimately have "decimal_literal ''0'' ?fp None ?v"
      using dig zd all_digits_zeros by (simp add: decimal_literal_def decimal_exp_def)
    moreover have "layout_digits (s, k, n) = decimal_text ''0'' ?fp None"
      using 3 k(1) len by (auto simp: layout_digits_def decimal_text_def Let_def)
    ultimately show ?thesis by blast
  next
    case 4
    let ?ip = "take 1 ?ds" and ?fp = "drop 1 ?ds"
    have "int (length ?fp) = int k - 1" using len k(1) by simp
    moreover have "?ip @ ?fp = ?ds" by (rule append_take_drop_id)
    ultimately have "decimal_literal ?ip ?fp (Some (n - 1)) ?v"
      using dig len k(1)
      by (auto simp: decimal_literal_def decimal_exp_def read_radix_digits)
    moreover have "layout_digits (s, k, n) = decimal_text ?ip ?fp (Some (n - 1))"
      using 4 k(1) len by (auto simp: layout_digits_def decimal_text_def Let_def)
    ultimately show ?thesis by blast
  qed
qed

lemma rat_str_decimal:
  assumes "0 \<le> x" "representable x"
  shows "\<exists>ip fp ex v. rat_str x = decimal_text ip fp ex \<and> decimal_literal ip fp ex v \<and> rnd v = x"
proof (cases "of_int \<lfloor>x\<rfloor> = x \<and> x \<le> 2 ^ 53")
  case True
  let ?n = "nat \<lfloor>x\<rfloor>"
  have "(of_nat ?n :: rat) = of_int \<lfloor>x\<rfloor>" using assms(1) by simp
  with True have x: "x = of_nat ?n" by metis
  have "hd (nat_str ?n) = CHR ''0'' \<longrightarrow> length (nat_str ?n) = 1"
    using hd_nat_str [of ?n] by (cases "?n = 0") (simp_all add: nat_str.simps [of 0])
  then have "decimal_literal (nat_str ?n) [] None x"
    using all_digits_nat_str [of ?n] read_radix_digits [of ?n] x
    by (simp add: decimal_literal_def decimal_exp_def)
  moreover have "rat_str x = decimal_text (nat_str ?n) [] None"
    using True by (simp add: rat_str_def decimal_text_def)
  ultimately show ?thesis using rnd_representable [OF assms(2)] by blast
next
  case False
  then have x: "0 < x" using assms(1) by (auto simp: less_le)
  obtain s k n where d: "shortest_digits x = (s, k, n)" by (metis prod_cases3)
  note sd = shortest_digits [OF x assms(2) d]
  from layout_decimal [OF sd(1-3), of n] sd(4) False d show ?thesis by (auto simp: rat_str_def)
qed

end
