(* ===== verification/Json.thy ===== *)
theory Json
  imports NumberText
begin

text \<open>
  JSON, between the server scripts and the client: \<open>JSON.stringify\<close>, with which the endpoint
  sends its data, and the grammar of JSON, by which \<open>res.json()\<close> reads it. The reader runs on
  fuel; the length of the text is enough for every text that \<open>stringify\<close> writes, and what
  arrives is the value without its undefined members.
\<close>

subsection \<open>JSON.stringify\<close>

definition json_escape :: "char \<Rightarrow> string" where
  "json_escape c = (let n = of_char c :: nat in
     if n = 34 \<or> n = 92 then [CHR 0x5C, c]
     else if n = 8 then [CHR 0x5C, CHR ''b'']
     else if n = 9 then [CHR 0x5C, CHR ''t'']
     else if n = 10 then [CHR 0x5C, CHR ''n'']
     else if n = 12 then [CHR 0x5C, CHR ''f'']
     else if n = 13 then [CHR 0x5C, CHR ''r'']
     else if n < 32 then [CHR 0x5C, CHR ''u'', CHR ''0'', CHR ''0'',
       ''0123456789abcdef'' ! (n div 16), ''0123456789abcdef'' ! (n mod 16)]
     else [c])"

definition json_quote :: "string \<Rightarrow> string" where
  "json_quote s = [CHR 0x22] @ concat (map json_escape s) @ [CHR 0x22]"

text \<open>Undefined and closures have no text; in an array they become null.\<close>

fun json_str :: "jv \<Rightarrow> string option" where
  "json_str Undef = None"
| "json_str Null = Some ''null''"
| "json_str (Bool b) = Some (if b then ''true'' else ''false'')"
| "json_str (Num n) = Some (case n of Fin _ \<Rightarrow> num_str n | NegZero \<Rightarrow> ''0'' | _ \<Rightarrow> ''null'')"
| "json_str (Str s) = Some (json_quote s)"
| "json_str (Arr xs) = Some (''['' @ join '','' (map (\<lambda>x. case json_str x of Some t \<Rightarrow> t | None \<Rightarrow> ''null'') xs) @ '']'')"
| "json_str (Obj ps) = Some (''{'' @ join '','' (concat (map (\<lambda>p. case json_str (snd p) of
      Some t \<Rightarrow> [json_quote (fst p) @ '':'' @ t] | None \<Rightarrow> []) ps)) @ ''}'')"
| "json_str (El t ps cs) = None"
| "json_str (Clo f xs) = None"

definition stringify :: "jv \<Rightarrow> string" where
  "stringify v = (case json_str v of Some t \<Rightarrow> t | None \<Rightarrow> ''undefined'')"

subsection \<open>Reading JSON\<close>

definition json_space :: "char \<Rightarrow> bool" where
  "json_space c \<longleftrightarrow> (of_char c :: nat) \<in> {9, 10, 13, 32}"

definition json_skip :: "string \<Rightarrow> string" where
  "json_skip s = dropWhile json_space s"

text \<open>The UTF-8 bytes of a code unit of an escape; halves of surrogate pairs are not taken.\<close>

definition unit_bytes :: "nat \<Rightarrow> string option" where
  "unit_bytes n =
     (if n < 0x80 then Some [char_of n]
      else if n < 0x800 then Some [char_of (0xC0 + n div 64), char_of (0x80 + n mod 64)]
      else if 0xD800 \<le> n \<and> n \<le> 0xDFFF then None
      else Some [char_of (0xE0 + n div 4096), char_of (0x80 + n div 64 mod 64), char_of (0x80 + n mod 64)])"

definition simple_escape :: "char \<Rightarrow> char option" where
  "simple_escape c = map_of
     [(CHR 0x22, CHR 0x22), (CHR 0x5C, CHR 0x5C), (CHR ''/'', CHR ''/''), (CHR ''b'', CHR 0x08),
      (CHR ''f'', CHR 0x0C), (CHR ''n'', CHR 0x0A), (CHR ''r'', CHR 0x0D), (CHR ''t'', CHR 0x09)] c"

text \<open>The rest of a string, after its opening quote: its bytes and what follows.\<close>

fun json_chars :: "string \<Rightarrow> (string \<times> string) option" where
  "json_chars [] = None"
| "json_chars (c # cs) =
     (if c = CHR 0x22 then Some ([], cs)
      else if c = CHR 0x5C then
        (case cs of
           [] \<Rightarrow> None
         | d # ds \<Rightarrow> (case simple_escape d of
               Some e \<Rightarrow> map_option (apfst ((#) e)) (json_chars ds)
             | None \<Rightarrow> if d \<noteq> CHR ''u'' then None
                 else (case ds of
                     h1 # h2 # h3 # h4 # es \<Rightarrow>
                       (case read_radix 16 0 [h1, h2, h3, h4] of
                          None \<Rightarrow> None
                        | Some n \<Rightarrow> (case unit_bytes n of
                            None \<Rightarrow> None
                          | Some bs \<Rightarrow> map_option (apfst ((@) bs)) (json_chars es)))
                   | _ \<Rightarrow> None)))
      else if (of_char c :: nat) < 32 then None
      else map_option (apfst ((#) c)) (json_chars cs))"

definition json_frac :: "string \<Rightarrow> (string \<times> string) option" where
  "json_frac s = (case s of
       CHR ''.'' # cs \<Rightarrow> if takeWhile is_digit cs = [] then None
                          else Some (takeWhile is_digit cs, dropWhile is_digit cs)
     | _ \<Rightarrow> Some ([], s))"

definition json_exp :: "string \<Rightarrow> (int \<times> string) option" where
  "json_exp s = (case s of
       [] \<Rightarrow> Some (0, [])
     | c # cs \<Rightarrow>
         if c \<noteq> CHR ''e'' \<and> c \<noteq> CHR ''E'' then Some (0, s)
         else let (sg, ds) = (case cs of
                  CHR ''-'' # ds \<Rightarrow> (- 1, ds) | CHR ''+'' # ds \<Rightarrow> (1, ds) | _ \<Rightarrow> (1, cs))
              in if takeWhile is_digit ds = [] then None
                 else map_option (\<lambda>n. (sg * int n, dropWhile is_digit ds)) (read_radix 10 0 (takeWhile is_digit ds)))"

definition json_number :: "string \<Rightarrow> (number \<times> string) option" where
  "json_number s =
     (let (neg, u) = (case s of CHR ''-'' # r \<Rightarrow> (True, r) | _ \<Rightarrow> (False, s));
          ip = takeWhile is_digit u
      in if ip = [] \<or> (hd ip = CHR ''0'' \<and> length ip \<noteq> 1) then None
         else do {
           (fp, r1) \<leftarrow> json_frac (dropWhile is_digit u);
           (e, r2) \<leftarrow> json_exp r1;
           m \<leftarrow> read_radix 10 0 (ip @ fp);
           Some (signed_number neg (of_nat m * 10 powi (e - int (length fp))), r2)
         })"

definition build_obj :: "(string \<times> jv) list \<Rightarrow> jv" where
  "build_obj ms = Obj (foldl (\<lambda>ps (k, v). obj_put k v ps) [] ms)"

definition json_word :: "string \<Rightarrow> jv \<Rightarrow> string \<Rightarrow> (jv \<times> string) option" where
  "json_word w v s = (if take (length w) s = w then Some (v, drop (length w) s) else None)"

fun json_value :: "nat \<Rightarrow> string \<Rightarrow> (jv \<times> string) option"
  and json_elems :: "nat \<Rightarrow> string \<Rightarrow> (jv list \<times> string) option"
  and json_members :: "nat \<Rightarrow> string \<Rightarrow> ((string \<times> jv) list \<times> string) option" where
  "json_value 0 s = None"
| "json_value (Suc n) s =
     (case json_skip s of
        [] \<Rightarrow> None
      | c # cs \<Rightarrow>
          if c = CHR 0x22 then map_option (apfst Str) (json_chars cs)
          else if c = CHR ''['' then
            (if take 1 (json_skip cs) = '']'' then Some (Arr [], tl (json_skip cs))
             else map_option (apfst Arr) (json_elems n cs))
          else if c = CHR ''{'' then
            (if take 1 (json_skip cs) = ''}'' then Some (Obj [], tl (json_skip cs))
             else map_option (apfst build_obj) (json_members n cs))
          else if c = CHR ''n'' then json_word ''null'' Null (c # cs)
          else if c = CHR ''t'' then json_word ''true'' (Bool True) (c # cs)
          else if c = CHR ''f'' then json_word ''false'' (Bool False) (c # cs)
          else map_option (apfst Num) (json_number (c # cs)))"
| "json_elems 0 s = None"
| "json_elems (Suc n) s = do {
     (v, r) \<leftarrow> json_value n s;
     (case json_skip r of
        [] \<Rightarrow> None
      | c # cs \<Rightarrow>
          if c = CHR '','' then map_option (apfst ((#) v)) (json_elems n cs)
          else if c = CHR '']'' then Some ([v], cs)
          else None)
   }"
| "json_members 0 s = None"
| "json_members (Suc n) s =
     (case json_skip s of
        [] \<Rightarrow> None
      | q # qs \<Rightarrow> if q \<noteq> CHR 0x22 then None else do {
          (k, r) \<leftarrow> json_chars qs;
          (case json_skip r of
             [] \<Rightarrow> None
           | d # ds \<Rightarrow> if d \<noteq> CHR '':'' then None else do {
               (v, t) \<leftarrow> json_value n ds;
               (case json_skip t of
                  [] \<Rightarrow> None
                | c # cs \<Rightarrow>
                    if c = CHR '','' then map_option (apfst ((#) (k, v))) (json_members n cs)
                    else if c = CHR ''}'' then Some ([(k, v)], cs)
                    else None)
             })
        })"

text \<open>\<open>res.json()\<close>: a text that is no JSON, or has anything after the value, is rejected.\<close>

definition json_parse :: "string \<Rightarrow> jv option" where
  "json_parse s = (case json_value (length s) s of
       Some (v, r) \<Rightarrow> if json_skip r = [] then Some v else None
     | None \<Rightarrow> None)"

subsection \<open>What arrives\<close>

fun json_image :: "jv \<Rightarrow> jv option" where
  "json_image Undef = None"
| "json_image Null = Some Null"
| "json_image (Bool b) = Some (Bool b)"
| "json_image (Num n) = Some (case n of Fin x \<Rightarrow> Num (Fin x) | NegZero \<Rightarrow> Num (Fin 0) | _ \<Rightarrow> Null)"
| "json_image (Str s) = Some (Str s)"
| "json_image (Arr xs) = Some (Arr (map (\<lambda>x. case json_image x of Some w \<Rightarrow> w | None \<Rightarrow> Null) xs))"
| "json_image (Obj ps) = Some (build_obj (concat (map (\<lambda>p. case json_image (snd p) of
      Some w \<Rightarrow> [(fst p, w)] | None \<Rightarrow> []) ps)))"
| "json_image (El t ps cs) = None"
| "json_image (Clo f xs) = None"

fun numbers_wf :: "jv \<Rightarrow> bool" where
  "numbers_wf (Num n) = wf_number n"
| "numbers_wf (Arr xs) = list_all numbers_wf xs"
| "numbers_wf (Obj ps) = list_all (\<lambda>p. numbers_wf (snd p)) ps"
| "numbers_wf _ = True"

subsection \<open>Strings\<close>

text \<open>The escapes of the control characters, checked one by one.\<close>

definition escape_ok :: "nat \<Rightarrow> bool" where
  "escape_ok n \<longleftrightarrow> (let e = json_escape (char_of n) in
     (e = [CHR 0x5C, e ! 1] \<and> simple_escape (e ! 1) = Some (char_of n)) \<or>
     (e = [CHR 0x5C, CHR ''u'', CHR ''0'', CHR ''0'', e ! 4, e ! 5] \<and>
      read_radix 16 0 [CHR ''0'', CHR ''0'', e ! 4, e ! 5] = Some n))"

lemma escapes_ok: "list_all escape_ok [0..<32]"
  by code_simp

lemma json_escape_cases:
  obtains (plain) "json_escape c = [c]" "c \<noteq> CHR 0x22" "c \<noteq> CHR 0x5C" "32 \<le> (of_char c :: nat)"
  | (simple) d where "json_escape c = [CHR 0x5C, d]" "simple_escape d = Some c"
  | (hex) h l where "json_escape c = [CHR 0x5C, CHR ''u'', CHR ''0'', CHR ''0'', h, l]"
      "read_radix 16 0 [CHR ''0'', CHR ''0'', h, l] = Some (of_char c)" "(of_char c :: nat) < 32"
proof -
  define n where "n = (of_char c :: nat)"
  have c: "c = char_of n" by (simp add: n_def)
  have num: "c = CHR 0x22 \<longleftrightarrow> n = 34" "c = CHR 0x5C \<longleftrightarrow> n = 92"
    using of_char_eq_iff [of c "CHR 0x22", where ?'a = nat] of_char_eq_iff [of c "CHR 0x5C", where ?'a = nat]
    by (simp_all add: n_def)
  show ?thesis
  proof (cases "n < 32")
    case True
    then have ok: "escape_ok n" using escapes_ok by (simp add: list_all_iff)
    define e where "e = json_escape c"
    have "e = [CHR 0x5C, e ! 1] \<and> simple_escape (e ! 1) = Some c \<or>
        e = [CHR 0x5C, CHR ''u'', CHR ''0'', CHR ''0'', e ! 4, e ! 5] \<and>
          read_radix 16 0 [CHR ''0'', CHR ''0'', e ! 4, e ! 5] = Some n"
      using ok by (simp only: escape_ok_def Let_def e_def flip: c)
    then show ?thesis
    proof (elim disjE conjE)
      assume "e = [CHR 0x5C, e ! 1]" "simple_escape (e ! 1) = Some c"
      then show ?thesis unfolding e_def by (rule simple)
    next
      assume "e = [CHR 0x5C, CHR ''u'', CHR ''0'', CHR ''0'', e ! 4, e ! 5]"
        "read_radix 16 0 [CHR ''0'', CHR ''0'', e ! 4, e ! 5] = Some n"
      then show ?thesis using True unfolding e_def n_def by (rule hex)
    qed
  next
    case False
    show ?thesis
    proof (cases "n = 34 \<or> n = 92")
      case True
      then have "json_escape c = [CHR 0x5C, c]" "simple_escape c = Some c"
        unfolding num [symmetric] by (auto simp: json_escape_def simple_escape_def)
      with simple show ?thesis by blast
    next
      case other: False
      with False have "json_escape c = [c]" by (simp add: json_escape_def n_def [symmetric] Let_def)
      with other False num plain show ?thesis unfolding n_def by simp
    qed
  qed
qed

lemma json_chars_escaped: "json_chars (concat (map json_escape s) @ CHR 0x22 # r) = Some (s, r)"
proof (induction s)
  case Nil
  then show ?case by simp
next
  case (Cons c s)
  show ?case
  proof (cases c rule: json_escape_cases)
    case plain
    with Cons show ?thesis by simp
  next
    case (simple d)
    with Cons show ?thesis by simp
  next
    case (hex h l)
    then have "simple_escape (CHR ''u'') = None" by (simp add: simple_escape_def)
    moreover have "unit_bytes (of_char c) = Some [c]" using hex(3) by (simp add: unit_bytes_def)
    ultimately show ?thesis using Cons hex by simp
  qed
qed

lemma json_quote_parts: "json_quote s @ r = CHR 0x22 # (concat (map json_escape s) @ CHR 0x22 # r)"
  by (simp add: json_quote_def)

subsection \<open>Numbers\<close>

text \<open>What follows a value: the end of the text, or a separator.\<close>

definition ends :: "string \<Rightarrow> bool" where
  "ends r \<longleftrightarrow> (r = [] \<or> hd r \<in> {CHR '','', CHR '']'', CHR ''}''})"

lemma ends_cases:
  assumes "ends r"
  obtains "r = []" | c cs where "r = c # cs" "\<not> is_digit c" "c \<noteq> CHR ''.''" "c \<noteq> CHR ''e''" "c \<noteq> CHR ''E''"
  using assms by (cases r) (auto simp: ends_def is_digit_def digit_val_def)

lemma takeWhile_ends: "list_all is_digit ds \<Longrightarrow> ends r \<Longrightarrow> takeWhile is_digit (ds @ r) = ds"
  and dropWhile_ends: "list_all is_digit ds \<Longrightarrow> ends r \<Longrightarrow> dropWhile is_digit (ds @ r) = r"
  by (auto simp: takeWhile_all dropWhile_all elim: ends_cases)

lemma json_exp_text:
  assumes "ends r"
  shows "json_exp ((case ex of None \<Rightarrow> [] | Some e \<Rightarrow> ''e'' @ (if e < 0 then ''-'' else ''+'') @ nat_str (nat \<bar>e\<bar>)) @ r) =
    Some (decimal_exp ex, r)"
proof (cases ex)
  case None
  with assms show ?thesis by (auto simp: json_exp_def decimal_exp_def elim: ends_cases)
next
  case (Some e)
  have "takeWhile is_digit (nat_str k @ r) = nat_str k" "dropWhile is_digit (nat_str k @ r) = r" for k
    using all_digits_nat_str assms by (simp_all add: takeWhile_ends dropWhile_ends)
  then show ?thesis by (simp add: Some json_exp_def decimal_exp_def read_radix_digits)
qed

lemma json_number_decimal:
  assumes lit: "decimal_literal ip fp ex v" and r: "ends r"
    and s: "s = decimal_text ip fp ex @ r \<and> \<not> neg \<or> s = CHR ''-'' # decimal_text ip fp ex @ r \<and> neg"
  shows "json_number s = Some (signed_number neg v, r)"
proof -
  let ?ex = "(case ex of None \<Rightarrow> [] | Some e \<Rightarrow> ''e'' @ (if e < 0 then ''-'' else ''+'') @ nat_str (nat \<bar>e\<bar>)) @ r"
  let ?u = "decimal_text ip fp ex @ r" and ?f = "if fp = [] then [] else CHR ''.'' # fp"
  obtain m where ip: "ip \<noteq> []" "list_all is_digit ip" "hd ip = CHR ''0'' \<longrightarrow> length ip = 1"
    and fp: "list_all is_digit fp" and m: "read_radix 10 0 (ip @ fp) = Some m"
    and v: "v = of_nat m * 10 powi (decimal_exp ex - int (length fp))"
    using lit by (auto simp: decimal_literal_def)
  have u: "?u = ip @ ?f @ ?ex" by (simp add: decimal_text_def)
  have e: "takeWhile is_digit (ds @ ?ex) = ds \<and> dropWhile is_digit (ds @ ?ex) = ?ex" if "list_all is_digit ds" for ds
  proof (cases ex)
    case None
    with that r show ?thesis by (simp add: takeWhile_ends dropWhile_ends)
  next
    case (Some e)
    with that show ?thesis by (simp add: takeWhile_all dropWhile_all is_digit_def digit_val_def)
  qed
  have ipu: "takeWhile is_digit ?u = ip \<and> dropWhile is_digit ?u = ?f @ ?ex"
  proof (cases "fp = []")
    case True
    then show ?thesis unfolding u using e [OF ip(2)] by simp
  next
    case False
    with ip(2) show ?thesis by (simp add: u takeWhile_all dropWhile_all is_digit_def digit_val_def)
  qed
  have frac: "json_frac (?f @ ?ex) = Some (fp, ?ex)"
  proof (cases "fp = []")
    case True
    have "hd ?ex \<noteq> CHR ''.''" if "?ex \<noteq> []"
      using that r by (cases ex) (auto simp: ends_def)
    with True show ?thesis by (cases ?ex) (auto simp: json_frac_def split: char.splits bool.splits)
  next
    case False
    with e [OF fp] show ?thesis by (simp add: json_frac_def)
  qed
  obtain c cs where c: "ip = c # cs" "is_digit c" using ip(1,2) by (cases ip) auto
  then have cs: "?u = c # (cs @ ?f @ ?ex)" unfolding u by simp
  have "c \<noteq> CHR ''-''" using c(2) by (auto simp: is_digit_def digit_val_def)
  with s cs have "(case s of CHR ''-'' # r \<Rightarrow> (True, r) | _ \<Rightarrow> (False, s)) = (neg, ?u)"
    by (auto split: char.splits bool.splits)
  then show ?thesis
    using ip(1,3) ipu frac json_exp_text [OF r, of ex] m v by (auto simp: json_number_def)
qed

lemma number_value_rnd:
  assumes "0 \<le> x" "x < 2 ^ 1024" "rnd v = x" "v \<noteq> 0 \<longrightarrow> 0 < x"
  shows "signed_number False v = Fin x" and "0 < x \<Longrightarrow> signed_number True v = Fin (- x)"
proof -
  have z: "v = 0 \<Longrightarrow> x = 0" using assms(3) by auto
  show "signed_number False v = Fin x"
    using assms z by (auto simp: signed_number_def signed_zero_def number_value_def Let_def)
  assume "0 < x"
  with z have "v \<noteq> 0" by auto
  with assms \<open>0 < x\<close> show "signed_number True v = Fin (- x)"
    by (auto simp: signed_number_def number_value_def Let_def)
qed

lemma rnd_pos_of_literal: "decimal_literal ip fp ex v \<Longrightarrow> rnd v = x \<Longrightarrow> 0 \<le> v"
  by (auto simp: decimal_literal_def)

text \<open>A finite Number is read back from its text.\<close>

lemma json_number_text:
  assumes "wf_number (Fin x)" "ends r"
  shows "json_number (num_str (Fin x) @ r) = Some (Fin x, r)"
proof -
  have x: "representable \<bar>x\<bar>" "\<bar>x\<bar> < 2 ^ 1024"
    using assms(1) by (auto simp: abs_if)
  obtain ip fp ex v where t: "rat_str \<bar>x\<bar> = decimal_text ip fp ex" "decimal_literal ip fp ex v" "rnd v = \<bar>x\<bar>"
    using rat_str_decimal [OF abs_ge_zero x(1)] by blast
  have v: "v \<noteq> 0 \<longrightarrow> 0 < \<bar>x\<bar>" if "x \<noteq> 0" using that by simp
  show ?thesis
  proof (cases "x < 0")
    case True
    then have "json_number (num_str (Fin x) @ r) = Some (signed_number True v, r)"
      using t(1) by (intro json_number_decimal [OF t(2) assms(2)]) simp
    with number_value_rnd(2) [OF abs_ge_zero x(2) t(3)] True v show ?thesis by simp
  next
    case False
    then have "json_number (num_str (Fin x) @ r) = Some (signed_number False v, r)"
      using t(1) by (intro json_number_decimal [OF t(2) assms(2)]) simp
    moreover have "signed_number False v = Fin x"
    proof (cases "x = 0")
      case True
      then have "v = 0 \<or> number_value v = Fin 0"
        using t(3) rnd_pos_of_literal [OF t(2,3)] by (auto simp: number_value_def Let_def)
      with True show ?thesis by (auto simp: signed_number_def signed_zero_def)
    next
      case nz: False
      with number_value_rnd(1) [OF abs_ge_zero x(2) t(3)] False v show ?thesis by simp
    qed
    ultimately show ?thesis by simp
  qed
qed

subsection \<open>Values\<close>

text \<open>The first character of a text tells what it is.\<close>

definition value_start :: "char \<Rightarrow> bool" where
  "value_start c \<longleftrightarrow> c \<in> set ''ntf[{-0123456789'' \<or> c = CHR 0x22"

lemma num_str_start: "wf_number (Fin x) \<Longrightarrow> \<exists>c cs. num_str (Fin x) = c # cs \<and> c \<in> set ''-0123456789''"
proof -
  assume wf: "wf_number (Fin x)"
  then have "representable \<bar>x\<bar>" by (auto simp: abs_if)
  then obtain ip fp ex v where t: "rat_str \<bar>x\<bar> = decimal_text ip fp ex" "decimal_literal ip fp ex v"
    using rat_str_decimal [OF abs_ge_zero] by blast
  then obtain c cs where "ip = c # cs" "is_digit c" by (cases ip) (auto simp: decimal_literal_def)
  with t(1) have "rat_str \<bar>x\<bar> = c # (cs @ drop (length ip) (rat_str \<bar>x\<bar>))" "c \<in> set ''0123456789''"
    by (simp_all add: decimal_text_def is_digit_def digit_val_def split: if_splits)
  then show ?thesis by (cases "x < 0") auto
qed

lemma value_start_chars [simp]:
  "value_start (CHR ''n'')" "value_start (CHR ''t'')" "value_start (CHR ''f'')" "value_start (CHR ''['')"
  "value_start (CHR ''{'')" "value_start (CHR 0x22)"
  by (simp_all add: value_start_def)

lemma num_text_start:
  assumes "wf_number n" "json_str (Num n) = Some t"
  shows "\<exists>c cs. t = c # cs \<and> value_start c"
proof (cases "\<exists>x. n = Fin x")
  case True
  then obtain x where n: "n = Fin x" by blast
  have t: "t = num_str (Fin x)" using assms(2) by (simp add: n del: num_str.simps)
  obtain c cs where c: "num_str (Fin x) = c # cs" "c \<in> set ''-0123456789''"
    using num_str_start assms(1) unfolding n by blast
  have "value_start c" using c(2) by (auto simp: value_start_def)
  with c(1) t show ?thesis by metis
next
  case False
  then have "t = ''0'' \<or> t = ''null''" using assms(2) by (cases n) simp_all
  moreover have "value_start (CHR ''0'')" by (simp add: value_start_def)
  ultimately show ?thesis using value_start_chars(1) by blast
qed

lemma json_str_start:
  assumes "numbers_wf v" "json_str v = Some t"
  shows "\<exists>c cs. t = c # cs \<and> value_start c"
proof (cases v)
  case Null
  with assms have "t = ''null''" by simp
  then show ?thesis using value_start_chars(1) by blast
next
  case (Bool b)
  with assms have "t = ''true'' \<or> t = ''false''" by (simp split: if_splits)
  then show ?thesis using value_start_chars(2,3) by blast
next
  case (Num n)
  with assms num_text_start show ?thesis by simp
next
  case (Str s)
  with assms have "t = CHR 0x22 # concat (map json_escape s) @ [CHR 0x22]" by (simp add: json_quote_def)
  then show ?thesis using value_start_chars(6) by blast
next
  case (Arr xs)
  with assms have "\<exists>cs. t = CHR ''['' # cs" by auto
  then show ?thesis using value_start_chars(4) by blast
next
  case (Obj ps)
  with assms have "\<exists>cs. t = CHR ''{'' # cs" by auto
  then show ?thesis using value_start_chars(5) by blast
qed (use assms in simp_all)

lemma value_start_simps:
  "value_start c \<Longrightarrow> \<not> json_space c" "value_start c \<Longrightarrow> c \<noteq> CHR '']''" "value_start c \<Longrightarrow> c \<noteq> CHR ''}''"
  by (auto simp: value_start_def json_space_def)

lemma json_skip_Cons [simp]: "\<not> json_space c \<Longrightarrow> json_skip (c # cs) = c # cs"
  and json_skip_Nil [simp]: "json_skip [] = []"
  by (simp_all add: json_skip_def)

lemma json_skip_start: "value_start c \<Longrightarrow> json_skip (c # cs) = c # cs"
  by (simp add: value_start_simps)

lemma not_json_space [simp]:
  "\<not> json_space (CHR '','')" "\<not> json_space (CHR '']'')" "\<not> json_space (CHR ''}'')"
  "\<not> json_space (CHR '':'')" "\<not> json_space (CHR 0x22)" "\<not> json_space (CHR ''['')" "\<not> json_space (CHR ''{'')"
  by (simp_all add: json_space_def)

lemma ends_simps [simp]: "ends []" "ends (CHR '','' # r)" "ends (CHR '']'' # r)" "ends (CHR ''}'' # r)"
  by (simp_all add: ends_def)

text \<open>An element of an array: undefined becomes null.\<close>

definition elem_text :: "jv \<Rightarrow> string" where
  "elem_text x = (case json_str x of Some t \<Rightarrow> t | None \<Rightarrow> ''null'')"

definition elem_image :: "jv \<Rightarrow> jv" where
  "elem_image x = (case json_image x of Some w \<Rightarrow> w | None \<Rightarrow> Null)"

text \<open>A value is read from its text in front of a separator, given as much fuel as it has characters.\<close>

definition readable :: "jv \<Rightarrow> bool" where
  "readable v \<longleftrightarrow> (\<forall>t n r. json_str v = Some t \<longrightarrow> length t \<le> n \<longrightarrow> ends r \<longrightarrow>
     (\<exists>w. json_image v = Some w \<and> json_value n (t @ r) = Some (w, r)))"

lemma json_word_append [simp]: "json_word w v (w @ r) = Some (v, r)"
  by (simp add: json_word_def)

lemma json_value_null: "4 \<le> n \<Longrightarrow> json_value n (''null'' @ r) = Some (Null, r)"
  using json_word_append [of "''null''" Null r] by (cases n) (simp_all add: json_space_def)

lemma json_str_None_iff: "json_str v = None \<longleftrightarrow> json_image v = None"
  by (cases v) simp_all

lemma elem_read:
  assumes "readable x" "length (elem_text x) \<le> n" "ends r"
  shows "json_value n (elem_text x @ r) = Some (elem_image x, r)"
proof (cases "json_str x")
  case None
  with assms json_value_null show ?thesis by (simp add: elem_text_def elem_image_def json_str_None_iff [THEN iffD1])
next
  case (Some t)
  with assms show ?thesis by (force simp: readable_def elem_text_def elem_image_def)
qed

lemma elems_read:
  assumes "xs \<noteq> []" "\<forall>x \<in> set xs. readable x" "length (join '','' (map elem_text xs)) < n"
  shows "json_elems n (join '','' (map elem_text xs) @ CHR '']'' # r) = Some (map elem_image xs, r)"
  using assms
proof (induction xs arbitrary: n rule: induct_list012)
  case 1
  then show ?case by simp
next
  case (2 x)
  then obtain m where n: "n = Suc m" "length (elem_text x) \<le> m" by (cases n) auto
  from elem_read [OF _ n(2), of "CHR '']'' # r"] 2 n(1) show ?case by simp
next
  case (3 x y zs)
  then obtain m where n: "n = Suc m" "length (elem_text x) \<le> m" "length (join '','' (map elem_text (y # zs))) < m"
    by (cases n) auto
  have "json_elems m (join '','' (map elem_text (y # zs)) @ CHR '']'' # r) = Some (map elem_image (y # zs), r)"
    using 3 n(3) by simp
  moreover have "json_value m (elem_text x @ CHR '','' # rest) = Some (elem_image x, CHR '','' # rest)" for rest
    using elem_read [OF _ n(2)] 3(4) by simp
  ultimately show ?case by (simp add: n(1))
qed

text \<open>The members of an object that have a text, with it and with what arrives.\<close>

definition kept :: "(string \<times> jv) list \<Rightarrow> (string \<times> jv \<times> string) list" where
  "kept ps = concat (map (\<lambda>p. case json_str (snd p) of
       Some t \<Rightarrow> [(fst p, the (json_image (snd p)), t)] | None \<Rightarrow> []) ps)"

definition member_text :: "string \<times> jv \<times> string \<Rightarrow> string" where
  "member_text m = json_quote (fst m) @ '':'' @ snd (snd m)"

lemma kept_texts:
  "map member_text (kept ps) = concat (map (\<lambda>p. case json_str (snd p) of
     Some t \<Rightarrow> [json_quote (fst p) @ '':'' @ t] | None \<Rightarrow> []) ps)"
  by (induction ps) (auto simp: kept_def member_text_def split: option.splits)

lemma json_image_Some: "json_str v = Some t \<Longrightarrow> \<exists>w. json_image v = Some w"
  using json_str_None_iff [of v] by (cases "json_image v") simp_all

lemma kept_images:
  "map (\<lambda>m. (fst m, fst (snd m))) (kept ps) = concat (map (\<lambda>p. case json_image (snd p) of
     Some w \<Rightarrow> [(fst p, w)] | None \<Rightarrow> []) ps)"
  by (induction ps) (auto simp: kept_def json_str_None_iff dest: json_image_Some split: option.splits)

text \<open>What reading a member takes.\<close>

definition member_ok :: "string \<times> jv \<times> string \<Rightarrow> bool" where
  "member_ok m \<longleftrightarrow> (\<exists>v. readable v \<and> json_str v = Some (snd (snd m)) \<and> json_image v = Some (fst (snd m)))"

lemma kept_ok:
  assumes "\<forall>p \<in> set ps. readable (snd p)" "m \<in> set (kept ps)"
  shows "member_ok m"
proof -
  from assms(2) obtain k v t where p: "(k, v) \<in> set ps" "json_str v = Some t" "m = (k, the (json_image v), t)"
    by (auto simp: kept_def split: option.splits)
  have "readable v" using assms(1) p(1) by force
  with p json_image_Some [OF p(2)] show ?thesis by (auto simp: member_ok_def)
qed

lemma member_read:
  assumes "member_ok m" "length (member_text m) \<le> n" "ends r"
  shows "\<exists>s. member_text m @ r = CHR 0x22 # s \<and>
    json_chars s = Some (fst m, CHR '':'' # snd (snd m) @ r) \<and>
    json_value n (snd (snd m) @ r) = Some (fst (snd m), r)"
proof -
  obtain k w t where m: "m = (k, w, t)" by (cases m)
  have "length t \<le> n" using assms(2) by (simp add: m member_text_def)
  with assms(1,3) m have "json_value n (t @ r) = Some (w, r)" by (force simp: member_ok_def readable_def)
  moreover have "member_text m @ r = CHR 0x22 # (concat (map json_escape k) @ CHR 0x22 # CHR '':'' # t @ r)"
    by (simp add: m member_text_def json_quote_def)
  ultimately show ?thesis using json_chars_escaped by (simp add: m)
qed

lemma members_read:
  assumes "ms \<noteq> []" "\<forall>m \<in> set ms. member_ok m" "length (join '','' (map member_text ms)) < n"
  shows "json_members n (join '','' (map member_text ms) @ CHR ''}'' # r) =
    Some (map (\<lambda>m. (fst m, fst (snd m))) ms, r)"
  using assms
proof (induction ms arbitrary: n rule: induct_list012)
  case 1
  then show ?case by simp
next
  case (2 m)
  then obtain l where n: "n = Suc l" "length (member_text m) \<le> l" by (cases n) auto
  obtain s where "member_text m @ CHR ''}'' # r = CHR 0x22 # s"
    "json_chars s = Some (fst m, CHR '':'' # snd (snd m) @ CHR ''}'' # r)"
    "json_value l (snd (snd m) @ CHR ''}'' # r) = Some (fst (snd m), CHR ''}'' # r)"
    using member_read [OF _ n(2), of "CHR ''}'' # r"] 2 by auto
  then show ?case by (simp add: n(1))
next
  case (3 m m' ms)
  let ?rest = "join '','' (map member_text (m' # ms)) @ CHR ''}'' # r"
  from 3 obtain l where n: "n = Suc l" "length (member_text m) \<le> l" "length (join '','' (map member_text (m' # ms))) < l"
    by (cases n) auto
  have IH: "json_members l ?rest = Some (map (\<lambda>m. (fst m, fst (snd m))) (m' # ms), r)"
    using 3 n(3) by simp
  obtain s where "member_text m @ CHR '','' # ?rest = CHR 0x22 # s"
    "json_chars s = Some (fst m, CHR '':'' # snd (snd m) @ CHR '','' # ?rest)"
    "json_value l (snd (snd m) @ CHR '','' # ?rest) = Some (fst (snd m), CHR '','' # ?rest)"
    using member_read [OF _ n(2), of "CHR '','' # ?rest"] 3(4) by auto
  with IH show ?case by (simp add: n(1))
qed

lemma json_value_start:
  "value_start c \<Longrightarrow> json_skip (c # cs) = c # cs \<and> take 1 (c # cs) \<noteq> '']'' \<and> take 1 (c # cs) \<noteq> ''}''"
  by (simp add: value_start_simps)

lemma join_start: "xs \<noteq> [] \<Longrightarrow> hd xs = c # cs \<Longrightarrow> \<exists>ds. join sep xs = c # ds"
  by (cases xs rule: list.exhaust; cases "tl xs") auto

lemma elem_start: "numbers_wf x \<Longrightarrow> \<exists>c cs. elem_text x = c # cs \<and> value_start c"
proof (cases "json_str x")
  case None
  then show ?thesis using value_start_chars(1) by (auto simp: elem_text_def)
next
  case (Some t)
  moreover assume "numbers_wf x"
  ultimately show ?thesis using json_str_start by (simp add: elem_text_def)
qed

lemma json_value_number:
  assumes "c \<in> set ''-0123456789''"
  shows "json_value (Suc n) (c # cs) = map_option (apfst Num) (json_number (c # cs))"
  using assms by (auto simp: json_space_def)

subsection \<open>Round trip\<close>

lemma read_array:
  assumes "\<forall>x \<in> set xs. readable x \<and> numbers_wf x" "json_str (Arr xs) = Some t" "length t \<le> n"
  shows "json_value n (t @ r) = Some (Arr (map elem_image xs), r)"
proof -
  have t: "t = ''['' @ join '','' (map elem_text xs) @ '']''"
    using assms(2) by (simp add: elem_text_def [abs_def])
  obtain m where n: "n = Suc m" "length (join '','' (map elem_text xs)) < m"
    using assms(3) by (cases n) (auto simp: t)
  show ?thesis
  proof (cases xs)
    case Nil
    then show ?thesis by (simp add: t n(1))
  next
    case (Cons x ys)
    obtain c cs where "elem_text x = c # cs" "value_start c"
      using elem_start [of x] assms(1) Cons by auto
    then obtain ds where ds: "join '','' (map elem_text xs) = c # ds"
      using join_start [of "map elem_text xs" c cs "'',''"] Cons by auto
    have "json_elems m (c # ds @ CHR '']'' # r) = Some (map elem_image xs, r)"
      using elems_read [of xs m r] assms(1) Cons n(2) ds by simp
    moreover have "json_skip (c # ds @ CHR '']'' # r) = c # ds @ CHR '']'' # r" "c \<noteq> CHR '']''"
      using value_start_simps [OF \<open>value_start c\<close>] by simp_all
    ultimately show ?thesis by (simp add: t n(1) ds)
  qed
qed

lemma read_object:
  assumes "\<forall>p \<in> set ps. readable (snd p)" "json_str (Obj ps) = Some t" "length t \<le> n"
  shows "json_value n (t @ r) = Some (build_obj (map (\<lambda>m. (fst m, fst (snd m))) (kept ps)), r)"
proof -
  have t: "t = ''{'' @ join '','' (map member_text (kept ps)) @ ''}''"
    using assms(2) by (simp only: json_str.simps kept_texts option.inject)
  obtain m where n: "n = Suc m" "length (join '','' (map member_text (kept ps))) < m"
    using assms(3) by (cases n) (auto simp: t)
  show ?thesis
  proof (cases "kept ps")
    case Nil
    then show ?thesis by (simp add: t n(1) build_obj_def)
  next
    case (Cons q qs)
    have "hd (map member_text (kept ps)) = CHR 0x22 # tl (member_text q)"
      by (simp add: Cons member_text_def json_quote_def)
    then obtain ds where ds: "join '','' (map member_text (kept ps)) = CHR 0x22 # ds"
      using join_start [of "map member_text (kept ps)" "CHR 0x22" "tl (member_text q)" "'',''"] Cons by force
    have "json_members m (CHR 0x22 # ds @ CHR ''}'' # r) = Some (map (\<lambda>m. (fst m, fst (snd m))) (kept ps), r)"
      using members_read [of "kept ps" m r] kept_ok [OF assms(1)] Cons n(2) ds by simp
    then show ?thesis by (simp add: t n(1) ds del: json_members.simps)
  qed
qed

lemma readable_number: "wf_number k \<Longrightarrow> readable (Num k)"
proof (cases "\<exists>x. k = Fin x")
  case True
  assume wf: "wf_number k"
  obtain x where k: "k = Fin x" using True by blast
  obtain c cs where t: "num_str (Fin x) = c # cs" "c \<in> set ''-0123456789''"
    using num_str_start wf unfolding k by blast
  show ?thesis unfolding readable_def
  proof (intro allI impI)
    fix t n r assume *: "json_str (Num k) = Some t" "length t \<le> n" "ends r"
    have tx: "t = num_str (Fin x)" using *(1) by (simp add: k del: num_str.simps)
    obtain m where n: "n = Suc m" using *(2) t(1) tx by (cases n) simp_all
    have "json_value n (t @ r) = map_option (apfst Num) (json_number (t @ r))"
      unfolding n tx t(1) append_Cons by (rule json_value_number [OF t(2)])
    with json_number_text [of x r] wf *(3) have "json_value n (t @ r) = Some (Num (Fin x), r)"
      unfolding tx k by simp
    then show "\<exists>w. json_image (Num k) = Some w \<and> json_value n (t @ r) = Some (w, r)" by (simp add: k)
  qed
next
  case False
  have z: "json_value n (''0'' @ r) = Some (Num (Fin 0), r)" if "1 \<le> n" "ends r" for n r
  proof -
    obtain m where n: "n = Suc m" using \<open>1 \<le> n\<close> by (cases n) simp_all
    have "wf_number (Fin 0)" using representable_int [of 0] by simp
    moreover have "num_str (Fin 0) = ''0''" by (simp add: rat_str_def nat_str.simps digit_char_def)
    ultimately have "json_number (''0'' @ r) = Some (Fin 0, r)" using json_number_text [of 0 r] that(2) by simp
    then show ?thesis using json_value_number [of "CHR ''0''" m r] unfolding n by simp
  qed
  show ?thesis
    using False z json_value_null by (cases k) (auto simp: readable_def simp del: json_value.simps)
qed

lemma json_readable: "numbers_wf v \<Longrightarrow> readable v"
proof (induction v)
  case (Num k)
  then show ?case by (simp add: readable_number)
next
  case Null
  then show ?case using json_value_null by (simp add: readable_def del: json_value.simps)
next
  case (Bool b)
  have "json_value n ((if b then ''true'' else ''false'') @ r) = Some (Bool b, r)" if "0 < n" for n r
    using that json_word_append [of "''true''" "Bool True" r] json_word_append [of "''false''" "Bool False" r]
    by (cases n) (auto simp: json_space_def)
  then show ?case by (auto simp: readable_def simp del: json_value.simps)
next
  case (Str s)
  have "json_value n (json_quote s @ r) = Some (Str s, r)" if "0 < n" for n r
    using that json_chars_escaped by (cases n) (simp_all add: json_quote_parts)
  then show ?case by (auto simp: readable_def json_quote_def)
next
  case (Arr xs)
  then have xs: "\<forall>x \<in> set xs. readable x \<and> numbers_wf x" by (simp add: list_all_iff)
  show ?case using read_array [OF xs] by (simp add: readable_def elem_image_def del: json_value.simps json_str.simps)
next
  case (Obj ps)
  then have "\<forall>p \<in> set ps. readable (snd p)" by (force simp: list_all_iff)
  from read_object [OF this] show ?case
    by (simp add: readable_def kept_images del: json_value.simps json_str.simps)
qed (simp_all add: readable_def)

text \<open>
  What \<open>JSON.stringify\<close> writes is read back: the reader accepts the text, and returns the
  value that arrives.
\<close>

lemma json_round_trip:
  assumes "numbers_wf v" "json_image v = Some w"
  shows "json_parse (stringify v) = Some w"
proof -
  obtain t where t: "json_str v = Some t" using assms(2) json_str_None_iff [of v] by fastforce
  with json_readable [OF assms(1)] have "json_value (length t) (t @ []) = Some (w, [])"
    using assms(2) unfolding readable_def by (metis ends_simps(1) option.inject order_refl)
  then show ?thesis by (simp add: json_parse_def stringify_def t)
qed

end
