(* ===== verification/StatsApi.thy ===== *)
theory StatsApi
  imports Client Json
begin

text \<open>
  \<open>nsjs/pages/stats-api.js\<close>: the JSON endpoint that the client polls. The functions of the
  server (\<open>ns.*\<close>, implemented in C++) are the fields of a record; what the script does is the
  list of its calls of \<open>ns.conn\<close>. The lemmas show that a request without the credentials gets
  the same answer whatever the statistics are, that the names of the cache counters are
  cleaned, and that the data of the endpoint has the shape on which the page relies.
\<close>

subsection \<open>The server\<close>

text \<open>\<open>ns_call f\<close> is the result of \<open>ns.f()\<close>.\<close>

record server_api =
  ns_config :: "jv \<Rightarrow> string \<Rightarrow> string \<Rightarrow> jv"
  ns_auth_user :: jv
  ns_auth_passwd :: jv
  ns_call :: "string \<Rightarrow> jv"
  ns_log_tail :: "nat \<Rightarrow> jv"

datatype conn_call =
    SetHeader string string
  | SetContentType string
  | ReturnHtml nat string

subsection \<open>Authentication\<close>

definition cfgSection :: "server_api \<Rightarrow> jv" where
  "cfgSection ns = js_add (js_add (Str ''ns/server/'') (ns_call ns ''info.serverName'')) (Str ''/module/nsjs'')"

definition authorised :: "server_api \<Rightarrow> bool" where
  "authorised ns \<longleftrightarrow>
     (let cfgUser = ns_config ns (cfgSection ns) ''stats_user'' ''nsadmin'';
          cfgPass = ns_config ns (cfgSection ns) ''stats_password'' ''''
      in \<not> (\<not> strict_eq (ns_auth_user ns) cfgUser \<or> \<not> strict_eq (ns_auth_passwd ns) cfgPass))"

subsection \<open>The data\<close>

text \<open>\<open>k.replace(/:$/, "")\<close>\<close>

definition strip_colon :: "string \<Rightarrow> string" where
  "strip_colon k = (if k \<noteq> [] \<and> last k = CHR '':'' then butlast k else k)"

text \<open>\<open>o[k] = v\<close>; the property \<open>__proto__\<close> is not an own property but sets the prototype.\<close>

definition js_put :: "string \<Rightarrow> jv \<Rightarrow> props \<Rightarrow> props" where
  "js_put k v ps = (if k = ''__proto__'' then ps else obj_put k v ps)"

definition clean_counters :: "jv \<Rightarrow> props" where
  "clean_counters s = foldl (\<lambda>c (k, v). js_put (strip_colon k) v c) [] (obj_entries s)"

definition clean_caches :: "jv \<Rightarrow> jv" where
  "clean_caches raw =
     Obj (foldl (\<lambda>out (name, s). js_put name (Obj (clean_counters s)) out) [] (obj_entries raw))"

definition api_info :: "server_api \<Rightarrow> jv" where
  "api_info ns = Obj
     [(''serverName'', ns_call ns ''info.serverName''), (''version'', ns_call ns ''info.version''),
      (''uptime'', ns_call ns ''info.uptime''), (''boottime'', ns_call ns ''info.boottime''),
      (''pid'', ns_call ns ''info.pid''), (''hostname'', ns_call ns ''info.hostname''),
      (''address'', ns_call ns ''info.address''), (''pageroot'', ns_call ns ''info.pageroot''),
      (''platform'', ns_call ns ''info.platform''), (''buildDate'', ns_call ns ''info.buildDate'')]"

definition api_server :: "server_api \<Rightarrow> jv" where
  "api_server ns = Obj
     [(''threads'', ns_call ns ''server.threads''), (''active'', ns_call ns ''server.active''),
      (''queued'', ns_call ns ''server.queued''), (''waiting'', ns_call ns ''server.waiting''),
      (''keepalive'', ns_call ns ''server.keepalive''), (''connections'', ns_call ns ''server.connections''),
      (''pools'', ns_call ns ''server.pools''), (''urlstats'', ns_call ns ''server.urlstats'')]"

definition api_data :: "server_api \<Rightarrow> jv" where
  "api_data ns = Obj
     [(''info'', api_info ns), (''jsStats'', ns_call ns ''js.stats.global''),
      (''memory'', ns_call ns ''memory.stats''), (''server'', api_server ns),
      (''drivers'', ns_call ns ''driver.list''), (''http2'', ns_call ns ''http2.stats''),
      (''http3'', ns_call ns ''http3.stats''), (''locks'', ns_call ns ''info.locks''),
      (''threads'', ns_call ns ''info.threads''), (''scheduled'', ns_call ns ''info.scheduled''),
      (''callbacks'', ns_call ns ''info.callbacks''),
      (''caches'', clean_caches (ns_call ns ''cache.statsAll'')),
      (''adpStats'', ns_call ns ''adp.stats''), (''sockcallbacks'', ns_call ns ''info.sockcallbacks''),
      (''logTail'', ns_log_tail ns 8192), (''memorySizeClasses'', ns_call ns ''memory.sizeClasses'')]"

definition realm :: string where
  "realm = ''Basic realm='' @ [CHR 0x22] @ ''AOLserver Stats'' @ [CHR 0x22]"

definition stats_api :: "server_api \<Rightarrow> conn_call list" where
  "stats_api ns =
     (if \<not> authorised ns
      then [SetHeader ''WWW-Authenticate'' realm, SetContentType ''application/json'',
            ReturnHtml 401 (stringify (Obj [(''error'', Str ''Unauthorized'')]))]
      else [SetContentType ''application/json'', ReturnHtml 200 (stringify (api_data ns))])"

subsection \<open>Access\<close>

text \<open>
  The endpoint reveals nothing without the credentials: two requests that lack them
  get the same answer, whatever the state of the two servers, and the answer is a 401.
\<close>

theorem unauthorised_reveals_nothing:
  assumes "\<not> authorised a" "\<not> authorised b"
  shows "stats_api a = stats_api b \<and> (\<forall>n s. ReturnHtml n s \<in> set (stats_api a) \<longrightarrow> n = 401)"
  using assms by (simp add: stats_api_def)

definition locked_server :: "jv \<Rightarrow> server_api" where
  "locked_server secret =
     \<lparr>ns_config = (\<lambda>sec key d. if key = ''stats_password'' then Str ''pw'' else Str d),
      ns_auth_user = Str ''nsadmin'', ns_auth_passwd = Null,
      ns_call = (\<lambda>f. secret), ns_log_tail = (\<lambda>n. secret)\<rparr>"

lemma unauthorised_reveals_nothing_witness:
  "stats_api (locked_server (Str ''a'')) = stats_api (locked_server (Str ''b'')) \<and>
   ReturnHtml 200 (stringify (api_data (locked_server (Str ''a'')))) \<notin> set (stats_api (locked_server (Str ''a'')))"
proof -
  have "\<not> authorised (locked_server (Str s))" for s by (simp add: authorised_def locked_server_def)
  from unauthorised_reveals_nothing [OF this this] show ?thesis by fastforce
qed

text \<open>
  Without configuration the endpoint is open to an empty password: when the
  configuration gives the defaults, exactly the user \<open>nsadmin\<close> with an empty password gets the
  data.
\<close>

theorem default_credentials:
  assumes "\<forall>sec key d. ns_config ns sec key d = Str d"
  shows "ReturnHtml 200 (stringify (api_data ns)) \<in> set (stats_api ns) \<longleftrightarrow>
    ns_auth_user ns = Str ''nsadmin'' \<and> ns_auth_passwd ns = Str ''''"
  using assms by (simp add: stats_api_def authorised_def)

text \<open>A server without configuration, at rest, with the given log.\<close>

definition open_server :: "string \<Rightarrow> server_api" where
  "open_server text =
     \<lparr>ns_config = (\<lambda>sec key d. Str d), ns_auth_user = Str ''nsadmin'', ns_auth_passwd = Str '''',
      ns_call = (\<lambda>f. Null), ns_log_tail = (\<lambda>n. Str text)\<rparr>"

lemma default_credentials_witness:
  "ReturnHtml 200 (stringify (api_data (open_server ''''))) \<in> set (stats_api (open_server ''''))"
  by (subst default_credentials) (simp_all add: open_server_def)

subsection \<open>Cache counters\<close>

lemma lookup_js_put:
  "lookup (js_put k v ps) l = (if l = k \<and> k \<noteq> ''__proto__'' then v else lookup ps l)"
  by (simp add: js_put_def)

lemma lookup_puts:
  assumes "distinct (map f xs)" "x \<in> set xs" "f x \<noteq> ''__proto__''"
  shows "lookup (foldl (\<lambda>c y. js_put (f y) (g y) c) ps xs) (f x) = g x"
  using assms
proof (induction xs arbitrary: ps rule: rev_induct)
  case Nil
  then show ?case by simp
next
  case (snoc y xs)
  have "f x \<noteq> f y" if "x \<noteq> y"
    using snoc.prems(1,2) that by (auto simp: image_iff)
  with snoc show ?case by (cases "x = y") (auto simp: lookup_js_put)
qed

lemma lookup_puts_other:
  "l \<notin> f ` set xs \<Longrightarrow> lookup (foldl (\<lambda>c y. js_put (f y) (g y) c) ps xs) l = lookup ps l"
  by (induction xs rule: rev_induct) (simp_all add: lookup_js_put)

lemma clean_counters_fold:
  "clean_counters s = foldl (\<lambda>c y. js_put (strip_colon (fst y)) (snd y) c) [] (obj_entries s)"
  by (simp add: clean_counters_def split_def)

lemma clean_caches_fold:
  "clean_caches raw = Obj (foldl (\<lambda>c y. js_put (fst y) (Obj (clean_counters (snd y))) c) [] (obj_entries raw))"
  by (simp add: clean_caches_def split_def)

text \<open>
  The counters of a cache are found under their clean names: for caches with distinct
  names each counter is readable under its name without a final colon, and no other counter is
  made up.
\<close>

theorem cache_counters_cleaned:
  assumes "distinct (map fst cs)" "(name, Obj s) \<in> set cs" "name \<noteq> ''__proto__''"
    and "distinct (map (\<lambda>p. strip_colon (fst p)) s)" "''__proto__'' \<notin> (\<lambda>p. strip_colon (fst p)) ` set s"
  shows "\<exists>c. opt_get (clean_caches (Obj cs)) name = Obj c \<and>
    (\<forall>(k, v) \<in> set s. lookup c (strip_colon k) = v) \<and>
    (\<forall>l. l \<notin> (\<lambda>p. strip_colon (fst p)) ` set s \<longrightarrow> lookup c l = Undef)"
proof -
  have "opt_get (clean_caches (Obj cs)) name = Obj (clean_counters (Obj s))"
    using lookup_puts [of fst cs "(name, Obj s)" "\<lambda>y. Obj (clean_counters (snd y))" "[]"] assms(1-3)
    by (simp add: clean_caches_fold obj_entries_def)
  moreover have "\<forall>(k, v) \<in> set s. lookup (clean_counters (Obj s)) (strip_colon k) = v"
  proof (rule ballI, clarify)
    fix k v assume kv: "(k, v) \<in> set s"
    then have "strip_colon k \<noteq> ''__proto__''" using assms(5) by force
    with lookup_puts [OF assms(4) kv, of snd "[]"] show "lookup (clean_counters (Obj s)) (strip_colon k) = v"
      by (simp add: clean_counters_fold obj_entries_def)
  qed
  moreover have "\<forall>l. l \<notin> (\<lambda>p. strip_colon (fst p)) ` set s \<longrightarrow> lookup (clean_counters (Obj s)) l = Undef"
    using lookup_puts_other [where f = "\<lambda>p. strip_colon (fst p)" and xs = s and g = snd and ps = "[]"]
    by (simp add: clean_counters_fold obj_entries_def)
  ultimately show ?thesis by blast
qed

lemma cache_counters_cleaned_witness:
  "\<exists>c. opt_get (clean_caches (Obj [(''adp'', Obj [(''hits:'', Num (Fin 3)), (''size'', Num (Fin 9))])])) ''adp'' = Obj c \<and>
    lookup c ''hits'' = Num (Fin 3) \<and> lookup c ''size'' = Num (Fin 9) \<and> lookup c ''hits:'' = Undef"
proof -
  have "\<exists>c. opt_get (clean_caches (Obj [(''adp'', Obj [(''hits:'', Num (Fin 3)), (''size'', Num (Fin 9))])])) ''adp'' = Obj c \<and>
    (\<forall>(k, v) \<in> set [(''hits:'', Num (Fin 3)), (''size'', Num (Fin 9))]. lookup c (strip_colon k) = v) \<and>
    (\<forall>l. l \<notin> (\<lambda>p. strip_colon (fst p)) ` set [(''hits:'', Num (Fin 3)), (''size'', Num (Fin 9))] \<longrightarrow> lookup c l = Undef)"
    by (rule cache_counters_cleaned) (simp_all add: strip_colon_def)
  then obtain c where c: "opt_get (clean_caches (Obj [(''adp'', Obj [(''hits:'', Num (Fin 3)), (''size'', Num (Fin 9))])])) ''adp'' = Obj c"
    and vals: "\<forall>(k, v) \<in> set [(''hits:'', Num (Fin 3)), (''size'', Num (Fin 9))]. lookup c (strip_colon k) = v"
    and other: "\<forall>l. l \<notin> (\<lambda>p. strip_colon (fst p)) ` set [(''hits:'', Num (Fin 3)), (''size'', Num (Fin 9))] \<longrightarrow> lookup c l = Undef"
    by blast
  from vals have "lookup c ''hits'' = Num (Fin 3)" "lookup c ''size'' = Num (Fin 9)"
    by (simp_all add: strip_colon_def)
  moreover have "lookup c ''hits:'' = Undef"
    by (rule other [rule_format]) (simp add: strip_colon_def)
  ultimately show ?thesis using c by blast
qed

subsection \<open>The shape of the data\<close>

text \<open>
  What the functions of the server return: scalars, flat objects, and lists or tables of them.
\<close>

definition documented_shapes :: "server_api \<Rightarrow> bool" where
  "documented_shapes ns \<longleftrightarrow> (let f = ns_call ns in
     list_all (\<lambda>k. scalar (f k))
       [''info.serverName'', ''info.version'', ''info.uptime'', ''info.boottime'', ''info.pid'',
        ''info.hostname'', ''info.address'', ''info.pageroot'', ''info.platform'', ''info.buildDate'',
        ''server.active'', ''server.queued'', ''server.waiting'', ''server.keepalive'', ''server.connections''] \<and>
     list_all (\<lambda>k. flat_opt (f k)) [''js.stats.global'', ''server.threads''] \<and>
     list_all (\<lambda>k. flat_list (f k))
       [''memory.sizeClasses'', ''server.urlstats'', ''info.locks'', ''info.threads'', ''info.scheduled'', ''adp.stats''] \<and>
     list_all (\<lambda>k. scalar_list (f k)) [''server.pools'', ''driver.list''] \<and>
     flat_table (f ''cache.statsAll'') \<and> scalar (ns_log_tail ns 8192))"

lemma all_props_obj_insert:
  "list_all (\<lambda>(k, w). P w) ps \<Longrightarrow> P v \<Longrightarrow> list_all (\<lambda>(k, w). P w) (obj_insert k v ps)"
  by (induction ps) auto

lemma all_props_obj_put:
  assumes "list_all (\<lambda>(k, w). P w) ps" "P v"
  shows "list_all (\<lambda>(k, w). P w) (obj_put k v ps)"
proof (cases "k \<in> fst ` set ps")
  case True
  have "list_all (\<lambda>(k, w). P w) (map (\<lambda>(l, w). if l = k then (l, v) else (l, w)) ps)"
    using assms by (induction ps) (auto split: if_splits)
  with True show ?thesis by (simp add: obj_put_def)
next
  case False
  with all_props_obj_insert [OF assms] show ?thesis by (simp add: obj_put_def)
qed

lemma all_props_js_put:
  "list_all (\<lambda>(k, w). P w) ps \<Longrightarrow> P v \<Longrightarrow> list_all (\<lambda>(k, w). P w) (js_put k v ps)"
  by (simp add: js_put_def all_props_obj_put)

lemma all_props_puts:
  "\<forall>x \<in> set xs. P (g x) \<Longrightarrow> list_all (\<lambda>(k, w). P w) ps \<Longrightarrow>
     list_all (\<lambda>(k, w). P w) (foldl (\<lambda>c y. js_put (f y) (g y) c) ps xs)"
  by (induction xs arbitrary: ps) (simp_all add: all_props_js_put)

lemma clean_counters_flat: "flat s \<Longrightarrow> flat (Obj (clean_counters s))"
proof -
  assume "flat s"
  then have "\<forall>y \<in> set (obj_entries s). scalar (snd y)"
    by (auto simp: flat_def obj_entries_def list_all_iff split: jv.splits)
  from all_props_puts [where P = scalar and ps = "[]" and f = "\<lambda>y. strip_colon (fst y)", OF this]
  show ?thesis by (simp add: flat_def clean_counters_fold)
qed

lemma clean_caches_flat: "flat_table raw \<Longrightarrow> flat_table (clean_caches raw)"
proof -
  assume raw: "flat_table raw"
  have "flat s" if "(n, s) \<in> set (obj_entries raw)" for n s
    using raw that by (auto simp: flat_table_def obj_entries_def list_all_iff nullish_def split: jv.splits)
  then have "\<forall>y \<in> set (obj_entries raw). flat (Obj (clean_counters (snd y)))"
    using clean_counters_flat by auto
  from all_props_puts [where P = flat and ps = "[]" and f = fst, OF this] show ?thesis
    by (simp add: flat_table_def clean_caches_fold)
qed

lemma valid_drivers_list: "scalar_list v \<Longrightarrow> valid_drivers v"
  by (auto simp: scalar_list_def valid_drivers_def nullish_def split: jv.splits)

text \<open>The endpoint and the page agree on the data.\<close>

lemma api_data_valid: "documented_shapes ns \<Longrightarrow> valid_data (api_data ns)"
  by (simp add: valid_data_def documented_shapes_def Let_def api_data_def api_info_def api_server_def
      valid_server_def valid_drivers_list flat_opt_def flat_def clean_caches_flat)

lemma open_server_shapes: "documented_shapes (open_server l)"
  by (simp add: documented_shapes_def open_server_def flat_opt_def flat_list_def flat_table_def scalar_list_def)

end
