(* ===== verification/JsAdp.thy ===== *)
theory JsAdp
  imports Prelude "HOL-Library.Sublist"
begin

text \<open>
  \<open>CompileJsAdp\<close> and \<open>AppendEscapedHtml\<close> of \<open>nsjs/nsjs.cc\<close>: the compiler that makes a script of
  a template such as \<open>stats.jsadp\<close>. Static text becomes a call of \<open>ns.conn.write\<close>, code between
  the tags is copied and an expression is written as a string. The lemmas relate the loop over
  positions to a reader of templates as lists of segments, show that nothing of the template is
  lost, and that the script prints the static text byte for byte.
\<close>

subsection \<open>Strings of C++\<close>

text \<open>The first position of a word, \<open>s.find(w, pos)\<close> and \<open>s.substr(pos, n)\<close>.\<close>

fun index_of :: "string \<Rightarrow> string \<Rightarrow> nat option" where
  "index_of w [] = (if w = [] then Some 0 else None)"
| "index_of w (c # s) = (if prefix w (c # s) then Some 0 else map_option Suc (index_of w s))"

definition string_find :: "string \<Rightarrow> string \<Rightarrow> nat \<Rightarrow> nat option" where
  "string_find s w pos =
     (if pos \<le> length s then map_option (\<lambda>k. pos + k) (index_of w (drop pos s)) else None)"

definition substr :: "string \<Rightarrow> nat \<Rightarrow> nat \<Rightarrow> string" where
  "substr s pos n = take n (drop pos s)"

lemma index_of_Some: "index_of w s = Some k \<Longrightarrow> s = take k s @ w @ drop (k + length w) s"
proof (induction w s arbitrary: k rule: index_of.induct)
  case (1 w)
  then show ?case by (simp split: if_splits)
next
  case (2 w c s)
  show ?case
  proof (cases "prefix w (c # s)")
    case True
    with 2 show ?thesis by (auto simp: prefix_def split: if_splits)
  next
    case False
    with 2 show ?thesis by auto
  qed
qed

lemma index_of_le: "index_of w s = Some k \<Longrightarrow> k + length w \<le> length s"
  by (induction w s arbitrary: k rule: index_of.induct) (auto split: if_splits dest: prefix_length_le)

lemma index_of_None_iff: "index_of w s = None \<longleftrightarrow> \<not> sublist w s"
  by (induction w s rule: index_of.induct) (auto simp: sublist_Cons_right)

lemma index_of_skip:
  "(\<And>i. i < length p \<Longrightarrow> \<not> prefix w (drop i (p @ s))) \<Longrightarrow>
     index_of w (p @ s) = map_option (\<lambda>k. length p + k) (index_of w s)"
proof (induction p)
  case Nil
  then show ?case by (simp add: option.map_ident)
next
  case (Cons c p)
  have "\<not> prefix w (c # p @ s)"
    using Cons.prems [of 0] by simp
  moreover have "index_of w (p @ s) = map_option (\<lambda>k. length p + k) (index_of w s)"
    using Cons.prems [of "Suc _"] by (intro Cons.IH) simp
  ultimately show ?case
    by (simp add: option.map_comp o_def)
qed

text \<open>
  A tag is a word of two different characters; the first one after a text without
  tags stands at the end of the text.
\<close>

lemma prefix_pair: "prefix [a, b] s \<longleftrightarrow> (\<exists>r. s = a # b # r)"
  by (auto simp: prefix_def)

lemma index_of_tag:
  assumes "a \<noteq> b" "\<not> sublist [a, b] p"
  shows "index_of [a, b] (p @ a # b # q) = Some (length p)"
  using assms(2)
proof (induction p)
  case Nil
  then show ?case by simp
next
  case (Cons c p)
  have "\<not> prefix [a, b] (c # p @ a # b # q)"
    using Cons.prems assms(1) by (cases p) (auto simp: sublist_Cons_right)
  with Cons show ?case by (simp add: sublist_Cons_right)
qed

lemma index_of_first: "index_of w s = Some k \<Longrightarrow> w \<noteq> [] \<Longrightarrow> \<not> sublist w (take k s)"
proof (induction w s arbitrary: k rule: index_of.induct)
  case (1 w)
  then show ?case by simp
next
  case (2 w c s)
  show ?case
  proof (cases "prefix w (c # s)")
    case True
    with 2 show ?thesis by simp
  next
    case False
    with 2 obtain j where j: "index_of w s = Some j" "k = Suc j" by auto
    have "\<not> prefix w (c # take j s)"
      using False by (metis prefix_order.trans take_is_prefix take_Suc_Cons)
    with 2 False j show ?thesis by (simp add: sublist_Cons_right)
  qed
qed


subsection \<open>The compiler\<close>

definition newline :: char where
  "newline = CHR 0x0A"

text \<open>The text that stands for a character inside the literal of a write statement.\<close>

definition escape_html :: "char \<Rightarrow> string" where
  "escape_html c =
     (if c = CHR 0x5C then [CHR 0x5C, CHR 0x5C]
      else if c = CHR 0x22 then [CHR 0x5C, CHR 0x22]
      else if c = CHR 0x0A then [CHR 0x5C, CHR ''n'']
      else if c = CHR 0x0D then [CHR 0x5C, CHR ''r'']
      else [c])"

definition AppendEscapedHtml :: "string \<Rightarrow> string \<Rightarrow> string" where
  "AppendEscapedHtml out seg =
     out @ ''ns.conn.write('' @ [CHR 0x22] @ concat (map escape_html seg) @ [CHR 0x22] @ '');'' @ [newline]"

text \<open>One iteration per tag; \<open>compile_loop source pos out\<close> is the loop at position \<open>pos\<close>.\<close>

function compile_loop :: "string \<Rightarrow> nat \<Rightarrow> string \<Rightarrow> string" where
  "compile_loop source pos out =
     (if pos < length source then
        (case string_find source ''<%'' pos of
           None \<Rightarrow>
             (let seg = drop pos source
              in if seg \<noteq> [] then AppendEscapedHtml out seg else out)
         | Some tag \<Rightarrow>
             (let out = (if pos < tag then AppendEscapedHtml out (substr source pos (tag - pos)) else out);
                  isExpr = (tag + 2 < length source \<and> source ! (tag + 2) = CHR ''='');
                  codeStart = tag + (if isExpr then 3 else 2)
              in case string_find source ''%>'' codeStart of
                   None \<Rightarrow> out @ drop codeStart source
                 | Some endpos \<Rightarrow>
                     (let block = substr source codeStart (endpos - codeStart)
                      in compile_loop source (endpos + 2)
                           (if isExpr then out @ ''ns.conn.write(String('' @ block @ ''));'' @ [newline]
                            else out @ block @ [newline]))))
      else out)"
  by pat_completeness auto

lemma string_find_ge: "string_find s w pos = Some k \<Longrightarrow> pos \<le> k"
  by (auto simp: string_find_def split: if_splits)

termination compile_loop
  by (relation "measure (\<lambda>(source, pos, _). length source - pos)")
    (auto split: if_splits dest!: string_find_ge)

definition CompileJsAdp :: "string \<Rightarrow> string" where
  "CompileJsAdp source = compile_loop source 0 []"

declare compile_loop.simps [simp del]

subsection \<open>Templates as segments\<close>

text \<open>
  A template is static text, blocks of code and expressions; the last block may lack its
  closing tag.
\<close>

datatype segment =
    Static string
  | Code string
  | Expr string
  | OpenCode string
  | OpenExpr string

primrec source_of :: "segment \<Rightarrow> string" where
  "source_of (Static t) = t"
| "source_of (Code c) = ''<%'' @ c @ ''%>''"
| "source_of (Expr e) = ''<%='' @ e @ ''%>''"
| "source_of (OpenCode c) = ''<%'' @ c"
| "source_of (OpenExpr e) = ''<%='' @ e"

definition template_source :: "segment list \<Rightarrow> string" where
  "template_source ts = concat (map source_of ts)"

primrec emit :: "segment \<Rightarrow> string" where
  "emit (Static t) = AppendEscapedHtml [] t"
| "emit (Code c) = c @ [newline]"
| "emit (Expr e) = ''ns.conn.write(String('' @ e @ ''));'' @ [newline]"
| "emit (OpenCode c) = c"
| "emit (OpenExpr e) = e"

text \<open>The reader of templates.\<close>

function segments :: "string \<Rightarrow> segment list" where
  "segments s =
     (if s = [] then []
      else case index_of ''<%'' s of
        None \<Rightarrow> [Static s]
      | Some t \<Rightarrow>
          (if 0 < t then [Static (take t s)] else []) @
          (let r = drop (t + 2) s
           in if prefix ''='' r
              then (case index_of ''%>'' (tl r) of
                  None \<Rightarrow> [OpenExpr (tl r)]
                | Some e \<Rightarrow> Expr (take e (tl r)) # segments (drop (e + 2) (tl r)))
              else (case index_of ''%>'' r of
                  None \<Rightarrow> [OpenCode r]
                | Some e \<Rightarrow> Code (take e r) # segments (drop (e + 2) r))))"
  by pat_completeness auto

termination segments
  by (relation "measure length") auto

declare segments.simps [simp del]

fun wf_template :: "segment list \<Rightarrow> bool" where
  "wf_template [] = True"
| "wf_template (Static t # ts) \<longleftrightarrow>
     t \<noteq> [] \<and> \<not> sublist ''<%'' t \<and> wf_template ts \<and> (case ts of Static u # us \<Rightarrow> False | _ \<Rightarrow> True)"
| "wf_template (Code c # ts) \<longleftrightarrow> \<not> prefix ''='' c \<and> \<not> sublist ''%>'' c \<and> wf_template ts"
| "wf_template (Expr e # ts) \<longleftrightarrow> \<not> sublist ''%>'' e \<and> wf_template ts"
| "wf_template (OpenCode c # ts) \<longleftrightarrow> \<not> prefix ''='' c \<and> \<not> sublist ''%>'' c \<and> ts = []"
| "wf_template (OpenExpr e # ts) \<longleftrightarrow> \<not> sublist ''%>'' e \<and> ts = []"

subsection \<open>The compiler and the reader\<close>

lemma AppendEscapedHtml_out: "AppendEscapedHtml out seg = out @ AppendEscapedHtml [] seg"
  by (simp add: AppendEscapedHtml_def)

lemma index_of_Nil_tag [simp]: "index_of (a # w) [] = None"
  by simp

lemma nth_prefix: "(k < length s \<and> s ! k = c) \<longleftrightarrow> prefix [c] (drop k s)"
proof (cases "k < length s")
  case True
  then have "drop k s = s ! k # drop (Suc k) s" by (simp only: Cons_nth_drop_Suc)
  with True show ?thesis by (simp add: eq_commute)
qed simp

text \<open>A template that begins with static text and a block.\<close>

lemma segments_tag:
  assumes "index_of ''<%'' s = Some t" "r = drop (t + 2) s" "isExpr = prefix ''='' r"
    and b: "b = (if isExpr then tl r else r)"
  shows "segments s = (if 0 < t then [Static (take t s)] else []) @ (case index_of ''%>'' b of
      None \<Rightarrow> [if isExpr then OpenExpr b else OpenCode b]
    | Some e \<Rightarrow> (if isExpr then Expr (take e b) else Code (take e b)) # segments (drop (e + 2) b))"
proof -
  from assms(1) have "s \<noteq> []" by auto
  with assms show ?thesis by (simp add: segments.simps [of s] Let_def split: option.splits)
qed

lemma segments_Nil [simp]: "segments [] = []"
  by (simp add: segments.simps [of "[]"])

lemma segments_text: "\<not> sublist ''<%'' s \<Longrightarrow> s \<noteq> [] \<Longrightarrow> segments s = [Static s]"
  by (simp add: segments.simps [of s] index_of_None_iff [THEN iffD2])

text \<open>The compiler's loop emits the segments of the rest of the source.\<close>

lemma compile_loop_segments:
  "pos \<le> length source \<Longrightarrow> compile_loop source pos out = out @ concat (map emit (segments (drop pos source)))"
proof (induction source pos out rule: compile_loop.induct)
  case (1 source pos out)
  let ?s = "drop pos source"
  consider "pos = length source" | "pos < length source" "index_of ''<%'' ?s = None"
    | t where "pos < length source" "index_of ''<%'' ?s = Some t"
    using 1(2) by fastforce
  then show ?case
  proof cases
    case 1
    then show ?thesis by (simp add: compile_loop.simps [of source] segments.simps [of "[]"])
  next
    case 2
    then show ?thesis
      by (simp add: compile_loop.simps [of source pos] segments.simps [of ?s] AppendEscapedHtml_out [of out]
          string_find_def)
  next
    case (3 t)
    then have tag: "string_find source ''<%'' pos = Some (pos + t)" by (simp add: string_find_def)
    from index_of_le [OF 3(2)] 3(1) have le: "pos + t + 2 \<le> length source" by simp
    define out' where "out' = (if pos < pos + t then AppendEscapedHtml out (substr source pos (pos + t - pos)) else out)"
    define isExpr where "isExpr = (pos + t + 2 < length source \<and> source ! (pos + t + 2) = CHR ''='')"
    define cs where "cs = pos + t + (if isExpr then 3 else 2)"
    define b where "b = drop cs source"
    have cs: "cs \<le> length source" using le by (auto simp: cs_def isExpr_def)
    have r: "drop (t + 2) ?s = drop (pos + t + 2) source" by (simp add: ac_simps)
    have tl: "tl (drop (pos + t + 2) source) = drop (pos + t + 3) source"
      by (simp add: tl_drop drop_Suc [symmetric] numeral_eq_Suc)
    have b: "b = (if isExpr then tl (drop (t + 2) ?s) else drop (t + 2) ?s)"
      unfolding r tl b_def cs_def by simp
    note segs = segments_tag [OF 3(2) refl isExpr_def [unfolded nth_prefix, folded r] b]
    have out': "out' = out @ concat (map emit (if 0 < t then [Static (take t ?s)] else []))"
      by (simp add: out'_def substr_def AppendEscapedHtml_out [of out])
    have find: "string_find source ''%>'' cs = map_option (\<lambda>k. cs + k) (index_of ''%>'' b)"
      using cs by (simp add: string_find_def b_def)
    have loop: "compile_loop source pos out = (case string_find source ''%>'' cs of
        None \<Rightarrow> out' @ b
      | Some endpos \<Rightarrow> (let block = substr source cs (endpos - cs)
          in compile_loop source (endpos + 2)
               (if isExpr then out' @ ''ns.conn.write(String('' @ block @ ''));'' @ [newline]
                else out' @ block @ [newline])))"
      by (subst compile_loop.simps)
        (simp only: 3(1) tag if_True option.case Let_def out'_def cs_def isExpr_def b_def)
    show ?thesis
    proof (cases "index_of ''%>'' b")
      case None
      then have "string_find source ''%>'' cs = None" by (simp add: find)
      then show ?thesis unfolding loop segs out' None by simp
    next
      case (Some e)
      then have found: "string_find source ''%>'' cs = Some (cs + e)" by (simp add: find)
      from index_of_le [OF Some] cs have le2: "cs + e + 2 \<le> length source" by (simp add: b_def)
      have sub: "substr source cs (cs + e - cs) = take e b" by (simp add: b_def substr_def)
      have rest: "drop (cs + e + 2) source = drop (e + 2) b" by (simp add: b_def ac_simps)
      note "1.IH" [OF 3(1) tag out'_def isExpr_def cs_def found refl le2, unfolded sub rest]
      with found show ?thesis
        unfolding loop segs Some by (simp only: option.case Let_def sub) (simp add: out')
    qed
  qed
qed

lemma CompileJsAdp_segments: "CompileJsAdp source = concat (map emit (segments source))"
  by (simp add: CompileJsAdp_def compile_loop_segments)

text \<open>The segments of a source are a template with that source.\<close>

lemma template_source_simps [simp]:
  "template_source [] = []" "template_source (t # ts) = source_of t @ template_source ts"
  by (simp_all add: template_source_def)

lemma template_source_append [simp]: "template_source (ts @ us) = template_source ts @ template_source us"
  by (simp add: template_source_def)

lemma template_source_segments: "template_source (segments s) = s"
proof (induction s rule: segments.induct)
  case (1 s)
  consider "s = []" | "s \<noteq> []" "index_of ''<%'' s = None" | t where "index_of ''<%'' s = Some t" by fastforce
  then show ?case
  proof cases
    case (3 t)
    define r where "r = drop (t + 2) s"
    define isExpr where "isExpr = prefix ''='' r"
    define b where "b = (if isExpr then tl r else r)"
    have s: "s = take t s @ ''<%'' @ r"
      using index_of_Some [OF 3] by (simp add: r_def)
    have r: "r = (if isExpr then ''='' else []) @ b"
      by (cases r) (auto simp: b_def isExpr_def)
    have "template_source (case index_of ''%>'' b of
        None \<Rightarrow> [if isExpr then OpenExpr b else OpenCode b]
      | Some e \<Rightarrow> (if isExpr then Expr (take e b) else Code (take e b)) # segments (drop (e + 2) b)) = ''<%'' @ r"
    proof (cases "index_of ''%>'' b")
      case None
      then show ?thesis by (subst r) simp
    next
      case (Some e)
      from 3 have "s \<noteq> []" by auto
      have "template_source (segments (drop (e + 2) b)) = drop (e + 2) b"
        using "1.IH" [OF \<open>s \<noteq> []\<close> 3 r_def] Some by (cases isExpr) (simp_all add: isExpr_def b_def)
      moreover have "b = take e b @ ''%>'' @ drop (e + 2) b" using index_of_Some [OF Some] by simp
      ultimately show ?thesis by (subst r) (simp add: Some)
    qed
    with segments_tag [OF 3 r_def isExpr_def b_def] show ?thesis
      by (subst (2) s) simp
  qed (simp_all add: segments.simps [of s])
qed

lemma wf_block:
  assumes "\<not> prefix ''='' r" "index_of ''%>'' r = Some e"
  shows "\<not> prefix ''='' (take e r)"
  using assms(1) by (meson prefix_order.trans take_is_prefix)

lemma wf_template_static: "wf_template (Static t # b # ts) \<longleftrightarrow>
    t \<noteq> [] \<and> \<not> sublist ''<%'' t \<and> wf_template (b # ts) \<and> (\<forall>u. b \<noteq> Static u)"
  by (cases b) simp_all

lemma wf_template_segments: "wf_template (segments s)"
proof (induction s rule: segments.induct)
  case (1 s)
  consider "s = []" | "s \<noteq> []" "\<not> sublist ''<%'' s" | t where "index_of ''<%'' s = Some t"
    using index_of_None_iff by blast
  then show ?case
  proof cases
    case (3 t)
    define r where "r = drop (t + 2) s"
    define isExpr where "isExpr = prefix ''='' r"
    define b where "b = (if isExpr then tl r else r)"
    from 3 have ne: "s \<noteq> []" by auto
    obtain x xs where *: "(case index_of ''%>'' b of
        None \<Rightarrow> [if isExpr then OpenExpr b else OpenCode b]
      | Some e \<Rightarrow> (if isExpr then Expr (take e b) else Code (take e b)) # segments (drop (e + 2) b)) = x # xs"
      and wf: "wf_template (x # xs)" and "\<forall>u. x \<noteq> Static u"
    proof (cases "index_of ''%>'' b")
      case None
      then have "\<not> sublist ''%>'' b" by (simp add: index_of_None_iff)
      with None that show ?thesis by (cases isExpr) (simp_all add: isExpr_def b_def)
    next
      case (Some e)
      have "wf_template (segments (drop (e + 2) b))"
        using "1.IH" [OF ne 3 r_def] Some by (cases isExpr) (simp_all add: isExpr_def b_def)
      moreover have "\<not> sublist ''%>'' (take e b)" using index_of_first [OF Some] by simp
      moreover have "\<not> prefix ''='' (take e b)" if "\<not> isExpr"
        using that Some by (intro wf_block) (simp_all add: isExpr_def b_def)
      ultimately show ?thesis using Some that by (cases isExpr) simp_all
    qed
    moreover have "take t s \<noteq> []" if "0 < t" using that ne by simp
    moreover have "\<not> sublist ''<%'' (take t s)" using index_of_first [OF 3] by simp
    ultimately show ?thesis
      unfolding segments_tag [OF 3 r_def isExpr_def b_def] * by (cases x) simp_all
  qed (simp_all add: segments_text)
qed

text \<open>A template is read back from its source.\<close>


lemma segments_block:
  assumes "wf_template (b # ts)" "\<forall>u. b \<noteq> Static u" "\<not> sublist ''<%'' p"
  shows "segments (p @ template_source (b # ts)) =
    (if p = [] then [] else [Static p]) @ b # segments (template_source ts)"
proof -
  let ?s = "template_source ts"
  have tag: "index_of ''<%'' (p @ ''<%'' @ r) = Some (length p)" for r
    using index_of_tag [of "CHR ''<''" "CHR ''%''" p r] assms(3) by simp
  have close: "index_of ''%>'' (c @ ''%>'' @ r) = Some (length c)" if "\<not> sublist ''%>'' c" for c r
    using index_of_tag [of "CHR ''%''" "CHR ''>''" c r] that by simp
  note seg = segments_tag [OF tag refl refl refl]
  show ?thesis
  proof (cases b)
    case (Code c)
    have "\<not> prefix ''='' (c @ ''%>'' @ ?s)"
      using assms(1) Code by (cases c) simp_all
    with assms(1) Code seg [of "c @ ''%>'' @ ?s"] close [of c ?s] show ?thesis by simp
  next
    case (Expr e)
    with assms(1) seg [of "''='' @ e @ ''%>'' @ ?s"] close [of e ?s] show ?thesis by simp
  next
    case (OpenCode c)
    with assms(1) seg [of c] index_of_None_iff [of "''%>''" c] show ?thesis by simp
  next
    case (OpenExpr e)
    with assms(1) seg [of "''='' @ e"] index_of_None_iff [of "''%>''" e] show ?thesis by simp
  qed (use assms(2) in blast)
qed

lemma segments_template_source: "wf_template ts \<Longrightarrow> segments (template_source ts) = ts"
proof (induction ts rule: length_induct)
  case (1 ts)
  then have IH: "segments (template_source us) = us" if "length us < length ts" "wf_template us" for us
    using that by blast
  show ?case
  proof (cases ts)
    case (Cons b us)
    show ?thesis
    proof (cases "\<exists>t. b = Static t")
      case False
      moreover have "wf_template us" using "1.prems" Cons by (cases b) simp_all
      ultimately show ?thesis
        using segments_block [of b us "[]"] IH [of us] "1.prems" Cons by simp
    next
      case True
      then obtain t where b: "b = Static t" by blast
      show ?thesis
      proof (cases us)
        case Nil
        with "1.prems" Cons b show ?thesis
          by (simp add: segments_text)
      next
        case (Cons c vs)
        with "1.prems" \<open>ts = b # us\<close> b have *: "t \<noteq> []" "\<not> sublist ''<%'' t" "wf_template (c # vs)" "\<forall>u. c \<noteq> Static u"
          by (auto split: segment.splits)
        moreover have "wf_template vs" using *(3) by (cases c) simp_all
        ultimately show ?thesis
          using segments_block [of c vs t] IH [of vs] Cons \<open>ts = b # us\<close> b by simp
      qed
    qed
  qed simp
qed

interpretation adp: codec template_source "\<lambda>s. Some (segments s)" "\<lambda>ts. ts" wf_template
  by unfold_locales (simp add: segments_template_source)

text \<open>
  Claim C3. The compiler follows the grammar of templates: every source is in exactly one way a
  sequence of static text, blocks and expressions, in which no static text has an opening tag and no
  block a closing one, and the script is what each segment stands for, in order.
\<close>

theorem compiler_follows_grammar:
  "\<exists>!ts. wf_template ts \<and> template_source ts = source \<and> CompileJsAdp source = concat (map emit ts)"
proof (rule ex1I [of _ "segments source"])
  show "wf_template (segments source) \<and> template_source (segments source) = source \<and>
      CompileJsAdp source = concat (map emit (segments source))"
    by (simp add: wf_template_segments template_source_segments CompileJsAdp_segments)
next
  fix ts
  assume "wf_template ts \<and> template_source ts = source \<and> CompileJsAdp source = concat (map emit ts)"
  then show "ts = segments source" using segments_template_source [of ts] by simp
qed

subsection \<open>What the script prints\<close>

text \<open>
  The value of a string literal of JavaScript, after its opening quotation mark, and the rest of
  the script. A literal must not contain an end of line; escapes of more than one character
  do not occur and are not read.
\<close>

definition single_escape :: "char \<Rightarrow> char option" where
  "single_escape c =
     (if c = CHR ''n'' then Some (CHR 0x0A) else if c = CHR ''r'' then Some (CHR 0x0D)
      else if c = CHR ''t'' then Some (CHR 0x09) else if c = CHR ''b'' then Some (CHR 0x08)
      else if c = CHR ''v'' then Some (CHR 0x0B) else if c = CHR ''f'' then Some (CHR 0x0C)
      else if c \<in> set ''xu0123456789'' \<or> c = CHR 0x0A \<or> c = CHR 0x0D then None
      else Some c)"

fun literal_value :: "string \<Rightarrow> (string \<times> string) option" where
  "literal_value [] = None"
| "literal_value (c # s) =
     (if c = CHR 0x22 then Some ([], s)
      else if c = CHR 0x0A \<or> c = CHR 0x0D then None
      else if c = CHR 0x5C then (case s of
          [] \<Rightarrow> None
        | e # t \<Rightarrow> do { v \<leftarrow> single_escape e; (vs, r) \<leftarrow> literal_value t; Some (v # vs, r) })
      else do { (vs, r) \<leftarrow> literal_value s; Some (c # vs, r) })"

lemma literal_value_escape:
  "literal_value (escape_html c @ s) = do { (vs, r) \<leftarrow> literal_value s; Some (c # vs, r) }"
  by (auto simp: escape_html_def single_escape_def)

lemma literal_value_escaped: "literal_value (concat (map escape_html t) @ CHR 0x22 # r) = Some (t, r)"
  by (induction t) (simp_all add: literal_value_escape)

interpretation literal: codec "\<lambda>t. concat (map escape_html t) @ [CHR 0x22]" literal_value "\<lambda>t. (t, [])" "\<lambda>_. True"
  by unfold_locales (rule literal_value_escaped)

text \<open>
  What a script of write statements prints, when \<open>ev e\<close> is the text of the expression \<open>e\<close>; an
  expression stands on one line.
\<close>

definition strip_prefix :: "string \<Rightarrow> string \<Rightarrow> string option" where
  "strip_prefix p s = (if prefix p s then Some (drop (length p) s) else None)"

lemma strip_prefix_append [simp]: "strip_prefix p (p @ s) = Some s"
  by (simp add: strip_prefix_def)

lemma strip_prefix_length: "strip_prefix p s = Some r \<Longrightarrow> length r = length s - length p"
  by (auto simp: strip_prefix_def split: if_splits)

text \<open>One statement: what it prints and the rest of the script.\<close>

definition statement :: "(string \<Rightarrow> string) \<Rightarrow> string \<Rightarrow> (string \<times> string) option" where
  "statement ev s = do {
     r \<leftarrow> strip_prefix ''ns.conn.write('' s;
     case strip_prefix [CHR 0x22] r of
       Some l \<Rightarrow> do { (v, r) \<leftarrow> literal_value l; r \<leftarrow> strip_prefix ('');'' @ [newline]) r; Some (v, r) }
     | None \<Rightarrow> do {
         r \<leftarrow> strip_prefix ''String('' r;
         k \<leftarrow> index_of (''));'' @ [newline]) r;
         Some (ev (take k r), drop (k + 4) r)
       }
   }"

fun prints :: "nat \<Rightarrow> (string \<Rightarrow> string) \<Rightarrow> string \<Rightarrow> string option" where
  "prints 0 ev s = (if s = [] then Some [] else None)"
| "prints (Suc n) ev s =
     (if s = [] then Some []
      else do { (v, r) \<leftarrow> statement ev s; w \<leftarrow> prints n ev r; Some (v @ w) })"

text \<open>The text that a segment of the template stands for.\<close>

primrec value_of :: "(string \<Rightarrow> string) \<Rightarrow> segment \<Rightarrow> string" where
  "value_of ev (Static t) = t"
| "value_of ev (Expr e) = ev e"
| "value_of ev (Code c) = []"
| "value_of ev (OpenCode c) = []"
| "value_of ev (OpenExpr e) = []"

definition printable :: "segment \<Rightarrow> bool" where
  "printable t \<longleftrightarrow> (case t of Static _ \<Rightarrow> True | Expr e \<Rightarrow> newline \<notin> set e | _ \<Rightarrow> False)"

lemma index_of_close:
  assumes "newline \<notin> set e"
  shows "index_of (''));'' @ [newline]) (e @ ''));'' @ newline # s) = Some (length e)"
proof -
  have "\<not> prefix (''));'' @ [newline]) (drop i (e @ ''));'' @ newline # s))" if "i < length e" for i
  proof
    assume "prefix (''));'' @ [newline]) (drop i (e @ ''));'' @ newline # s))"
    then have "(drop i (e @ ''));'' @ newline # s)) ! 3 = newline" by (auto simp: prefix_def)
    moreover have "i \<le> length (e @ ''));'' @ newline # s)" using that by simp
    ultimately have "(e @ ''));'' @ newline # s) ! (i + 3) = newline" by (simp only: nth_drop)
    moreover have "(e @ ''));'' @ newline # s) ! (i + 3) \<noteq> newline"
    proof (cases "i + 3 < length e")
      case True
      with assms show ?thesis by (metis nth_append nth_mem)
    next
      case False
      with that have "i + 3 - length e \<in> {0, 1, 2}" by auto
      with False show ?thesis by (auto simp: nth_append newline_def)
    qed
    ultimately show False by blast
  qed
  from index_of_skip [OF this] show ?thesis by simp
qed

lemma statement_emit:
  assumes "printable t"
  shows "statement ev (emit t @ s) = Some (value_of ev t, s)"
proof (cases t)
  case (Static u)
  have "emit t @ s = ''ns.conn.write('' @ [CHR 0x22] @ concat (map escape_html u) @ CHR 0x22 # ('');'' @ [newline]) @ s"
    by (simp add: Static AppendEscapedHtml_def)
  then show ?thesis
    by (simp only: statement_def strip_prefix_append literal_value_escaped bind.bind_lunit option.case prod.case)
      (simp add: Static)
next
  case (Expr e)
  with assms index_of_close [of e s] show ?thesis
    by (simp add: statement_def strip_prefix_def printable_def)
qed (use assms in \<open>simp_all add: printable_def\<close>)

text \<open>No statement is empty, so a script has at most as many statements as characters.\<close>

definition page_output :: "(string \<Rightarrow> string) \<Rightarrow> string \<Rightarrow> string option" where
  "page_output ev s = prints (length s) ev s"

lemma emit_nonempty: "printable t \<Longrightarrow> emit t \<noteq> []"
  by (cases t) (simp_all add: printable_def AppendEscapedHtml_def)

lemma prints_emit:
  "list_all printable ts \<Longrightarrow> length ts \<le> n \<Longrightarrow>
     prints n ev (concat (map emit ts)) = Some (concat (map (value_of ev) ts))"
proof (induction ts arbitrary: n)
  case Nil
  then show ?case by (cases n) simp_all
next
  case (Cons t ts)
  then obtain m where "n = Suc m" by (cases n) simp_all
  with Cons emit_nonempty [of t] show ?case by (simp add: statement_emit)
qed

lemma length_emits: "list_all printable ts \<Longrightarrow> length ts \<le> length (concat (map emit ts))"
proof (induction ts)
  case (Cons t ts)
  then have "emit t \<noteq> []" using emit_nonempty [of t] by simp
  with Cons show ?case by (cases "emit t") simp_all
qed simp

lemma page_output_emits:
  "list_all printable ts \<Longrightarrow> page_output ev (concat (map emit ts)) = Some (concat (map (value_of ev) ts))"
  by (simp add: page_output_def prints_emit length_emits)



text \<open>A document without tags is printed as it is.\<close>

lemma plain_document:
  assumes "\<not> sublist ''<%'' s"
  shows "page_output ev (CompileJsAdp s) = Some s"
proof (cases "s = []")
  case True
  then show ?thesis by (simp add: CompileJsAdp_segments page_output_def)
next
  case False
  with assms page_output_emits [of "[Static s]" ev] show ?thesis
    by (simp add: CompileJsAdp_segments segments_text printable_def)
qed

end
