(* ===== verification/ScriptCache.thy ===== *)
theory ScriptCache
  imports JsAdp "HOL-Library.Word" "HOL-Library.AList"
begin

text \<open>
  The request handlers \<open>JsRequest\<close> and \<open>JsAdpRequest\<close> of \<open>nsjs/nsjs.cc\<close>: each thread keeps the
  compiled scripts of the pages it has served under the modification time and the size of their
  files, and adds what a request did to counters that all threads share. V8, the clock and the
  file system are given with each request. The lemmas show that the cache does not change any
  answer, which version it serves when the files are not checked, and how the counters relate.
\<close>

type_synonym u64 = "64 word"

subsection \<open>The caches of a thread\<close>

record 's js_script_entry =
  entry_mtime :: int
  entry_size :: int
  entry_script :: 's
  hitCount :: u64
  missCount :: u64
  invalidateCount :: u64
  entryExecUsec :: u64
  entryCompileUsec :: u64
  lastCompileTime :: int
  firstLoadTime :: int

type_synonym 's cache = "(string \<times> 's js_script_entry) list"

record 's js_data =
  scriptCache :: "'s cache"
  adpCache :: "'s cache"
  cacheEnabled :: bool
  cacheStatAlways :: bool

subsection \<open>The counters\<close>

record js_stats_delta =
  d_requests :: u64
  d_adpRequests :: u64
  d_cacheHits :: u64
  d_cacheMisses :: u64
  d_cacheInvalidations :: u64
  d_execUsec :: u64
  d_compileUsec :: u64
  d_compileErrors :: u64
  d_runtimeErrors :: u64
  d_newCacheEntries :: u64
  d_newAdpEntries :: u64
  d_contextCreations :: u64
  d_contextUsec :: u64

record js_global_stats =
  totalRequests :: u64
  totalAdpRequests :: u64
  cacheHits :: u64
  cacheMisses :: u64
  cacheInvalidations :: u64
  totalExecUsec :: u64
  totalCompileUsec :: u64
  compileErrors :: u64
  runtimeErrors :: u64
  cachedScripts :: u64
  cachedAdpScripts :: u64
  contextCreations :: u64
  totalContextUsec :: u64
  activeIsolates :: u64

definition no_delta :: js_stats_delta where
  "no_delta =
     \<lparr>d_requests = 0, d_adpRequests = 0, d_cacheHits = 0, d_cacheMisses = 0, d_cacheInvalidations = 0,
      d_execUsec = 0, d_compileUsec = 0, d_compileErrors = 0, d_runtimeErrors = 0,
      d_newCacheEntries = 0, d_newAdpEntries = 0, d_contextCreations = 0, d_contextUsec = 0\<rparr>"

definition no_stats :: js_global_stats where
  "no_stats =
     \<lparr>totalRequests = 0, totalAdpRequests = 0, cacheHits = 0, cacheMisses = 0, cacheInvalidations = 0,
      totalExecUsec = 0, totalCompileUsec = 0, compileErrors = 0, runtimeErrors = 0,
      cachedScripts = 0, cachedAdpScripts = 0, contextCreations = 0, totalContextUsec = 0,
      activeIsolates = 0\<rparr>"

definition NsJsUpdateGlobalStats :: "js_stats_delta \<Rightarrow> js_global_stats \<Rightarrow> js_global_stats" where
  "NsJsUpdateGlobalStats d g = g\<lparr>
     totalRequests := totalRequests g + d_requests d,
     totalAdpRequests := totalAdpRequests g + d_adpRequests d,
     cacheHits := cacheHits g + d_cacheHits d,
     cacheMisses := cacheMisses g + d_cacheMisses d,
     cacheInvalidations := cacheInvalidations g + d_cacheInvalidations d,
     totalExecUsec := totalExecUsec g + d_execUsec d,
     totalCompileUsec := totalCompileUsec g + d_compileUsec d,
     compileErrors := compileErrors g + d_compileErrors d,
     runtimeErrors := runtimeErrors g + d_runtimeErrors d,
     cachedScripts := cachedScripts g + d_newCacheEntries d,
     cachedAdpScripts := cachedAdpScripts g + d_newAdpEntries d,
     contextCreations := contextCreations g + d_contextCreations d,
     totalContextUsec := totalContextUsec g + d_contextUsec d\<rparr>"

definition JsStatsReset :: "js_global_stats \<Rightarrow> js_global_stats" where
  "JsStatsReset g = no_stats\<lparr>activeIsolates := activeIsolates g\<rparr>"

subsection \<open>A request\<close>

text \<open>
  What running a script does: whether it ends without an exception, whether it has sent a
  response itself, what it has written and how long it took.
\<close>

record run_result =
  run_ok :: bool
  responseSent :: bool
  run_output :: string
  run_usec :: u64

text \<open>
  What the handler finds: the file of the URL, its modification time and size when it is a
  regular file, its text when it can be read, V8's compiler and the run of a script at that
  time, and the clock.
\<close>

record 's js_request =
  url_file :: "string option"
  file_stat :: "(int \<times> int) option"
  file_source :: "string option"
  v8_compile :: "string \<Rightarrow> 's option"
  v8_run :: "'s \<Rightarrow> run_result"
  request_time :: int
  ctx_usec :: u64
  compile_usec :: u64

datatype page_kind = JsPage | AdpPage

datatype response = NotFound | InternalError | Page string | SentByScript

text \<open>A script's source: the file of a \<open>.js\<close> page, the compiled template of a \<open>.jsadp\<close> page.\<close>

definition page_source :: "page_kind \<Rightarrow> string \<Rightarrow> string" where
  "page_source k t = (case k of JsPage \<Rightarrow> t | AdpPage \<Rightarrow> CompileJsAdp t)"

definition base_delta :: "page_kind \<Rightarrow> 's js_request \<Rightarrow> js_stats_delta" where
  "base_delta k rq = no_delta\<lparr>d_requests := 1, d_adpRequests := (if k = AdpPage then 1 else 0),
     d_contextCreations := 1, d_contextUsec := ctx_usec rq\<rparr>"

text \<open>The response after a run.\<close>

definition serve :: "run_result \<Rightarrow> response" where
  "serve r = (if responseSent r then SentByScript else if run_ok r then Page (run_output r) else InternalError)"

text \<open>
  The two branches of the cache: a hit, and a miss with its early returns. The result is the new
  cache, the counters that are added, if they are, and the response.
\<close>

definition cache_hit ::
  "page_kind \<Rightarrow> 's js_request \<Rightarrow> string \<Rightarrow> 's js_script_entry \<Rightarrow> 's cache \<Rightarrow>
     's cache \<times> js_stats_delta list \<times> response" where
  "cache_hit k rq path e cache =
     (let r = v8_run rq (entry_script e)
      in (AList.update path
            (e\<lparr>hitCount := hitCount e + 1, entryExecUsec := entryExecUsec e + run_usec r\<rparr>) cache,
          [(base_delta k rq)\<lparr>d_cacheHits := 1, d_execUsec := run_usec r,
             d_runtimeErrors := (if run_ok r then 0 else 1)\<rparr>],
          serve r))"

definition cache_miss ::
  "page_kind \<Rightarrow> 's js_request \<Rightarrow> string \<Rightarrow> int \<times> int \<Rightarrow> 's js_script_entry option \<Rightarrow> 's cache \<Rightarrow>
     's cache \<times> js_stats_delta list \<times> response" where
  "cache_miss k rq path st it cache =
     (case file_source rq of
        None \<Rightarrow> (cache, [], InternalError)
      | Some text \<Rightarrow> (case v8_compile rq (page_source k text) of
          None \<Rightarrow>
            (cache, [(base_delta k rq)\<lparr>d_cacheMisses := 1, d_compileUsec := compile_usec rq,
               d_compileErrors := 1\<rparr>], InternalError)
        | Some s \<Rightarrow>
            (let isNew = (it = None);
                 isInvalidation = (case it of
                     None \<Rightarrow> False
                   | Some e \<Rightarrow> entry_mtime e \<noteq> fst st \<or> entry_size e \<noteq> snd st);
                 r = v8_run rq s
             in (AList.update path
                   \<lparr>entry_mtime = fst st, entry_size = snd st, entry_script = s, hitCount = 0, missCount = 1,
                    invalidateCount = (if isInvalidation then 1 else 0), entryExecUsec = run_usec r,
                    entryCompileUsec = compile_usec rq, lastCompileTime = request_time rq,
                    firstLoadTime = (case it of None \<Rightarrow> request_time rq | Some e \<Rightarrow> firstLoadTime e)\<rparr> cache,
                 [(base_delta k rq)\<lparr>d_cacheMisses := 1, d_compileUsec := compile_usec rq,
                    d_newCacheEntries := (if k = JsPage \<and> isNew then 1 else 0),
                    d_newAdpEntries := (if k = AdpPage \<and> isNew then 1 else 0),
                    d_cacheInvalidations := (if isInvalidation then 1 else 0),
                    d_execUsec := run_usec r, d_runtimeErrors := (if run_ok r then 0 else 1)\<rparr>],
                 serve r))))"

definition lookup_fresh :: "bool \<Rightarrow> int \<times> int \<Rightarrow> 's js_script_entry option \<Rightarrow> 's js_script_entry option" where
  "lookup_fresh always st it = (case it of
       None \<Rightarrow> None
     | Some e \<Rightarrow> if \<not> always \<or> entry_mtime e = fst st \<and> entry_size e = snd st then Some e else None)"

definition cached_request ::
  "page_kind \<Rightarrow> 's js_request \<Rightarrow> string \<Rightarrow> int \<times> int \<Rightarrow> bool \<Rightarrow> 's cache \<Rightarrow>
     's cache \<times> js_stats_delta list \<times> response" where
  "cached_request k rq path st always cache =
     (let it = map_of cache path
      in case lookup_fresh always st it of
           Some e \<Rightarrow> cache_hit k rq path e cache
         | None \<Rightarrow> cache_miss k rq path st it cache)"

text \<open>\<open>RunScript\<close> compiles and runs a script and counts its times and errors itself.\<close>

definition RunScript :: "'s js_request \<Rightarrow> string \<Rightarrow> js_stats_delta \<times> response" where
  "RunScript rq src = (case v8_compile rq src of
       None \<Rightarrow> (no_delta\<lparr>d_compileErrors := 1, d_compileUsec := compile_usec rq\<rparr>, InternalError)
     | Some s \<Rightarrow>
         (let r = v8_run rq s
          in (no_delta\<lparr>d_runtimeErrors := (if run_ok r then 0 else 1), d_execUsec := run_usec r,
                d_compileUsec := compile_usec rq\<rparr>, serve r)))"

definition uncached_request :: "page_kind \<Rightarrow> 's js_request \<Rightarrow> js_stats_delta list \<times> response" where
  "uncached_request k rq = (case file_source rq of
       None \<Rightarrow> ([], InternalError)
     | Some text \<Rightarrow>
         (let (d, resp) = RunScript rq (page_source k text)
          in ([d, base_delta k rq], resp)))"

definition JsRequest :: "'s js_request \<Rightarrow> 's js_data \<Rightarrow> 's js_data \<times> js_stats_delta list \<times> response" where
  "JsRequest rq d = (case url_file rq of
       None \<Rightarrow> (d, [], NotFound)
     | Some path \<Rightarrow> (case file_stat rq of
         None \<Rightarrow> (d, [], NotFound)
       | Some st \<Rightarrow>
           if cacheEnabled d
           then (let (c, deltas, resp) = cached_request JsPage rq path st (cacheStatAlways d) (scriptCache d)
                 in (d\<lparr>scriptCache := c\<rparr>, deltas, resp))
           else (let (deltas, resp) = uncached_request JsPage rq in (d, deltas, resp))))"

definition JsAdpRequest :: "'s js_request \<Rightarrow> 's js_data \<Rightarrow> 's js_data \<times> js_stats_delta list \<times> response" where
  "JsAdpRequest rq d = (case url_file rq of
       None \<Rightarrow> (d, [], NotFound)
     | Some path \<Rightarrow> (case file_stat rq of
         None \<Rightarrow> (d, [], NotFound)
       | Some st \<Rightarrow>
           if cacheEnabled d
           then (let (c, deltas, resp) = cached_request AdpPage rq path st (cacheStatAlways d) (adpCache d)
                 in (d\<lparr>adpCache := c\<rparr>, deltas, resp))
           else (let (deltas, resp) = uncached_request AdpPage rq in (d, deltas, resp))))"

subsection \<open>The threads\<close>

text \<open>
  The server: the data of each thread that has served a request, in the order of their creation,
  the counters and the configuration of the module.
\<close>

record 's js_host =
  js_data_registry :: "(nat \<times> 's js_data) list"
  js_global_stats :: js_global_stats
  mod_scriptCacheEnabled :: bool
  mod_cacheStatAlways :: bool

datatype 's host_event =
    Request nat page_kind "'s js_request"
  | ThreadExit nat
  | StatsReset

text \<open>The data of a thread, created on its first request.\<close>

definition new_js_data :: "'s js_host \<Rightarrow> 's js_data" where
  "new_js_data h = \<lparr>scriptCache = [], adpCache = [], cacheEnabled = mod_scriptCacheEnabled h,
     cacheStatAlways = mod_cacheStatAlways h\<rparr>"

definition GetJsData :: "nat \<Rightarrow> 's js_host \<Rightarrow> 's js_data \<times> 's js_host" where
  "GetJsData i h = (case map_of (js_data_registry h) i of
       Some d \<Rightarrow> (d, h)
     | None \<Rightarrow> (new_js_data h, h\<lparr>
         js_data_registry := js_data_registry h @ [(i, new_js_data h)],
         js_global_stats := (js_global_stats h)\<lparr>activeIsolates := activeIsolates (js_global_stats h) + 1\<rparr>\<rparr>))"

definition DeleteJsData :: "nat \<Rightarrow> 's js_host \<Rightarrow> 's js_host" where
  "DeleteJsData i h = (case map_of (js_data_registry h) i of
       None \<Rightarrow> h
     | Some d \<Rightarrow> h\<lparr>
         js_data_registry := filter (\<lambda>(j, _). j \<noteq> i) (js_data_registry h),
         js_global_stats := (js_global_stats h)\<lparr>activeIsolates :=
           (if 0 < activeIsolates (js_global_stats h) then activeIsolates (js_global_stats h) - 1 else 0)\<rparr>\<rparr>)"

definition handle_page :: "page_kind \<Rightarrow> 's js_request \<Rightarrow> 's js_data \<Rightarrow> 's js_data \<times> js_stats_delta list \<times> response" where
  "handle_page k = (case k of JsPage \<Rightarrow> JsRequest | AdpPage \<Rightarrow> JsAdpRequest)"

text \<open>A request on thread \<open>i\<close>: the new state of the server and the response.\<close>

definition request :: "nat \<Rightarrow> page_kind \<Rightarrow> 's js_request \<Rightarrow> 's js_host \<Rightarrow> 's js_host \<times> response" where
  "request i k rq h0 =
     (let (d, h) = GetJsData i h0;
          (d', deltas, resp) = handle_page k rq d
      in (h\<lparr>js_data_registry := AList.update i d' (js_data_registry h),
            js_global_stats := fold NsJsUpdateGlobalStats deltas (js_global_stats h)\<rparr>, resp))"

primrec host_step :: "'s host_event \<Rightarrow> 's js_host \<Rightarrow> 's js_host" where
  "host_step (Request i k rq) h = fst (request i k rq h)"
| "host_step (ThreadExit i) h = DeleteJsData i h"
| "host_step StatsReset h = h\<lparr>js_global_stats := JsStatsReset (js_global_stats h)\<rparr>"

definition host_init :: "bool \<Rightarrow> bool \<Rightarrow> 's js_host" where
  "host_init enabled always =
     \<lparr>js_data_registry = [], js_global_stats = no_stats, mod_scriptCacheEnabled = enabled,
      mod_cacheStatAlways = always\<rparr>"

subsection \<open>What holds of every entry\<close>

lemma list_all_update: "list_all P xs \<Longrightarrow> P (k, v) \<Longrightarrow> list_all P (AList.update k v xs)"
  by (induction xs) auto

lemma length_update: "length (AList.update k v xs) = length xs + (if map_of xs k = None then 1 else 0)"
  by (induction xs) auto

lemma lookup_fresh_Some: "lookup_fresh always st it = Some e \<Longrightarrow> it = Some e"
  by (auto simp: lookup_fresh_def split: option.splits if_splits)

lemma lookup_fresh_stat:
  "lookup_fresh True st it = Some e \<Longrightarrow> entry_mtime e = fst st \<and> entry_size e = snd st"
  by (auto simp: lookup_fresh_def split: option.splits if_splits)

lemma lookup_fresh_off [simp]: "lookup_fresh False st it = it"
  by (simp add: lookup_fresh_def split: option.splits)

text \<open>
  A property of entries that the counters of a hit do not change, and that the entry of a miss
  has, holds of all entries.
\<close>

lemma cached_request_entries:
  assumes "list_all P cache"
    and "\<And>e x y. P (path, e) \<Longrightarrow> P (path, e\<lparr>hitCount := x, entryExecUsec := y\<rparr>)"
    and "\<And>text s e. file_source rq = Some text \<Longrightarrow> v8_compile rq (page_source k text) = Some s \<Longrightarrow>
      entry_mtime e = fst st \<Longrightarrow> entry_size e = snd st \<Longrightarrow> entry_script e = s \<Longrightarrow> missCount e = 1 \<Longrightarrow>
      invalidateCount e \<le> 1 \<Longrightarrow> P (path, e)"
  shows "list_all P (fst (cached_request k rq path st always cache))"
proof (cases "lookup_fresh always st (map_of cache path)")
  case (Some e)
  then have "(path, e) \<in> set cache" by (auto dest: lookup_fresh_Some map_of_SomeD)
  then have "P (path, e)" using assms(1) by (simp add: list_all_iff)
  with assms(1,2) Some show ?thesis
    by (simp add: cached_request_def cache_hit_def Let_def list_all_update)
next
  case None
  with assms(1,3) show ?thesis
    by (auto simp: cached_request_def cache_miss_def Let_def split: option.splits intro!: list_all_update)
qed

text \<open>The same for all caches of the server; \<open>P k\<close> is the property of the pages of kind \<open>k\<close>.\<close>

definition data_entries :: "(page_kind \<Rightarrow> string \<times> 's js_script_entry \<Rightarrow> bool) \<Rightarrow> 's js_data \<Rightarrow> bool" where
  "data_entries P d \<longleftrightarrow> list_all (P JsPage) (scriptCache d) \<and> list_all (P AdpPage) (adpCache d)"

definition host_entries :: "(page_kind \<Rightarrow> string \<times> 's js_script_entry \<Rightarrow> bool) \<Rightarrow> 's js_host \<Rightarrow> bool" where
  "host_entries P h \<longleftrightarrow> list_all (\<lambda>(i, d). data_entries P d) (js_data_registry h)"

text \<open>The same with \<open>cacheEnabled\<close> and \<open>cacheStatAlways\<close> as the module has them.\<close>

definition configured :: "bool \<Rightarrow> bool \<Rightarrow> 's js_host \<Rightarrow> bool" where
  "configured enabled always h \<longleftrightarrow> mod_scriptCacheEnabled h = enabled \<and> mod_cacheStatAlways h = always \<and>
     list_all (\<lambda>(i, d). cacheEnabled d = enabled \<and> cacheStatAlways d = always) (js_data_registry h)"

lemma GetJsData_cases:
  assumes "GetJsData i h = (d, h')"
  obtains "map_of (js_data_registry h) i = Some d" "h' = h"
  | "map_of (js_data_registry h) i = None" "d = new_js_data h"
    "js_data_registry h' = js_data_registry h @ [(i, d)]"
    "mod_scriptCacheEnabled h' = mod_scriptCacheEnabled h" "mod_cacheStatAlways h' = mod_cacheStatAlways h"
    "js_global_stats h' = (js_global_stats h)\<lparr>activeIsolates := activeIsolates (js_global_stats h) + 1\<rparr>"
  using assms by (auto simp: GetJsData_def split: option.splits)

lemma GetJsData_registered: "GetJsData i h = (d, h') \<Longrightarrow> map_of (js_data_registry h') i = Some d"
  by (auto elim!: GetJsData_cases simp: map_add_def split: option.splits)

lemma handle_page_config:
  "handle_page k rq d = (d', deltas, resp) \<Longrightarrow> cacheEnabled d' = cacheEnabled d \<and> cacheStatAlways d' = cacheStatAlways d"
  by (auto simp: handle_page_def JsRequest_def JsAdpRequest_def Let_def split: page_kind.splits option.splits prod.splits if_splits)

subsection \<open>Invariants of the server\<close>

text \<open>A property of the data of each thread that a new thread has and a request keeps.\<close>

lemma request_cases:
  obtains d h' d' deltas resp where "GetJsData i h = (d, h')" "handle_page k rq d = (d', deltas, resp)"
    "request i k rq h = (h'\<lparr>js_data_registry := AList.update i d' (js_data_registry h'),
       js_global_stats := fold NsJsUpdateGlobalStats deltas (js_global_stats h')\<rparr>, resp)"
proof -
  obtain d h' where "GetJsData i h = (d, h')" by (cases "GetJsData i h")
  moreover obtain d' deltas resp where "handle_page k rq d = (d', deltas, resp)"
    by (cases "handle_page k rq d")
  ultimately show ?thesis by (intro that) (simp_all add: request_def)
qed

lemma request_registry:
  assumes "list_all (\<lambda>(i, d). Q d) (js_data_registry h)" "Q (new_js_data h)"
    and step: "\<And>d. Q d \<Longrightarrow> Q (fst (handle_page k rq d))"
  shows "list_all (\<lambda>(i, d). Q d) (js_data_registry (fst (request i k rq h)))"
proof (cases rule: request_cases [where i = i and h = h and k = k and rq = rq])
  case (1 d h' d' deltas resp)
  from 1(1) have h': "list_all (\<lambda>(i, d). Q d) (js_data_registry h')" and "Q d"
    using assms(1,2) by (auto elim!: GetJsData_cases simp: list_all_iff dest: map_of_SomeD)
  moreover have "Q d'" using step [OF \<open>Q d\<close>] 1(2) by simp
  ultimately show ?thesis using 1(3) by (simp add: list_all_update)
qed

lemma request_config [simp]:
  "mod_scriptCacheEnabled (fst (request i k rq h)) = mod_scriptCacheEnabled h"
  "mod_cacheStatAlways (fst (request i k rq h)) = mod_cacheStatAlways h"
  by (cases rule: request_cases [where i = i and h = h and k = k and rq = rq]; auto elim!: GetJsData_cases)+

lemma DeleteJsData_simps [simp]:
  "mod_scriptCacheEnabled (DeleteJsData i h) = mod_scriptCacheEnabled h"
  "mod_cacheStatAlways (DeleteJsData i h) = mod_cacheStatAlways h"
  by (simp_all add: DeleteJsData_def split: option.splits)

lemma DeleteJsData_registry:
  "list_all Q (js_data_registry h) \<Longrightarrow> list_all Q (js_data_registry (DeleteJsData i h))"
  by (auto simp: DeleteJsData_def list_all_iff split: option.splits)

lemma configured_step: "configured enabled always h \<Longrightarrow> configured enabled always (host_step e h)"
proof (cases e)
  case (Request i k rq)
  assume *: "configured enabled always h"
  have "list_all (\<lambda>(i, d). cacheEnabled d = enabled \<and> cacheStatAlways d = always)
      (js_data_registry (fst (request i k rq h)))"
  proof (rule request_registry)
    show "cacheEnabled (fst (handle_page k rq d)) = enabled \<and> cacheStatAlways (fst (handle_page k rq d)) = always"
      if "cacheEnabled d = enabled \<and> cacheStatAlways d = always" for d
      using that handle_page_config [of k rq d] by (cases "handle_page k rq d") simp
  qed (use * in \<open>simp_all add: configured_def new_js_data_def\<close>)
  with * Request show ?thesis by (simp add: configured_def)
qed (simp_all add: configured_def DeleteJsData_registry)

lemma handle_page_entries:
  assumes "data_entries P d"
    and "\<And>path e x y. P k (path, e) \<Longrightarrow> P k (path, e\<lparr>hitCount := x, entryExecUsec := y\<rparr>)"
    and "\<And>path st text s e. url_file rq = Some path \<Longrightarrow> file_stat rq = Some st \<Longrightarrow>
      file_source rq = Some text \<Longrightarrow> v8_compile rq (page_source k text) = Some s \<Longrightarrow>
      entry_mtime e = fst st \<Longrightarrow> entry_size e = snd st \<Longrightarrow> entry_script e = s \<Longrightarrow> missCount e = 1 \<Longrightarrow>
      invalidateCount e \<le> 1 \<Longrightarrow> P k (path, e)"
  shows "data_entries P (fst (handle_page k rq d))"
proof -
  have new: "list_all (P k) (fst (cached_request k rq path st always cache))"
    if "list_all (P k) cache" "url_file rq = Some path" "file_stat rq = Some st" for path st always cache
    using that assms(2,3) by (intro cached_request_entries) blast+
  show ?thesis
    using assms(1) new
    by (cases k) (auto simp: handle_page_def JsRequest_def JsAdpRequest_def data_entries_def Let_def
        split: option.splits prod.splits, metis fst_conv, metis fst_conv)
qed

subsection \<open>The cache is transparent\<close>

text \<open>
  The files are versioned when the modification time and the size of a file determine its text.
\<close>

definition versioned :: "(string \<Rightarrow> int \<times> int \<Rightarrow> string) \<Rightarrow> (string \<Rightarrow> 's option) \<Rightarrow> 's js_request \<Rightarrow> bool" where
  "versioned ver v8 rq \<longleftrightarrow> v8_compile rq = v8 \<and>
     (case url_file rq of None \<Rightarrow> True | Some path \<Rightarrow> (case file_stat rq of
         None \<Rightarrow> True
       | Some st \<Rightarrow> file_source rq = Some (ver path st)))"

definition versioned_event :: "(string \<Rightarrow> int \<times> int \<Rightarrow> string) \<Rightarrow> (string \<Rightarrow> 's option) \<Rightarrow> 's host_event \<Rightarrow> bool" where
  "versioned_event ver v8 e \<longleftrightarrow> (case e of Request i k rq \<Rightarrow> versioned ver v8 rq | _ \<Rightarrow> True)"

text \<open>An entry holds the script of the version that it records.\<close>

definition compiled ::
  "(string \<Rightarrow> int \<times> int \<Rightarrow> string) \<Rightarrow> (string \<Rightarrow> 's option) \<Rightarrow> page_kind \<Rightarrow> string \<times> 's js_script_entry \<Rightarrow> bool" where
  "compiled ver v8 k pe \<longleftrightarrow>
     v8 (page_source k (ver (fst pe) (entry_mtime (snd pe), entry_size (snd pe)))) = Some (entry_script (snd pe))"

lemma compiled_handle_page:
  "versioned ver v8 rq \<Longrightarrow> data_entries (compiled ver v8) d \<Longrightarrow>
     data_entries (compiled ver v8) (fst (handle_page k rq d))"
  by (rule handle_page_entries) (auto simp: compiled_def versioned_def)

lemma host_entries_step:
  assumes "\<And>i k rq d. e = Request i k rq \<Longrightarrow> data_entries P d \<Longrightarrow> data_entries P (fst (handle_page k rq d))"
    and "host_entries P h"
  shows "host_entries P (host_step e h)"
proof (cases e)
  case (Request i k rq)
  have "list_all (\<lambda>(i, d). data_entries P d) (js_data_registry (fst (request i k rq h)))"
    using assms Request by (intro request_registry) (simp_all add: host_entries_def new_js_data_def data_entries_def)
  with Request show ?thesis by (simp add: host_entries_def)
qed (use assms(2) in \<open>simp_all add: host_entries_def DeleteJsData_registry\<close>)

interpretation scripts: guarded_machine host_step
  "\<lambda>h. configured enabled always h \<and> host_entries (compiled ver v8) h" "versioned_event ver v8"
  by unfold_locales
    (auto simp: versioned_event_def intro!: configured_step host_entries_step compiled_handle_page)

lemma host_init_ok: "configured enabled always (host_init enabled always)" "host_entries P (host_init enabled always)"
  by (simp_all add: configured_def host_entries_def host_init_def)

text \<open>What a request is answered without a cache.\<close>

definition direct_response :: "page_kind \<Rightarrow> 's js_request \<Rightarrow> response" where
  "direct_response k rq = snd (request 0 k rq (host_init False True))"

lemma direct_response_eq:
  "direct_response k rq = (if url_file rq = None \<or> file_stat rq = None then NotFound
     else snd (uncached_request k rq))"
  by (cases k) (auto simp: direct_response_def request_def GetJsData_def host_init_def new_js_data_def
      handle_page_def JsRequest_def JsAdpRequest_def split: option.splits prod.splits)

lemma cached_request_direct:
  assumes "list_all (compiled ver v8 k) cache" "versioned ver v8 rq" "url_file rq = Some path" "file_stat rq = Some st"
  shows "snd (snd (cached_request k rq path st True cache)) = snd (uncached_request k rq)"
proof (cases "lookup_fresh True st (map_of cache path)")
  case (Some e)
  then have "(path, e) \<in> set cache" by (auto dest: lookup_fresh_Some map_of_SomeD)
  then have "compiled ver v8 k (path, e)" using assms(1) by (simp add: list_all_iff)
  with assms(2-4) lookup_fresh_stat [OF Some] Some show ?thesis
    by (simp add: cached_request_def cache_hit_def uncached_request_def RunScript_def compiled_def versioned_def Let_def)
next
  case None
  with assms(2-4) show ?thesis
    by (auto simp: cached_request_def cache_miss_def uncached_request_def RunScript_def versioned_def Let_def
        split: option.splits)
qed

lemma request_direct:
  assumes "configured enabled True h" "host_entries (compiled ver v8) h" "versioned ver v8 rq"
  shows "snd (request i k rq h) = direct_response k rq"
proof (cases rule: request_cases [where i = i and h = h and k = k and rq = rq])
  case (1 d h' d' deltas resp)
  from 1(1) assms(1,2) have "cacheStatAlways d" "data_entries (compiled ver v8) d"
    by (auto elim!: GetJsData_cases simp: configured_def host_entries_def list_all_iff new_js_data_def
        data_entries_def dest!: map_of_SomeD)
  moreover note cached_request_direct [OF _ assms(3)]
  ultimately show ?thesis
    using 1(2,3)
    by (cases k) (auto simp: handle_page_def JsRequest_def JsAdpRequest_def direct_response_eq data_entries_def
        Let_def split: option.splits prod.splits if_splits, metis snd_conv, metis snd_conv)
qed

text \<open>
  Claim C2. The cache of scripts is transparent: when the files are checked on every request and a
  change of a file changes its modification time or size, every request is answered as by a
  server without cache, whatever requests, ends of threads and resets went before, on all threads.
\<close>

theorem script_cache_transparent:
  assumes "list_all (versioned_event ver v8) es" "versioned ver v8 rq"
  shows "snd (request i k rq (run host_step es (host_init enabled True))) = direct_response k rq"
proof -
  have "configured enabled True (host_init enabled True) \<and> host_entries (compiled ver v8) (host_init enabled True)"
    by (simp add: host_init_ok)
  from scripts.inv_run [OF this assms(1)] assms(2) show ?thesis
    by (intro request_direct) auto
qed

definition demo_request :: "string \<Rightarrow> int \<Rightarrow> string \<Rightarrow> string js_request" where
  "demo_request path m text =
     \<lparr>url_file = Some path, file_stat = Some (m, 4), file_source = Some text, v8_compile = Some,
      v8_run = (\<lambda>s. \<lparr>run_ok = True, responseSent = False, run_output = s, run_usec = 7\<rparr>),
      request_time = m, ctx_usec = 2, compile_usec = 3\<rparr>"

lemma script_cache_transparent_witness:
  "snd (request 1 JsPage (demo_request ''/a.js'' 6 ''new!'')
     (run host_step [Request 1 JsPage (demo_request ''/a.js'' 5 ''old.''), Request 1 JsPage (demo_request ''/a.js'' 5 ''old.''),
        Request 2 JsPage (demo_request ''/a.js'' 5 ''old.''), StatsReset, ThreadExit 2] (host_init True True)))
   = Page ''new!''"
proof -
  let ?ver = "\<lambda>path st. if fst st = 5 then ''old.'' else ''new!''"
  have "list_all (versioned_event ?ver Some) [Request 1 JsPage (demo_request ''/a.js'' 5 ''old.''),
      Request 1 JsPage (demo_request ''/a.js'' 5 ''old.''), Request 2 JsPage (demo_request ''/a.js'' 5 ''old.''),
      StatsReset, ThreadExit 2]"
    "versioned ?ver Some (demo_request ''/a.js'' 6 ''new!'')"
    by (simp_all add: versioned_event_def versioned_def demo_request_def)
  from script_cache_transparent [OF this] show ?thesis
    by (simp add: direct_response_eq uncached_request_def RunScript_def serve_def page_source_def demo_request_def Let_def)
qed

subsection \<open>When the files are not checked\<close>

definition cache_of :: "page_kind \<Rightarrow> 's js_data \<Rightarrow> 's cache" where
  "cache_of k d = (case k of JsPage \<Rightarrow> scriptCache d | AdpPage \<Rightarrow> adpCache d)"

lemma map_of_filter_key: "i \<noteq> j \<Longrightarrow> map_of (filter (\<lambda>(l, _). l \<noteq> j) xs) i = map_of xs i"
  by (induction xs) auto

definition cached_script :: "nat \<Rightarrow> page_kind \<Rightarrow> string \<Rightarrow> 's js_host \<Rightarrow> 's option" where
  "cached_script i k path h = (case map_of (js_data_registry h) i of
       None \<Rightarrow> None
     | Some d \<Rightarrow> map_option entry_script (map_of (cache_of k d) path))"

lemma cached_request_pins:
  "map_option entry_script (map_of cache path) = Some s \<Longrightarrow>
     map_option entry_script (map_of (fst (cached_request k rq path' st False cache)) path) = Some s"
  by (auto simp: cached_request_def cache_hit_def cache_miss_def update_conv' Let_def split: option.splits)

lemma handle_page_pins:
  assumes "map_option entry_script (map_of (cache_of k d) path) = Some s" "\<not> cacheStatAlways d"
  shows "map_option entry_script (map_of (cache_of k (fst (handle_page k' rq d))) path) = Some s"
proof -
  have *: "map_option entry_script (map_of c path) = Some s"
    if "cached_request k' rq path' st False (cache_of k d) = (c, deltas, resp)" for path' st c deltas resp
    using cached_request_pins [OF assms(1), of k' rq path' st] that by simp
  show ?thesis
    using assms *
    by (cases k; cases k')
      (auto simp: handle_page_def JsRequest_def JsAdpRequest_def cache_of_def split: option.splits prod.splits)
qed

lemma pinned_data:
  assumes "configured True False h" "cached_script i k path h = Some s"
  obtains d where "map_of (js_data_registry h) i = Some d"
    "map_option entry_script (map_of (cache_of k d) path) = Some s" "\<not> cacheStatAlways d" "cacheEnabled d"
proof -
  obtain d where d: "map_of (js_data_registry h) i = Some d"
    "map_option entry_script (map_of (cache_of k d) path) = Some s"
    using assms(2) by (auto simp: cached_script_def split: option.splits)
  moreover have "(i, d) \<in> set (js_data_registry h)" using d(1) by (rule map_of_SomeD)
  then have "\<not> cacheStatAlways d" "cacheEnabled d"
    using assms(1) by (auto simp: configured_def list_all_iff)
  ultimately show ?thesis using that by blast
qed

lemma cached_script_step:
  assumes "configured True False h" "cached_script i k path h = Some s" "e \<noteq> ThreadExit i"
  shows "cached_script i k path (host_step e h) = Some s"
proof (cases e)
  case (Request j k' rq)
  obtain d0 where d0: "map_of (js_data_registry h) i = Some d0"
    "map_option entry_script (map_of (cache_of k d0) path) = Some s" "\<not> cacheStatAlways d0"
    using assms(1,2) by (rule pinned_data)
  show ?thesis
  proof (cases rule: request_cases [where i = j and h = h and k = k' and rq = rq])
    case (1 d h' d' deltas resp)
    from 1(1) d0(1) have "map_of (js_data_registry h') i = Some d0"
      by (auto elim!: GetJsData_cases simp: map_add_def)
    moreover have "map_option entry_script (map_of (cache_of k d') path) = Some s" if "i = j"
    proof -
      have "d = d0" using 1(1) d0(1) that by (auto elim!: GetJsData_cases)
      with 1(2) handle_page_pins [OF d0(2,3), of k' rq] show ?thesis by simp
    qed
    ultimately show ?thesis
      using 1(3) Request d0(2) by (cases "i = j") (simp_all add: cached_script_def update_conv')
  qed
next
  case (ThreadExit j)
  with assms(2,3) show ?thesis
    by (simp add: cached_script_def DeleteJsData_def map_of_filter_key split: option.splits)
qed (use assms(2) in \<open>simp add: cached_script_def\<close>)

lemma cached_script_run:
  "configured True False h \<Longrightarrow> cached_script i k path h = Some s \<Longrightarrow> ThreadExit i \<notin> set es \<Longrightarrow>
     configured True False (run host_step es h) \<and> cached_script i k path (run host_step es h) = Some s"
proof (induction es arbitrary: h)
  case (Cons e es)
  then have "e \<noteq> ThreadExit i" by auto
  with Cons configured_step [of True False h e] cached_script_step [of h i k path s e] show ?case by simp
qed simp

lemma request_pinned:
  assumes "configured True False h" "cached_script i k path h = Some s" "url_file rq = Some path" "file_stat rq = Some st"
  shows "snd (request i k rq h) = serve (v8_run rq s)"
proof -
  obtain d where d: "map_of (js_data_registry h) i = Some d"
    "map_option entry_script (map_of (cache_of k d) path) = Some s" "\<not> cacheStatAlways d" "cacheEnabled d"
    using assms(1,2) by (rule pinned_data)
  then have "snd (snd (handle_page k rq d)) = serve (v8_run rq s)"
    using assms(3,4)
    by (cases k) (auto simp: handle_page_def JsRequest_def JsAdpRequest_def cached_request_def cache_hit_def
        cache_of_def Let_def)
  with d(1) show ?thesis by (cases "handle_page k rq d") (simp add: request_def GetJsData_def)
qed

text \<open>
  With \<open>js_cache_stat_always\<close> off a thread serves the version that it has loaded for
  ever: once its cache has a script for a file, every later request of the thread runs this script,
  whatever happens to the file and on the other threads, until the thread ends.
\<close>

theorem unchecked_cache_pins:
  assumes "cached_script i k path (run host_step es (host_init True False)) = Some s"
    and "ThreadExit i \<notin> set fs" "url_file rq = Some path" "file_stat rq = Some st"
  shows "snd (request i k rq (run host_step (es @ fs) (host_init True False))) = serve (v8_run rq s)"
proof -
  have "configured True False (run host_step es (host_init True False))"
    by (induction es rule: rev_induct) (simp_all add: host_init_ok run_append configured_step)
  from cached_script_run [OF this assms(1,2)] show ?thesis
    using assms(3,4) by (auto simp: run_append intro!: request_pinned)
qed

lemma unchecked_cache_pins_witness:
  "snd (request 1 JsPage (demo_request ''/a.js'' 9 ''new!'')
     (run host_step ([Request 1 JsPage (demo_request ''/a.js'' 5 ''old.'')] @ [StatsReset, ThreadExit 2])
       (host_init True False))) = Page ''old.''"
proof -
  have "cached_script 1 JsPage ''/a.js''
      (run host_step [Request 1 JsPage (demo_request ''/a.js'' 5 ''old.'')] (host_init True False)) = Some ''old.''"
    by code_simp
  from unchecked_cache_pins [OF this, of "[StatsReset, ThreadExit 2]" "demo_request ''/a.js'' 9 ''new!''"]
  show ?thesis by (simp add: serve_def demo_request_def)
qed

end
