(* ===== verification/ScriptStats.thy ===== *)
theory ScriptStats
  imports ScriptCache JsEngine
begin

text \<open>
  The statistics of the JavaScript host (\<open>ns.js.stats\<close> in \<open>nsjs/nsjs.cc\<close>), which the endpoint
  passes to the dashboard. The lemmas show what the counters say about the requests: how hits,
  misses and requests relate, that the isolates are the live threads, what the counters of a
  script can be, and what the dashboard shows of them.
\<close>

subsection \<open>The objects\<close>

text \<open>A counter becomes a number of JavaScript: \<open>static_cast<double>\<close>.\<close>

definition u64_num :: "u64 \<Rightarrow> jv" where
  "u64_num w = Num (number_value (of_nat (unat w)))"

definition JsStatsGlobal :: "js_global_stats \<Rightarrow> jv" where
  "JsStatsGlobal g = Obj
     [(''totalRequests'', u64_num (totalRequests g)), (''totalAdpRequests'', u64_num (totalAdpRequests g)),
      (''cacheHits'', u64_num (cacheHits g)), (''cacheMisses'', u64_num (cacheMisses g)),
      (''cacheInvalidations'', u64_num (cacheInvalidations g)),
      (''totalExecUsec'', u64_num (totalExecUsec g)), (''totalCompileUsec'', u64_num (totalCompileUsec g)),
      (''compileErrors'', u64_num (compileErrors g)), (''runtimeErrors'', u64_num (runtimeErrors g)),
      (''cachedScripts'', u64_num (cachedScripts g)), (''cachedAdpScripts'', u64_num (cachedAdpScripts g)),
      (''contextCreations'', u64_num (contextCreations g)),
      (''totalContextUsec'', u64_num (totalContextUsec g)),
      (''activeIsolates'', u64_num (activeIsolates g))]"

definition script_snapshot :: "string \<Rightarrow> string \<times> 's js_script_entry \<Rightarrow> jv" where
  "script_snapshot mark pe = (let e = snd pe in Obj
     [(''path'', Str (fst pe @ mark)), (''hitCount'', u64_num (hitCount e)),
      (''missCount'', u64_num (missCount e)), (''invalidateCount'', u64_num (invalidateCount e)),
      (''totalExecUsec'', u64_num (entryExecUsec e)), (''totalCompileUsec'', u64_num (entryCompileUsec e)),
      (''lastCompileTime'', Num (number_value (of_int (lastCompileTime e))))])"

definition JsStatsScripts :: "'s js_host \<Rightarrow> jv" where
  "JsStatsScripts h = Arr (concat (map (\<lambda>(_, d).
     map (script_snapshot '''') (scriptCache d) @ map (script_snapshot '' [jsadp]'') (adpCache d))
       (js_data_registry h)))"

subsection \<open>Hits and misses\<close>

text \<open>What a request adds to the counters of lookups.\<close>

lemma handle_page_deltas:
  assumes "handle_page k rq d = (d', deltas, resp)" "cacheEnabled d"
  shows "deltas = [] \<or> (\<exists>x. deltas = [x] \<and> d_requests x = 1 \<and> d_contextCreations x = 1 \<and>
    (d_cacheHits x = 1 \<and> d_cacheMisses x = 0 \<or> d_cacheHits x = 0 \<and> d_cacheMisses x = 1))"
proof -
  have "fst (snd (cached_request k rq path st always cache)) = [] \<or>
      (\<exists>x. fst (snd (cached_request k rq path st always cache)) = [x] \<and> d_requests x = 1 \<and> d_contextCreations x = 1 \<and>
        (d_cacheHits x = 1 \<and> d_cacheMisses x = 0 \<or> d_cacheHits x = 0 \<and> d_cacheMisses x = 1))"
    for path st always cache
    by (auto simp: cached_request_def cache_hit_def cache_miss_def base_delta_def no_delta_def Let_def
        split: option.splits)
  with assms show ?thesis
    by (cases k) (auto simp: handle_page_def JsRequest_def JsAdpRequest_def split: option.splits prod.splits, 
        (metis fst_conv snd_conv)+)
qed

text \<open>Every request that reaches its end is a hit or a miss, and makes one context.\<close>

definition tally :: "js_global_stats \<Rightarrow> bool" where
  "tally g \<longleftrightarrow> cacheHits g + cacheMisses g = totalRequests g \<and> contextCreations g = totalRequests g"

lemma tally_update:
  assumes "tally g" "deltas = [] \<or> (\<exists>x. deltas = [x] \<and> d_requests x = 1 \<and> d_contextCreations x = 1 \<and>
    (d_cacheHits x = 1 \<and> d_cacheMisses x = 0 \<or> d_cacheHits x = 0 \<and> d_cacheMisses x = 1))"
  shows "tally (fold NsJsUpdateGlobalStats deltas g)"
  using assms by (auto simp: tally_def NsJsUpdateGlobalStats_def ac_simps)

lemma GetJsData_config:
  "GetJsData i h = (d, h') \<Longrightarrow> configured enabled always h \<Longrightarrow> cacheEnabled d = enabled \<and> cacheStatAlways d = always"
  by (auto elim!: GetJsData_cases simp: configured_def new_js_data_def list_all_iff dest!: map_of_SomeD)

lemma tally_step:
  assumes "configured True always h" "tally (js_global_stats h)"
  shows "tally (js_global_stats (host_step e h))"
proof (cases e)
  case (Request i k rq)
  show ?thesis
  proof (cases rule: request_cases [where i = i and h = h and k = k and rq = rq])
    case (1 d h' d' deltas resp)
    have "tally (js_global_stats h')" using 1(1) assms(2) by (auto elim!: GetJsData_cases simp: tally_def)
    moreover have "cacheEnabled d" using GetJsData_config [OF 1(1) assms(1)] by simp
    ultimately show ?thesis using tally_update [OF _ handle_page_deltas [OF 1(2)]] 1(3) Request by simp
  qed
qed (use assms(2) in \<open>auto simp: tally_def DeleteJsData_def JsStatsReset_def no_stats_def split: option.splits\<close>)

interpretation counters: machine host_step "host_init True always"
  "\<lambda>h. configured True always h \<and> tally (js_global_stats h)"
proof unfold_locales
  show "configured True always (host_init True always) \<and> tally (js_global_stats (host_init True always))"
    by (simp add: host_init_ok) (simp add: host_init_def tally_def no_stats_def)
qed (use configured_step tally_step in blast)

text \<open>
  With the cache on the counters add up at every moment, also across wrap-around and
  resets: the hits and the misses of the cache are together the requests, modulo 2^64, and as many
  contexts have been made.
\<close>

theorem lookups_are_requests:
  "cacheHits (js_global_stats (run host_step es (host_init True always))) +
     cacheMisses (js_global_stats (run host_step es (host_init True always))) =
   totalRequests (js_global_stats (run host_step es (host_init True always))) \<and>
   contextCreations (js_global_stats (run host_step es (host_init True always))) =
   totalRequests (js_global_stats (run host_step es (host_init True always)))"
  using counters.inv_run [where es = es and always = always] by (simp add: tally_def)

subsection \<open>Isolates\<close>

text \<open>The threads that have served a request and not ended.\<close>

primrec live_threads :: "'s host_event list \<Rightarrow> nat set \<Rightarrow> nat set" where
  "live_threads [] T = T"
| "live_threads (e # es) T = live_threads es (case e of
     Request i k rq \<Rightarrow> insert i T
   | ThreadExit i \<Rightarrow> T - {i}
   | StatsReset \<Rightarrow> T)"

definition isolates_ok :: "nat set \<Rightarrow> 's js_host \<Rightarrow> bool" where
  "isolates_ok T h \<longleftrightarrow> distinct (map fst (js_data_registry h)) \<and> fst ` set (js_data_registry h) = T \<and>
     activeIsolates (js_global_stats h) = of_nat (card T)"

lemma activeIsolates_updates [simp]:
  "activeIsolates (fold NsJsUpdateGlobalStats deltas g) = activeIsolates g"
  by (induction deltas arbitrary: g) (simp_all add: NsJsUpdateGlobalStats_def)

lemma map_of_None_registry: "map_of xs i = None \<longleftrightarrow> i \<notin> fst ` set xs"
  by (simp add: map_of_eq_None_iff)

lemma isolates_request:
  assumes "isolates_ok T h"
  shows "isolates_ok (insert i T) (fst (request i k rq h))"
proof (cases rule: request_cases [where i = i and h = h and k = k and rq = rq])
  case (1 d h' d' deltas resp)
  have T: "finite T" using assms by (auto simp: isolates_ok_def)
  have "isolates_ok (insert i T) h'"
    using 1(1)
  proof (cases rule: GetJsData_cases)
    case 1
    then have "i \<in> T" using assms by (force simp: isolates_ok_def dest: map_of_SomeD)
    with 1(2) assms show ?thesis by (simp add: insert_absorb)
  next
    case 2
    then have "i \<notin> T" using assms by (auto simp: isolates_ok_def map_of_None_registry)
    with 2 assms T show ?thesis by (auto simp: isolates_ok_def)
  qed
  moreover have "i \<in> fst ` set (js_data_registry h')"
    using GetJsData_registered [OF 1(1)] by (force dest: map_of_SomeD)
  ultimately show ?thesis
    using 1(3) by (auto simp: isolates_ok_def distinct_update dom_update insert_absorb)
qed

lemma isolates_exit:
  assumes "isolates_ok T h" "card T < 2 ^ 64"
  shows "isolates_ok (T - {i}) (DeleteJsData i h)"
proof (cases "i \<in> T")
  case False
  then have "map_of (js_data_registry h) i = None"
    using assms(1) by (auto simp: isolates_ok_def map_of_None_registry)
  with False assms(1) show ?thesis by (simp add: DeleteJsData_def)
next
  case True
  then obtain d where d: "map_of (js_data_registry h) i = Some d"
    using assms(1) by (metis isolates_ok_def map_of_None_registry not_None_eq)
  have T: "finite T" using assms(1) by (auto simp: isolates_ok_def)
  with True have c: "card T = Suc (card (T - {i}))" by (metis card_Suc_Diff1)
  have "unat (of_nat (card T) :: u64) = card T" using assms(2) by (simp add: unsigned_of_nat take_bit_nat_eq_self)
  then have "0 < (of_nat (card T) :: u64)" using c by (metis unat_0 unat_gt_0 word_neq_0_conv zero_less_Suc)
  moreover have "(of_nat (card T) :: u64) - 1 = of_nat (card (T - {i}))" by (simp add: c)
  moreover have "distinct (map fst (filter (\<lambda>(j, _). j \<noteq> i) xs))" if "distinct (map fst xs)" for xs :: "(nat \<times> 'a js_data) list"
    using that by (induction xs) auto
  ultimately show ?thesis
    using assms(1) d by (auto simp: isolates_ok_def DeleteJsData_def)
qed

lemma isolates_run:
  "isolates_ok T h \<Longrightarrow> card T + length es < 2 ^ 64 \<Longrightarrow>
     isolates_ok (live_threads es T) (run host_step es h) \<and> card (live_threads es T) < 2 ^ 64"
proof (induction es arbitrary: T h)
  case (Cons e es)
  let ?T = "case e of Request i k rq \<Rightarrow> insert i T | ThreadExit i \<Rightarrow> T - {i} | StatsReset \<Rightarrow> T"
  have T: "finite T" using Cons.prems(1) by (auto simp: isolates_ok_def)
  have "isolates_ok ?T (host_step e h)"
    using isolates_request [OF Cons.prems(1)] isolates_exit [OF Cons.prems(1)] Cons.prems
    by (cases e) (simp_all add: isolates_ok_def JsStatsReset_def)
  moreover have "card ?T \<le> Suc (card T)"
    using T by (cases e) (simp_all add: card_insert_if card_Diff1_le le_SucI)
  ultimately show ?case using Cons.IH [of ?T "host_step e h"] Cons.prems(2) by simp
qed simp

text \<open>
  The number of active isolates is the number of live threads: those that have had a
  request since they last ended, whatever resets of the statistics there were.
\<close>

theorem isolates_are_live_threads:
  assumes "length es < 2 ^ 64"
  shows "unat (activeIsolates (js_global_stats (run host_step es (host_init enabled always)))) =
    card (live_threads es {})"
proof -
  have "isolates_ok {} (host_init enabled always)" by (simp add: isolates_ok_def host_init_def no_stats_def)
  from isolates_run [OF this, of es] assms
  have "isolates_ok (live_threads es {}) (run host_step es (host_init enabled always))"
    "card (live_threads es {}) < 2 ^ 64" by simp_all
  then show ?thesis by (simp add: isolates_ok_def unsigned_of_nat take_bit_nat_eq_self)
qed

lemma isolates_are_live_threads_witness:
  "unat (activeIsolates (js_global_stats (run host_step
     [Request 1 JsPage (demo_request ''/a.js'' 5 ''x''), Request 2 AdpPage (demo_request ''/b.jsadp'' 5 ''y''),
      StatsReset, ThreadExit 1] (host_init True True)))) = 1"
proof -
  let ?es = "[Request 1 JsPage (demo_request ''/a.js'' 5 ''x''), Request 2 AdpPage (demo_request ''/b.jsadp'' 5 ''y''),
      StatsReset, ThreadExit 1]"
  have "length ?es < 2 ^ 64" by simp
  from isolates_are_live_threads [OF this, of True True] show ?thesis by simp
qed

subsection \<open>The counters of a script\<close>

definition loaded_once :: "page_kind \<Rightarrow> string \<times> 's js_script_entry \<Rightarrow> bool" where
  "loaded_once k pe \<longleftrightarrow> missCount (snd pe) = 1 \<and> invalidateCount (snd pe) \<le> 1"

lemma list_all_concat_map: "list_all P (concat (map f xs)) \<longleftrightarrow> list_all (\<lambda>x. list_all P (f x)) xs"
  by (induction xs) simp_all

interpretation loads: machine host_step "host_init enabled always" "host_entries loaded_once"
proof unfold_locales
  show "host_entries loaded_once (host_init enabled always)" by (rule host_init_ok)
next
  fix h :: "'a js_host" and e
  assume "host_entries loaded_once h"
  then show "host_entries loaded_once (host_step e h)"
    by (rule host_entries_step [rotated])
      (rule handle_page_entries, simp_all add: loaded_once_def)
qed

text \<open>
  The counters of a script do not count its loads: whatever requests went before, and
  however often a script has been reloaded, the statistics show one miss and at most one
  invalidation for it, because a reload starts from a new entry.
\<close>

theorem script_counters_forget_reloads:
  "\<exists>ss. JsStatsScripts (run host_step es (host_init enabled always)) = Arr ss \<and>
     list_all (\<lambda>s. opt_get s ''missCount'' = Num (Fin 1) \<and>
       (opt_get s ''invalidateCount'' = Num (Fin 0) \<or> opt_get s ''invalidateCount'' = Num (Fin 1))) ss"
proof -
  let ?h = "run host_step es (host_init enabled always)"
  let ?P = "\<lambda>s. opt_get s ''missCount'' = Num (Fin 1) \<and>
       (opt_get s ''invalidateCount'' = Num (Fin 0) \<or> opt_get s ''invalidateCount'' = Num (Fin 1))"
  have small: "invalidateCount (snd pe) = 0 \<or> invalidateCount (snd pe) = 1"
    if "loaded_once k pe" for k and pe :: "string \<times> 'a js_script_entry"
  proof -
    have "unat (invalidateCount (snd pe)) \<le> 1" using that by (simp add: loaded_once_def word_le_nat_alt)
    then have "unat (invalidateCount (snd pe)) = 0 \<or> unat (invalidateCount (snd pe)) = 1" by linarith
    then show ?thesis by (metis unat_1 unat_0 word_unat_eq_iff)
  qed
  have n: "number_value 0 = Fin 0" "number_value 1 = Fin 1"
    using number_value_nat [of 0] number_value_nat [of 1] by simp_all
  have snap: "?P (script_snapshot mark pe)" if "loaded_once k pe" for mark k and pe :: "string \<times> 'a js_script_entry"
    using that small [OF that] by (auto simp: script_snapshot_def Let_def loaded_once_def u64_num_def n)
  have lists: "list_all ?P (map (script_snapshot mark) c)" if "list_all (loaded_once k) c" for mark k and c :: "'a cache"
    unfolding list.pred_map o_def using that by (rule list.pred_mono_strong) (rule snap)
  have "host_entries loaded_once ?h"
    using loads.inv_run [where es = es and enabled = enabled and always = always] .
  then have "list_all ?P (concat (map (\<lambda>(_, d).
     map (script_snapshot '''') (scriptCache d) @ map (script_snapshot '' [jsadp]'') (adpCache d)) (js_data_registry ?h)))"
    unfolding list_all_concat_map host_entries_def
    by (elim list.pred_mono_strong) (auto simp only: data_entries_def case_prod_beta list_all_append intro: lists)
  then show ?thesis by (simp add: JsStatsScripts_def)
qed

subsection \<open>The hit rate on the dashboard\<close>

text \<open>Without overflow the relation of the counters holds of natural numbers.\<close>

definition lookups :: "js_global_stats \<Rightarrow> nat" where
  "lookups g = unat (cacheHits g) + unat (cacheMisses g)"

lemma unat_add_one_le: "unat (w + 1 :: u64) \<le> unat w + 1"
  using mod_less_eq_dividend [of "unat w + unat (1 :: u64)" "2 ^ 64"] by (simp add: unat_word_ariths)

lemma lookups_step:
  assumes "configured True always h"
  shows "lookups (js_global_stats (host_step e h)) \<le> lookups (js_global_stats h) + 1"
proof (cases e)
  case (Request i k rq)
  show ?thesis
  proof (cases rule: request_cases [where i = i and h = h and k = k and rq = rq])
    case (1 d h' d' deltas resp)
    have h': "lookups (js_global_stats h') = lookups (js_global_stats h)"
      using 1(1) by (auto elim!: GetJsData_cases simp: lookups_def)
    have "cacheEnabled d" using GetJsData_config [OF 1(1) assms] by simp
    from handle_page_deltas [OF 1(2) this]
    have "lookups (fold NsJsUpdateGlobalStats deltas (js_global_stats h')) \<le> lookups (js_global_stats h') + 1"
      using unat_add_one_le by (auto simp: lookups_def NsJsUpdateGlobalStats_def)
    with 1(3) Request h' show ?thesis by simp
  qed
qed (auto simp: lookups_def DeleteJsData_def JsStatsReset_def no_stats_def split: option.splits)

lemma lookups_run:
  "configured True always h \<Longrightarrow> lookups (js_global_stats (run host_step es h)) \<le> lookups (js_global_stats h) + length es"
proof (induction es arbitrary: h)
  case (Cons e es)
  have "lookups (js_global_stats (run host_step es (host_step e h))) \<le>
      lookups (js_global_stats (host_step e h)) + length es"
    by (rule Cons.IH [OF configured_step [OF Cons.prems]])
  with lookups_step [OF Cons.prems, of e] show ?case by simp
qed simp

lemma u64_num_small: "unat w \<le> 2 ^ 53 \<Longrightarrow> u64_num w = Num (Fin (of_nat (unat w)))"
  unfolding u64_num_def by (simp only: number_value_nat)

lemma JsStatsGlobal_counter:
  "unat (cacheHits g) \<le> 2 ^ 53 \<Longrightarrow> opt_get (JsStatsGlobal g) ''cacheHits'' = Num (Fin (of_nat (unat (cacheHits g))))"
  "unat (cacheMisses g) \<le> 2 ^ 53 \<Longrightarrow> opt_get (JsStatsGlobal g) ''cacheMisses'' = Num (Fin (of_nat (unat (cacheMisses g))))"
  using u64_num_small [of "cacheHits g"] u64_num_small [of "cacheMisses g"] by (simp_all add: JsStatsGlobal_def)

text \<open>
  The hit rate that the section of the engine computes from the counters is the share of the
  requests that found their script in the cache.
\<close>

lemma host_hit_rate:
  assumes "length es \<le> 2 ^ 53" and g: "g = js_global_stats (run host_step es (host_init True always))"
  shows "unat (cacheHits g) + unat (cacheMisses g) = unat (totalRequests g)"
    and "hit_rate (JsStatsGlobal g) = Num (Fin (if totalRequests g = 0 then 0
      else rnd (of_nat (unat (cacheHits g)) / of_nat (unat (totalRequests g)))))"
proof -
  have le: "unat (cacheHits g) + unat (cacheMisses g) \<le> 2 ^ 53"
    using lookups_run [OF host_init_ok(1), of es always] assms(1)
    by (simp add: g lookups_def host_init_def no_stats_def)
  have "cacheHits g + cacheMisses g = totalRequests g"
    using counters.inv_run [where es = es and always = always] by (simp add: g tally_def)
  then show sum: "unat (cacheHits g) + unat (cacheMisses g) = unat (totalRequests g)"
    using le unat_word_ariths(1) [of "cacheHits g" "cacheMisses g"] by simp
  have "unat (cacheHits g) \<le> 2 ^ 53" "unat (cacheMisses g) \<le> 2 ^ 53" using le by simp_all
  from hit_rate_ratio [OF JsStatsGlobal_counter(1) [OF this(1)] JsStatsGlobal_counter(2) [OF this(2)] le]
  show "hit_rate (JsStatsGlobal g) = Num (Fin (if totalRequests g = 0 then 0
      else rnd (of_nat (unat (cacheHits g)) / of_nat (unat (totalRequests g)))))"
    unfolding sum by (simp add: unat_eq_0 del: of_nat_unat)
qed

end
