(* ===== verification/SharedStore.thy ===== *)
theory SharedStore
  imports JsNumber "HOL-Library.AList"
begin

text \<open>
  The store \<open>ns.shared\<close> of \<open>nsjs/nsjs.cc\<close>, which the threads of the server share: arrays of
  strings under string keys, in hash tables of hash tables, guarded by one lock, so that each call
  is one step. Texts are C strings in the store: they end at their first NUL. The lemmas show that
  the store is a map of pairs of names, that no increment is lost, and when a list can be read back.
\<close>

subsection \<open>Texts\<close>

text \<open>What \<open>c_str\<close>, \<open>ns_strdup\<close> and the keys of a hash table keep of a string.\<close>

definition c_str :: "string \<Rightarrow> string" where
  "c_str s = takeWhile (\<lambda>c. c \<noteq> CHR 0x00) s"

lemma c_str_c_str [simp]: "c_str (c_str s) = c_str s"
  unfolding c_str_def by (rule takeWhile_idem)

lemma c_str_plain [simp]: "CHR 0x00 \<notin> set s \<Longrightarrow> c_str s = s"
  by (auto simp: c_str_def takeWhile_eq_all_conv)

lemma c_str_append: "CHR 0x00 \<notin> set s \<Longrightarrow> c_str (s @ t) = s @ c_str t"
  unfolding c_str_def by (subst takeWhile_append2) auto

lemma c_str_no_nul [simp]: "CHR 0x00 \<notin> set (c_str s)"
  by (auto simp: c_str_def dest: set_takeWhileD)

text \<open>\<open>tolower\<close> in the C locale, by which \<open>strcasecmp\<close> and \<open>strncasecmp\<close> compare.\<close>

definition lower :: "char \<Rightarrow> char" where
  "lower c =
     (let n = of_char c :: nat in if 65 \<le> n \<and> n \<le> 90 then char_of (n + 32) else c)"

text \<open>\<open>strtol(s, nullptr, 10)\<close> and \<open>snprintf("%ld")\<close> on 64-bit longs.\<close>

definition c_space :: "char \<Rightarrow> bool" where
  "c_space c \<longleftrightarrow> c \<in> {CHR '' '', CHR 0x09, CHR 0x0A, CHR 0x0B, CHR 0x0C, CHR 0x0D}"

definition long_min :: int where "long_min = - (2 ^ 63)"

definition long_max :: int where "long_max = 2 ^ 63 - 1"

definition digits_value :: "string \<Rightarrow> int" where
  "digits_value s = (case read_nat s of Some (n, _) \<Rightarrow> int n | None \<Rightarrow> 0)"

definition strtol :: "string \<Rightarrow> int" where
  "strtol s =
     (let t = dropWhile c_space s;
          v = (case t of
              [] \<Rightarrow> 0
            | c # u \<Rightarrow> if c = CHR ''-'' then - digits_value u
                      else if c = CHR ''+'' then digits_value u
                      else digits_value t)
      in max long_min (min long_max v))"

lemma c_space_nat_str: "dropWhile c_space (nat_str n) = nat_str n"
proof -
  obtain c ds where s: "nat_str n = c # ds" by (cases "nat_str n") auto
  then have "digit_val c \<noteq> None" using nat_str_hd [of n] by simp
  then have "c \<in> set ''0123456789''" by (simp add: digit_val_def split: if_splits)
  then have "\<not> c_space c" by (auto simp: c_space_def)
  then show ?thesis by (simp add: s)
qed

lemma strtol_int_str:
  assumes "long_min \<le> n" "n \<le> long_max"
  shows "strtol (int_str n) = n"
proof (cases "n < 0")
  case True
  with assms show ?thesis
    by (simp add: strtol_def int_str_def digits_value_def c_space_def read_nat_str_only)
next
  case False
  obtain c ds where s: "nat_str (nat n) = c # ds" by (cases "nat_str (nat n)") auto
  then have "digit_val c \<noteq> None" using nat_str_hd [of "nat n"] by simp
  then have "c \<noteq> CHR ''-'' \<and> c \<noteq> CHR ''+''" by (auto simp: digit_val_def)
  with False assms c_space_nat_str [of "nat n"] read_nat_str_only [of "nat n"] s show ?thesis
    by (simp add: strtol_def int_str_def digits_value_def)
qed

text \<open>A long is read back from its text.\<close>

interpretation long: codec int_str "\<lambda>s. Some (strtol s)" "\<lambda>n. n" "\<lambda>n. long_min \<le> n \<and> n \<le> long_max"
  by unfold_locales (simp add: strtol_int_str)

subsection \<open>The store\<close>

type_synonym shared_array = "(string \<times> string) list"

type_synonym shared_store = "(string \<times> shared_array) list"

text \<open>
  The table of an array and a value in it, as \<open>Tcl_FindHashEntry\<close> finds them, and the entry that
  \<open>Tcl_CreateHashEntry\<close> makes.
\<close>

definition find_value :: "shared_store \<Rightarrow> string \<times> string \<Rightarrow> string option" where
  "find_value st ak = (case map_of st (fst ak) of None \<Rightarrow> None | Some inner \<Rightarrow> map_of inner (snd ak))"

definition put_value :: "string \<times> string \<Rightarrow> string \<Rightarrow> shared_store \<Rightarrow> shared_store" where
  "put_value ak v st =
     (let inner = (case map_of st (fst ak) of None \<Rightarrow> [] | Some inner \<Rightarrow> inner)
      in AList.update (fst ak) (AList.update (snd ak) v inner) st)"

definition delete_value :: "string \<times> string \<Rightarrow> shared_store \<Rightarrow> shared_store" where
  "delete_value ak st = (case map_of st (fst ak) of
       None \<Rightarrow> st
     | Some inner \<Rightarrow> AList.update (fst ak) (AList.delete (snd ak) inner) st)"

text \<open>What a client of the store relies on.\<close>

locale kv_store =
  fixes find :: "'s \<Rightarrow> 'k \<Rightarrow> 'v option"
    and put :: "'k \<Rightarrow> 'v \<Rightarrow> 's \<Rightarrow> 's"
    and delete :: "'k \<Rightarrow> 's \<Rightarrow> 's"
  assumes find_put: "find (put k v s) = (find s)(k \<mapsto> v)"
    and find_delete: "find (delete k s) = (find s)(k := None)"
begin

lemma find_put_same: "find (put k v s) k = Some v"
  by (simp add: find_put)

lemma puts_commute: "k \<noteq> l \<Longrightarrow> find (put k v (put l w s)) = find (put l w (put k v s))"
  by (simp add: find_put fun_upd_twist)

lemma last_put_wins: "find (put k v (put k w s)) = find (put k v s)"
  by (simp add: find_put)

lemma delete_put: "find s k = None \<Longrightarrow> find (delete k (put k v s)) = find s"
  by (simp add: find_put find_delete fun_upd_idem)

end

interpretation store: kv_store find_value put_value delete_value
proof
  fix st :: shared_store and k v
  show "find_value (put_value k v st) = (find_value st)(k \<mapsto> v)"
    by (rule ext, cases k)
      (auto simp: find_value_def put_value_def update_conv' split: option.splits)
  show "find_value (delete_value k st) = (find_value st)(k := None)"
    by (rule ext, cases k)
      (auto simp: find_value_def delete_value_def update_conv' delete_conv' split: option.splits)
qed

subsection \<open>The operations\<close>

text \<open>Each takes the texts of its arguments; an operation with too few arguments has no effect.\<close>

definition JsSharedSet :: "string list \<Rightarrow> shared_store \<Rightarrow> shared_store" where
  "JsSharedSet args st = (case args of
       arr # key # val # _ \<Rightarrow> put_value (c_str arr, c_str key) (c_str val) st
     | _ \<Rightarrow> st)"

definition JsSharedGet :: "string list \<Rightarrow> shared_store \<Rightarrow> string option" where
  "JsSharedGet args st = (case args of
       arr # key # _ \<Rightarrow> find_value st (c_str arr, c_str key)
     | _ \<Rightarrow> None)"

definition JsSharedExists :: "string list \<Rightarrow> shared_store \<Rightarrow> bool" where
  "JsSharedExists args st = (case args of
       arr # key # _ \<Rightarrow> find_value st (c_str arr, c_str key) \<noteq> None
     | _ \<Rightarrow> False)"

definition JsSharedUnset :: "string list \<Rightarrow> shared_store \<Rightarrow> shared_store" where
  "JsSharedUnset args st = (case args of
       arr # key # _ \<Rightarrow> delete_value (c_str arr, c_str key) st
     | _ \<Rightarrow> st)"

text \<open>
  An increment returns the new store and the new value as a double. Overflow of a signed long is
  undefined behaviour of C++: there is no result.
\<close>

definition JsSharedIncr :: "string \<Rightarrow> string \<Rightarrow> int \<Rightarrow> shared_store \<Rightarrow> (shared_store \<times> number) option" where
  "JsSharedIncr arr key delta st =
     (let ak = (c_str arr, c_str key);
          current = (case find_value st ak of None \<Rightarrow> 0 | Some old \<Rightarrow> strtol old);
          newVal = current + delta
      in if long_min \<le> newVal \<and> newVal \<le> long_max
         then Some (put_value ak (int_str newVal) st, number_value (of_int newVal)) else None)"

text \<open>The returned text has all of the appended value, the stored one ends at a NUL.\<close>

definition JsSharedAppend :: "string \<Rightarrow> string \<Rightarrow> string \<Rightarrow> shared_store \<Rightarrow> shared_store \<times> string" where
  "JsSharedAppend arr key app st =
     (let ak = (c_str arr, c_str key);
          cur = (case find_value st ak of None \<Rightarrow> '''' | Some old \<Rightarrow> old) @ app
      in (put_value ak (c_str cur) st, cur))"

definition JsSharedLAppend :: "string \<Rightarrow> string \<Rightarrow> string \<Rightarrow> shared_store \<Rightarrow> shared_store \<times> string" where
  "JsSharedLAppend arr key elm st =
     (let ak = (c_str arr, c_str key);
          old = (case find_value st ak of None \<Rightarrow> '''' | Some old \<Rightarrow> old);
          cur = (if old \<noteq> '''' then old @ '' '' else old) @ elm
      in (put_value ak (c_str cur) st, cur))"

text \<open>\<open>fnmatch\<close> is the matcher of glob patterns of the C library.\<close>

definition JsSharedNames :: "(string \<Rightarrow> string \<Rightarrow> bool) \<Rightarrow> string \<Rightarrow> shared_store \<Rightarrow> string list" where
  "JsSharedNames fnmatch pat st = filter (fnmatch (c_str pat)) (map fst st)"

definition JsSharedKeys :: "string \<Rightarrow> shared_store \<Rightarrow> string list" where
  "JsSharedKeys arr st = (case map_of st (c_str arr) of None \<Rightarrow> [] | Some inner \<Rightarrow> map fst inner)"

definition JsSharedGetAll :: "string \<Rightarrow> shared_store \<Rightarrow> (string \<times> string) list" where
  "JsSharedGetAll arr st = (case map_of st (c_str arr) of None \<Rightarrow> [] | Some inner \<Rightarrow> inner)"

subsection \<open>Threads and the store\<close>

text \<open>A call of a thread; the lock makes the calls of all threads one sequence.\<close>

datatype store_call =
    Set string string string
  | Unset string string
  | Incr string string int
  | Append string string string
  | LAppend string string string

definition exec_call :: "store_call \<Rightarrow> shared_store \<Rightarrow> shared_store option" where
  "exec_call e st = (case e of
       Set arr key val \<Rightarrow> Some (JsSharedSet [arr, key, val] st)
     | Unset arr key \<Rightarrow> Some (JsSharedUnset [arr, key] st)
     | Incr arr key delta \<Rightarrow> map_option fst (JsSharedIncr arr key delta st)
     | Append arr key app \<Rightarrow> Some (fst (JsSharedAppend arr key app st))
     | LAppend arr key elm \<Rightarrow> Some (fst (JsSharedLAppend arr key elm st)))"

text \<open>The same on a map from pairs of names to texts.\<close>

type_synonym shared_map = "string \<times> string \<rightharpoonup> string"

definition text_at :: "shared_map \<Rightarrow> string \<times> string \<Rightarrow> string" where
  "text_at m k = (case m k of None \<Rightarrow> '''' | Some t \<Rightarrow> t)"

definition spec_call :: "store_call \<Rightarrow> shared_map \<Rightarrow> shared_map option" where
  "spec_call e m = (case e of
       Set a k v \<Rightarrow> Some (m((c_str a, c_str k) \<mapsto> c_str v))
     | Unset a k \<Rightarrow> Some (m((c_str a, c_str k) := None))
     | Incr a k n \<Rightarrow>
         (let v = strtol (text_at m (c_str a, c_str k)) + n
          in if long_min \<le> v \<and> v \<le> long_max then Some (m((c_str a, c_str k) \<mapsto> int_str v)) else None)
     | Append a k t \<Rightarrow> Some (m((c_str a, c_str k) \<mapsto> c_str (text_at m (c_str a, c_str k) @ t)))
     | LAppend a k t \<Rightarrow>
         (let old = text_at m (c_str a, c_str k)
          in Some (m((c_str a, c_str k) \<mapsto> c_str ((if old = '''' then t else old @ '' '' @ t))))))"

lemma strtol_Nil [simp]: "strtol [] = 0"
  by (simp add: strtol_def long_min_def long_max_def)

interpretation shared: simulation exec_call spec_call find_value
proof
  fix e and st :: shared_store
  show "map_option find_value (exec_call e st) = spec_call e (find_value st)"
    by (cases e)
      (auto simp: exec_call_def spec_call_def JsSharedSet_def JsSharedUnset_def JsSharedIncr_def JsSharedAppend_def
        JsSharedLAppend_def text_at_def store.find_put store.find_delete Let_def split: option.splits)
qed


text \<open>The key that a call writes.\<close>

definition written_key :: "store_call \<Rightarrow> string \<times> string" where
  "written_key e = (case e of
       Set a k _ \<Rightarrow> (c_str a, c_str k) | Unset a k \<Rightarrow> (c_str a, c_str k) | Incr a k _ \<Rightarrow> (c_str a, c_str k)
     | Append a k _ \<Rightarrow> (c_str a, c_str k) | LAppend a k _ \<Rightarrow> (c_str a, c_str k))"

definition delta_of :: "string \<times> string \<Rightarrow> store_call \<Rightarrow> int" where
  "delta_of ak e = (case e of Incr a k n \<Rightarrow> if (c_str a, c_str k) = ak then n else 0 | _ \<Rightarrow> 0)"

lemma spec_call_frame: "spec_call e m = Some m' \<Longrightarrow> written_key e \<noteq> ak \<Longrightarrow> m' ak = m ak"
  by (cases e) (auto simp: spec_call_def written_key_def Let_def split: if_splits)

definition counter_at :: "shared_map \<Rightarrow> string \<times> string \<Rightarrow> int" where
  "counter_at m ak = strtol (text_at m ak)"

lemma counter_step:
  assumes "spec_call e m = Some m'" "written_key e = ak \<longrightarrow> (\<exists>a k n. e = Incr a k n)"
  shows "counter_at m' ak = counter_at m ak + delta_of ak e"
proof (cases "written_key e = ak")
  case False
  with spec_call_frame [OF assms(1) False] show ?thesis
    by (cases e) (simp_all add: counter_at_def text_at_def delta_of_def written_key_def)
next
  case True
  then obtain a k n where e: "e = Incr a k n" using assms(2) by blast
  with True assms(1) show ?thesis
    by (auto simp: counter_at_def text_at_def delta_of_def written_key_def spec_call_def Let_def strtol_int_str split: if_splits)
qed

lemma counter_run:
  "run_opt spec_call es m = Some m' \<Longrightarrow> \<forall>e \<in> set es. written_key e = ak \<longrightarrow> (\<exists>a k n. e = Incr a k n) \<Longrightarrow>
     counter_at m' ak = counter_at m ak + sum_list (map (delta_of ak) es)"
proof (induction es arbitrary: m)
  case (Cons e es)
  then obtain m1 where "spec_call e m = Some m1" "run_opt spec_call es m1 = Some m'"
    by (auto simp: bind_eq_Some_conv)
  with Cons counter_step [of e m m1 ak] show ?case by simp
qed simp

text \<open>
  Claim C20. No increment is lost: when the calls on a key are increments, whatever the threads do
  on other keys in between, the counter afterwards is its value before plus all the increments,
  whichever thread made them.
\<close>

theorem no_lost_increment:
  assumes "run_opt exec_call es st = Some st'"
    and "\<forall>e \<in> set es. written_key e = ak \<longrightarrow> (\<exists>a k n. e = Incr a k n)"
  shows "counter_at (find_value st') ak = counter_at (find_value st) ak + sum_list (map (delta_of ak) es)"
proof (rule counter_run [OF _ assms(2)])
  show "run_opt spec_call es (find_value st) = Some (find_value st')"
    using shared.sim_run [of es st] assms(1) by simp
qed

lemma no_lost_increment_witness:
  "\<exists>st'. run_opt exec_call [Incr ''n'' ''hits'' 1, Set ''n'' ''last'' ''x'', Incr ''n'' ''hits'' 41] [] = Some st' \<and>
     counter_at (find_value st') (''n'', ''hits'') = 42"
proof -
  have "run_opt exec_call [Incr ''n'' ''hits'' 1, Set ''n'' ''last'' ''x'', Incr ''n'' ''hits'' 41] [] \<noteq> None"
    using strtol_int_str [of 1] find_value_def [of "[]"]
    by (simp add: exec_call_def JsSharedIncr_def JsSharedSet_def store.find_put long_min_def long_max_def Let_def)
  then obtain st' where *: "run_opt exec_call [Incr ''n'' ''hits'' 1, Set ''n'' ''last'' ''x'', Incr ''n'' ''hits'' 41] [] = Some st'"
    by blast
  from no_lost_increment [OF this, of "(''n'', ''hits'')"]
  have "counter_at (find_value st') (''n'', ''hits'') = 42"
    by (simp add: written_key_def delta_of_def counter_at_def text_at_def find_value_def)
  with * show ?thesis by blast
qed

end
