(* ===== verification/HostApi.thy ===== *)
theory HostApi
  imports StatsApi ScriptStats SharedStore
begin

text \<open>
  The functions of the server (\<open>ns.*\<close> in \<open>nsjs/nsjs.cc\<close>) from which the endpoint collects its data.
  Most of them evaluate a Tcl command of the web server and turn the list in its answer into
  JavaScript objects. The web server, Tcl's list syntax and the C library are given. The lemmas
  show that whatever they answer, the functions return the shapes on which the endpoint and the
  page rely.
\<close>

subsection \<open>What the host finds\<close>

text \<open>
  The answer of \<open>TclEvalCmd\<close> (the empty text when the command fails), \<open>Tcl_SplitList\<close>, \<open>strtod\<close> as
  the number and the rest of the text, the facts of the server, the counters of the allocator and
  of the protocols, the error log, the configuration and the credentials of the request.
\<close>

record host_env =
  tcl_eval :: "string \<Rightarrow> string"
  split_list :: "string \<Rightarrow> string list option"
  strtod :: "string \<Rightarrow> number \<times> string"
  server_text :: "string \<Rightarrow> string"
  server_int :: "string \<Rightarrow> int"
  malloc_property :: "(string \<Rightarrow> u64 option) option"
  malloc_stats :: "string option"
  http2_counter :: "string \<Rightarrow> u64"
  http3_counter :: "(string \<Rightarrow> u64) option"
  engine_stats :: js_global_stats
  error_log :: "string option"
  config_value :: "string \<Rightarrow> string \<Rightarrow> string option"
  conn_auth_user :: "string option"
  conn_auth_passwd :: "string option"

definition int_num :: "int \<Rightarrow> jv" where
  "int_num n = Num (number_value (of_int n))"

definition atof :: "host_env \<Rightarrow> string \<Rightarrow> jv" where
  "atof h s = Num (fst (strtod h s))"

subsection \<open>Lists of Tcl\<close>

definition SetJsKv :: "host_env \<Rightarrow> string \<Rightarrow> string \<Rightarrow> props \<Rightarrow> props" where
  "SetJsKv h key val obj =
     (let (num, endptr) = strtod h val
      in js_put key (if endptr \<noteq> val \<and> endptr = [] then Num num else Str val) obj)"

text \<open>The loop over keys and values, two at a time.\<close>

fun set_pairs :: "(string \<Rightarrow> string \<Rightarrow> props \<Rightarrow> props) \<Rightarrow> string list \<Rightarrow> props \<Rightarrow> props" where
  "set_pairs f (k # v # kvs) obj = set_pairs f kvs (f k v obj)"
| "set_pairs f _ obj = obj"

definition TclKvListToJsObject :: "host_env \<Rightarrow> string \<Rightarrow> jv" where
  "TclKvListToJsObject h kvStr = (case split_list h kvStr of
       None \<Rightarrow> Obj []
     | Some argv \<Rightarrow>
         if argv = [] then Obj []
         else if CHR '' '' \<in> set (hd argv)
         then Obj (foldl (\<lambda>obj a. case split_list h a of
             Some (k # v # _) \<Rightarrow> SetJsKv h k v obj | _ \<Rightarrow> obj) [] argv)
         else Obj (set_pairs (SetJsKv h) argv []))"

text \<open>The lists of lists: \<open>row\<close> makes the object of an inner list that is long enough.\<close>

definition tcl_rows :: "host_env \<Rightarrow> string \<Rightarrow> (string list \<Rightarrow> jv list) \<Rightarrow> jv" where
  "tcl_rows h cmd row =
     (let result = tcl_eval h cmd
      in if result = [] then Arr []
         else (case split_list h result of
             None \<Rightarrow> Arr []
           | Some outer \<Rightarrow> Arr (concat (map (\<lambda>x. case split_list h x of
               None \<Rightarrow> [] | Some inner \<Rightarrow> row inner) outer))))"

definition JsInfoLocks :: "host_env \<Rightarrow> jv" where
  "JsInfoLocks h = tcl_rows h ''ns_info locks'' (\<lambda>l. if 5 \<le> length l then
     [Obj [(''name'', Str (l ! 0)), (''owner'', Str (l ! 1)), (''id'', Str (l ! 2)),
           (''nlock'', atof h (l ! 3)), (''nbusy'', atof h (l ! 4))]] else [])"

definition JsInfoThreads :: "host_env \<Rightarrow> jv" where
  "JsInfoThreads h = tcl_rows h ''ns_info threads'' (\<lambda>l. if 7 \<le> length l then
     [Obj [(''name'', Str (l ! 0)), (''parent'', Str (l ! 1)), (''tid'', Str (l ! 2)),
           (''flags'', atof h (l ! 3)), (''ctime'', atof h (l ! 4)),
           (''proc'', Str (l ! 5)), (''arg'', Str (l ! 6))]] else [])"

definition JsInfoCallbacks :: "host_env \<Rightarrow> jv" where
  "JsInfoCallbacks h = tcl_rows h ''ns_info callbacks'' (\<lambda>l. if 3 \<le> length l then
     [Obj [(''event'', Str (l ! 0)), (''name'', Str (l ! 1)), (''arg'', Str (l ! 2))]] else [])"

definition JsInfoSockcallbacks :: "host_env \<Rightarrow> jv" where
  "JsInfoSockcallbacks h = tcl_rows h ''ns_info sockcallbacks'' (\<lambda>l. if 4 \<le> length l then
     [Obj [(''sock'', Str (l ! 0)), (''when'', Str (l ! 1)), (''proc'', Str (l ! 2)), (''arg'', Str (l ! 3))]]
     else [])"

definition JsInfoScheduled :: "host_env \<Rightarrow> jv" where
  "JsInfoScheduled h = tcl_rows h ''ns_info scheduled'' (\<lambda>l. if 9 \<le> length l then
     [Obj [(''id'', atof h (l ! 0)), (''flags'', atof h (l ! 1)), (''interval'', atof h (l ! 2)),
           (''nextqueue'', atof h (l ! 3)), (''lastqueue'', atof h (l ! 4)), (''laststart'', atof h (l ! 5)),
           (''lastend'', atof h (l ! 6)), (''proc'', Str (l ! 7)), (''arg'', Str (l ! 8))]] else [])"

definition JsServerUrlStats :: "host_env \<Rightarrow> jv" where
  "JsServerUrlStats h = tcl_rows h ''ns_server urlstats'' (\<lambda>item. if 2 \<le> length item then
     (case split_list h (item ! 1) of
        None \<Rightarrow> []
      | Some s \<Rightarrow> if 8 \<le> length s then
          [Obj [(''url'', Str (item ! 0)), (''hits'', atof h (s ! 0)), (''waitUsec'', atof h (s ! 2)),
                (''openUsec'', atof h (s ! 4)), (''closedUsec'', atof h (s ! 6))]] else []) else [])"

text \<open>The entries of the ADP cache: pairs of a file and a list of at least eight counters.\<close>

fun adp_entries :: "host_env \<Rightarrow> string list \<Rightarrow> jv list" where
  "adp_entries h (file # kvs # rest) =
     (let obj = js_put ''file'' (Str file) [];
          obj = (case split_list h kvs of
              None \<Rightarrow> obj
            | Some kv \<Rightarrow> if 16 \<le> length kv then set_pairs (\<lambda>k v. js_put k (atof h v)) kv obj else obj)
      in Obj obj # adp_entries h rest)"
| "adp_entries h _ = []"

definition JsAdpStats :: "host_env \<Rightarrow> jv" where
  "JsAdpStats h =
     (let result = tcl_eval h ''ns_adp_stats''
      in if result = [] then Arr []
         else (case split_list h result of
             None \<Rightarrow> Arr []
           | Some kv \<Rightarrow> if 2 \<le> length kv then Arr (adp_entries h kv) else Arr []))"

text \<open>The statistics of all caches; a number must be the whole of its text.\<close>

definition cache_stat :: "host_env \<Rightarrow> string \<Rightarrow> string \<Rightarrow> props \<Rightarrow> props" where
  "cache_stat h k v obj =
     (let key = strip_colon k; (dv, endptr) = strtod h v
      in js_put key (if endptr = [] then Num dv else Str v) obj)"

definition cache_stats_row :: "host_env \<Rightarrow> string \<Rightarrow> props" where
  "cache_stats_row h name =
     (let stats_str = tcl_eval h (''ns_cache_stats '' @ name)
      in if stats_str = [] then []
         else (case split_list h stats_str of None \<Rightarrow> [] | Some kv \<Rightarrow> set_pairs (cache_stat h) kv []))"

definition JsCacheStatsAll :: "host_env \<Rightarrow> jv" where
  "JsCacheStatsAll h =
     (let names_str = tcl_eval h ''ns_cache_names''
      in if names_str = [] then Obj []
         else (case split_list h names_str of
             None \<Rightarrow> Obj []
           | Some names \<Rightarrow>
               Obj (foldl (\<lambda>result name. js_put name (Obj (cache_stats_row h name)) result) [] names)))"

subsection \<open>The server and its drivers\<close>

definition JsServerThreads :: "host_env \<Rightarrow> jv" where
  "JsServerThreads h = TclKvListToJsObject h (tcl_eval h ''ns_server threads'')"

definition JsServerConnections :: "host_env \<Rightarrow> jv" where
  "JsServerConnections h =
     (let result = tcl_eval h ''ns_server connections''; (n, endptr) = strtod h result
      in if endptr \<noteq> result then Num n else Str result)"

definition JsServerActive :: "host_env \<Rightarrow> jv" where
  "JsServerActive h = (case split_list h (tcl_eval h ''ns_server active'') of
       None \<Rightarrow> int_num 0 | Some argv \<Rightarrow> int_num (int (length argv)))"

text \<open>\<open>queued\<close>, \<open>waiting\<close> and \<open>keepalive\<close>.\<close>

definition server_number :: "host_env \<Rightarrow> string \<Rightarrow> jv" where
  "server_number h cmd =
     (let result = tcl_eval h cmd; (n, endptr) = strtod h result
      in if endptr \<noteq> result then Num n else int_num 0)"

definition tcl_names :: "host_env \<Rightarrow> string \<Rightarrow> jv" where
  "tcl_names h cmd = (case split_list h (tcl_eval h cmd) of None \<Rightarrow> Arr [] | Some argv \<Rightarrow> Arr (map Str argv))"

definition JsServerPools :: "host_env \<Rightarrow> jv" where
  "JsServerPools h = tcl_names h ''ns_server pools''"

definition JsDriverList :: "host_env \<Rightarrow> jv" where
  "JsDriverList h = tcl_names h ''ns_driver list''"

definition JsHttp2Stats :: "host_env \<Rightarrow> jv" where
  "JsHttp2Stats h = Obj (map (\<lambda>k. (k, u64_num (http2_counter h k)))
     [''feed_ok'', ''feed_mem_recv_err'', ''trysend_recoveries'', ''sessions_created'', ''sessions_destroyed'',
      ''streams_dispatched'', ''rst_stream_sent'', ''session_send_fail'', ''bytes_sent'', ''ping_recv'',
      ''goaway_recv'', ''rst_stream_recv'', ''goaway_sent'', ''ping_sent'', ''ping_ack_sent'', ''defer_appends'',
      ''defer_max_depth'', ''trysend_drain_reads'', ''bytes_fed''])"

definition JsHttp3Stats :: "host_env \<Rightarrow> jv" where
  "JsHttp3Stats h = (case http3_counter h of
       None \<Rightarrow> Obj []
     | Some c \<Rightarrow> Obj (map (\<lambda>k. (k, u64_num (c k)))
         [''packets_recv'', ''packets_sent'', ''bytes_recv_udp'', ''bytes_sent_udp'', ''conn_accepted'',
          ''conn_closed'', ''handshake_completed'', ''handshake_fail'', ''streams_dispatched'', ''read_pkt_err'',
          ''send_fail'', ''version_negotiation_sent'', ''defer_appends'', ''defer_max_depth'']))"

subsection \<open>Memory\<close>

definition memory_properties :: "string list" where
  "memory_properties =
     [''generic.current_allocated_bytes'', ''generic.heap_size'', ''tcmalloc.pageheap_free_bytes'',
      ''tcmalloc.pageheap_unmapped_bytes'', ''tcmalloc.max_total_thread_cache_bytes'',
      ''tcmalloc.current_total_thread_cache_bytes'', ''tcmalloc.central_cache_free_bytes'',
      ''tcmalloc.transfer_cache_free_bytes'', ''tcmalloc.thread_cache_free_bytes'']"

definition JsMemoryStats :: "host_env \<Rightarrow> jv" where
  "JsMemoryStats h = (case malloc_property h of
       None \<Rightarrow> Obj [(''available'', Bool False)]
     | Some get_prop \<Rightarrow> Obj ((''available'', Bool True) #
         concat (map (\<lambda>k. case get_prop k of None \<Rightarrow> [] | Some val \<Rightarrow> [(k, u64_num val)]) memory_properties)))"

text \<open>
  \<open>sscanf\<close> with a format of blanks, literal characters and \<open>%d\<close>: the values of the conversions up to
  the first mismatch. A conversion reads a long, of which an int keeps the low 32 bits.
\<close>

datatype scan_item = White | Lit char | Dec

definition format_of :: "string \<Rightarrow> scan_item list" where
  "format_of s = map (\<lambda>c. if c_space c then White else if c = CHR ''%'' then Dec else Lit c) s"

definition digit_run :: "string \<Rightarrow> string" where
  "digit_run s = dropWhile (\<lambda>c. digit_val c \<noteq> None) s"

definition scan_dec :: "string \<Rightarrow> (int \<times> string) option" where
  "scan_dec s =
     (let t = dropWhile c_space s;
          u = (case t of [] \<Rightarrow> [] | c # r \<Rightarrow> if c = CHR ''-'' \<or> c = CHR ''+'' then r else t)
      in if read_nat u = None then None
         else Some (signed_take_bit 31 (strtol t), digit_run u))"

fun scan :: "scan_item list \<Rightarrow> string \<Rightarrow> int list" where
  "scan [] s = []"
| "scan (White # f) s = scan f (dropWhile c_space s)"
| "scan (Lit c # f) s = (case s of [] \<Rightarrow> [] | d # t \<Rightarrow> if c = d then scan f t else [])"
| "scan (Dec # f) s = (case scan_dec s of None \<Rightarrow> [] | Some (n, t) \<Rightarrow> n # scan f t)"

text \<open>The format, with \<open>%\<close> for \<open>%d\<close>.\<close>

definition class_format :: "scan_item list" where
  "class_format = format_of '' class % [ % bytes ] : % objs; % bytes; % pages''"

text \<open>The loop over the lines of the report, which ends at its NUL.\<close>

function report_lines :: "string \<Rightarrow> string list" where
  "report_lines s =
     (if s = [] then []
      else takeWhile (\<lambda>c. c \<noteq> newline) s #
        (if newline \<in> set s then report_lines (tl (dropWhile (\<lambda>c. c \<noteq> newline) s)) else []))"
  by pat_completeness auto

termination
proof (relation "measure length")
  fix s :: string
  assume "s \<noteq> []" "newline \<in> set s"
  then have "dropWhile (\<lambda>c. c \<noteq> newline) s \<noteq> []" by auto
  moreover have "length (dropWhile (\<lambda>c. c \<noteq> newline) s) \<le> length s" by (rule length_dropWhile_le)
  ultimately show "(tl (dropWhile (\<lambda>c. c \<noteq> newline) s), s) \<in> measure length"
    using \<open>s \<noteq> []\<close> by (cases "dropWhile (\<lambda>c. c \<noteq> newline) s") simp_all
qed simp

declare report_lines.simps [simp del]

definition size_class_row :: "string \<Rightarrow> jv list" where
  "size_class_row line = (case scan class_format line of
       [cl, sz, objs, bytes, pages] \<Rightarrow>
         [Obj [(''class'', int_num cl), (''size'', int_num sz), (''freeObjects'', int_num objs),
               (''freeBytes'', int_num bytes), (''pages'', int_num pages)]]
     | _ \<Rightarrow> [])"

text \<open>The report is cut to the buffer of one megabyte.\<close>

definition JsMemorySizeClasses :: "host_env \<Rightarrow> jv" where
  "JsMemorySizeClasses h = (case malloc_stats h of
       None \<Rightarrow> Arr []
     | Some report \<Rightarrow> Arr (concat (map size_class_row (report_lines (c_str (take (1024 * 1024 - 1) report))))))"

subsection \<open>The log, the configuration and the request\<close>

definition JsLogTail :: "host_env \<Rightarrow> nat \<Rightarrow> jv" where
  "JsLogTail h nbytes = (case error_log h of
       None \<Rightarrow> Str ''''
     | Some contents \<Rightarrow> if contents = [] then Str '''' else Str (c_str (last_n nbytes contents)))"

definition JsConfig :: "host_env \<Rightarrow> string \<Rightarrow> string \<Rightarrow> jv \<Rightarrow> jv" where
  "JsConfig h sec key d = (case config_value h (c_str sec) (c_str key) of Some val \<Rightarrow> Str val | None \<Rightarrow> d)"

definition or_null :: "string option \<Rightarrow> jv" where
  "or_null s = (case s of None \<Rightarrow> Null | Some t \<Rightarrow> Str t)"

text \<open>The functions of \<open>ns\<close> by name.\<close>

definition host_functions :: "host_env \<Rightarrow> (string \<times> jv) list" where
  "host_functions h =
     map (\<lambda>k. (''info.'' @ k, Str (server_text h k)))
       [''serverName'', ''version'', ''hostname'', ''address'', ''pageroot'', ''platform'', ''buildDate''] @
     map (\<lambda>k. (''info.'' @ k, int_num (server_int h k))) [''uptime'', ''boottime'', ''pid''] @
     [(''info.locks'', JsInfoLocks h), (''info.threads'', JsInfoThreads h),
      (''info.scheduled'', JsInfoScheduled h), (''info.callbacks'', JsInfoCallbacks h),
      (''info.sockcallbacks'', JsInfoSockcallbacks h),
      (''js.stats.global'', JsStatsGlobal (engine_stats h)),
      (''memory.stats'', JsMemoryStats h), (''memory.sizeClasses'', JsMemorySizeClasses h),
      (''server.threads'', JsServerThreads h), (''server.active'', JsServerActive h),
      (''server.queued'', server_number h ''ns_server queued''),
      (''server.waiting'', server_number h ''ns_server waiting''),
      (''server.keepalive'', server_number h ''ns_server keepalive''),
      (''server.connections'', JsServerConnections h), (''server.pools'', JsServerPools h),
      (''server.urlstats'', JsServerUrlStats h), (''driver.list'', JsDriverList h),
      (''http2.stats'', JsHttp2Stats h), (''http3.stats'', JsHttp3Stats h),
      (''cache.statsAll'', JsCacheStatsAll h), (''adp.stats'', JsAdpStats h)]"

definition host_api :: "host_env \<Rightarrow> server_api" where
  "host_api h =
     \<lparr>ns_config = (\<lambda>sec key d. JsConfig h (to_str sec) key (Str d)),
      ns_auth_user = or_null (conn_auth_user h), ns_auth_passwd = or_null (conn_auth_passwd h),
      ns_call = lookup (host_functions h), ns_log_tail = JsLogTail h\<rparr>"

subsection \<open>Shapes\<close>

lemma scalar_atoms [simp]: "scalar (Str s)" "scalar (Num n)"
  by (simp_all add: scalar_def)

lemma host_scalar_simps [simp]: "scalar (int_num n)" "scalar (u64_num w)" "scalar (atof h s)" "scalar (server_number h cmd)"
  by (simp_all add: int_num_def u64_num_def atof_def server_number_def Let_def split: prod.splits)

lemma flat_list_tcl_rows: "(\<And>l. list_all flat (row l)) \<Longrightarrow> flat_list (tcl_rows h cmd row)"
  by (auto simp: tcl_rows_def flat_list_def list_all_iff Let_def split: option.splits)

lemma flat_put: "list_all (\<lambda>(k, w). scalar w) obj \<Longrightarrow> scalar v \<Longrightarrow> list_all (\<lambda>(k, w). scalar w) (js_put k v obj)"
  by (rule all_props_js_put)

lemma set_pairs_all:
  "list_all P obj \<Longrightarrow> (\<And>k v obj. list_all P obj \<Longrightarrow> list_all P (f k v obj)) \<Longrightarrow> list_all P (set_pairs f kvs obj)"
  by (induction f kvs obj rule: set_pairs.induct) simp_all

lemma SetJsKv_flat: "list_all (\<lambda>(k, w). scalar w) obj \<Longrightarrow> list_all (\<lambda>(k, w). scalar w) (SetJsKv h key v obj)"
  by (simp add: SetJsKv_def flat_put split: prod.splits)

lemma cache_stat_flat: "list_all (\<lambda>(k, w). scalar w) obj \<Longrightarrow> list_all (\<lambda>(k, w). scalar w) (cache_stat h k v obj)"
  by (simp add: cache_stat_def flat_put Let_def split: prod.splits)

lemma TclKvListToJsObject_flat: "flat (TclKvListToJsObject h s)"
proof -
  have "list_all (\<lambda>(k, w). scalar w) (foldl (\<lambda>obj a. case split_list h a of
      Some (k # v # _) \<Rightarrow> SetJsKv h k v obj | _ \<Rightarrow> obj) obj argv)" if "list_all (\<lambda>(k, w). scalar w) obj" for obj argv
    using that by (induction argv arbitrary: obj) (auto simp: SetJsKv_flat split: option.splits list.splits)
  then show ?thesis
    by (auto simp: TclKvListToJsObject_def flat_def set_pairs_all SetJsKv_flat split: option.splits)
qed

lemma adp_entries_flat: "list_all flat (adp_entries h kv)"
  by (induction h kv rule: adp_entries.induct)
    (auto simp: flat_def Let_def flat_put set_pairs_all split: option.splits)

lemma JsCacheStatsAll_flat: "flat_table (JsCacheStatsAll h)"
proof -
  have "flat (Obj (cache_stats_row h name))" for name
    by (auto simp: cache_stats_row_def flat_def set_pairs_all cache_stat_flat Let_def split: option.splits)
  then show ?thesis
    by (auto simp: JsCacheStatsAll_def flat_table_def Let_def all_props_puts [where f = "\<lambda>y. y"] split: option.splits)
qed

lemma size_class_row_flat: "list_all flat (size_class_row line)"
  by (auto simp: size_class_row_def flat_def split: list.splits)

text \<open>
  The functions of the server return what the endpoint needs, whatever the web server's
  Tcl commands answer, also when they fail or their lists are malformed: scalars, flat objects,
  and lists or tables of flat objects.
\<close>

lemma host_documented_shapes: "documented_shapes (host_api h)"
proof -
  have "scalar (JsServerConnections h)" "scalar (JsServerActive h)" "scalar (JsLogTail h 8192)"
    by (auto simp: JsServerConnections_def JsServerActive_def JsLogTail_def Let_def split: prod.splits option.splits)
  moreover have "flat (JsStatsGlobal g)" for g by (simp add: JsStatsGlobal_def flat_def)
  moreover have "scalar_list (tcl_names h cmd)" for cmd
    by (auto simp: tcl_names_def scalar_list_def list_all_iff split: option.splits)
  moreover have "flat_list (JsMemorySizeClasses h)"
    using size_class_row_flat by (force simp: JsMemorySizeClasses_def flat_list_def list_all_iff split: option.splits)
  moreover have "flat_list (JsAdpStats h)"
    by (auto simp: JsAdpStats_def flat_list_def adp_entries_flat Let_def split: option.splits)
  moreover have "flat_list (JsInfoLocks h)" "flat_list (JsInfoThreads h)" "flat_list (JsInfoScheduled h)"
      "flat_list (JsServerUrlStats h)"
    unfolding JsInfoLocks_def JsInfoThreads_def JsInfoScheduled_def JsServerUrlStats_def
    by (rule flat_list_tcl_rows, simp add: flat_def split: option.splits)+
  ultimately show ?thesis
    by (simp add: documented_shapes_def host_api_def host_functions_def lookup_def flat_opt_def
        JsServerThreads_def TclKvListToJsObject_flat JsServerPools_def JsDriverList_def JsCacheStatsAll_flat)
qed

subsection \<open>A small server\<close>

text \<open>A server with one cache and one thread pool, whose lists are words between blanks.\<close>

fun split_words :: "string \<Rightarrow> string \<Rightarrow> string list" where
  "split_words w [] = (if w = [] then [] else [w])"
| "split_words w (c # s) =
     (if c = CHR '' '' then (if w = [] then [] else [w]) @ split_words [] s else split_words (w @ [c]) s)"

definition small_strtod :: "string \<Rightarrow> number \<times> string" where
  "small_strtod s =
     (if s \<noteq> [] \<and> list_all (\<lambda>c. digit_val c \<noteq> None) s then (number_value (of_int (strtol s)), []) else (Fin 0, s))"

definition small_host :: "js_global_stats \<Rightarrow> host_env" where
  "small_host g =
     \<lparr>tcl_eval = (\<lambda>cmd. if cmd = ''ns_cache_names'' then ''adp''
        else if cmd = ''ns_cache_stats adp'' then ''hits: 3 misses: 1''
        else if cmd = ''ns_server threads'' then ''min 0 max 10 current 2 idle 1'' else []),
      split_list = (\<lambda>s. Some (split_words [] s)), strtod = small_strtod,
      server_text = (\<lambda>k. k), server_int = (\<lambda>k. 7), malloc_property = None, malloc_stats = None,
      http2_counter = (\<lambda>k. 0), http3_counter = None, engine_stats = g, error_log = Some ''started'',
      config_value = (\<lambda>sec key. None), conn_auth_user = Some ''nsadmin'', conn_auth_passwd = Some []\<rparr>"

end
