(* ===== verification/Wire.thy ===== *)
theory Wire
  imports StatsApi
begin

text \<open>
  The data between the endpoint and the client: the body of an answer is JSON, and what the
  client reads from it is the data of the endpoint member by member. The shape on which the
  page relies survives the way.
\<close>

subsection \<open>What arrives at the client\<close>

definition arrives :: "jv \<Rightarrow> jv" where
  "arrives v = (case json_image v of Some w \<Rightarrow> w | None \<Rightarrow> Undef)"

lemma lookup_puts_last:
  "lookup (foldl (\<lambda>ps (k, v). obj_put k v ps) acc ms) l =
     (case map_of (rev ms) l of Some w \<Rightarrow> w | None \<Rightarrow> lookup acc l)"
  by (induction ms arbitrary: acc rule: rev_induct) auto

definition image_members :: "props \<Rightarrow> props" where
  "image_members ps = concat (map (\<lambda>p. case json_image (snd p) of Some w \<Rightarrow> [(fst p, w)] | None \<Rightarrow> []) ps)"

lemma keys_image_members: "fst ` set (image_members ps) \<subseteq> fst ` set ps"
  by (force simp: image_members_def split: option.splits)

lemma distinct_image_members: "distinct (map fst ps) \<Longrightarrow> distinct (map fst (image_members ps))"
proof (induction ps)
  case (Cons p ps)
  have "fst p \<notin> set (map fst (image_members ps))"
    using Cons.prems keys_image_members [of ps] by (auto simp only: distinct.simps list.map set_map)
  with Cons show ?case by (auto simp: image_members_def split: option.splits)
qed (simp add: image_members_def)

lemma map_of_image_members:
  "distinct (map fst ps) \<Longrightarrow> map_of (image_members ps) k = Option.bind (map_of ps k) json_image"
proof (induction ps)
  case (Cons p ps)
  have "image_members (p # ps) = (case json_image (snd p) of Some w \<Rightarrow> [(fst p, w)] | None \<Rightarrow> []) @ image_members ps"
    by (simp add: image_members_def)
  moreover have "map_of ps k = None" if "k = fst p" using Cons.prems that by (auto simp: map_of_eq_None_iff)
  ultimately show ?case using Cons by (cases p) (auto split: option.splits)
qed (simp add: image_members_def)

lemma map_of_rev_distinct:
  assumes "distinct (map fst ms)"
  shows "map_of (rev ms) k = map_of ms k"
proof (cases "map_of ms k")
  case None
  then have "map_of (rev ms) k = None" by (simp add: map_of_eq_None_iff)
  with None show ?thesis by simp
next
  case (Some v)
  then have "(k, v) \<in> set (rev ms)" by (auto dest: map_of_SomeD)
  then show ?thesis using assms Some by (simp add: map_of_eq_Some_iff rev_map [symmetric])
qed

text \<open>The members of what arrives are what arrives of the members.\<close>

lemma lookup_arrives:
  assumes "distinct (map fst ps)"
  shows "opt_get (arrives (Obj ps)) k = arrives (lookup ps k)"
proof -
  have "map_of (rev (image_members ps)) = map_of (image_members ps)"
    by (rule ext) (rule map_of_rev_distinct [OF distinct_image_members [OF assms]])
  then have "opt_get (arrives (Obj ps)) k = (case map_of (image_members ps) k of Some w \<Rightarrow> w | None \<Rightarrow> Undef)"
    by (simp add: arrives_def build_obj_def lookup_puts_last flip: image_members_def split: option.split)
  then show ?thesis
    by (cases "map_of ps k") (simp_all add: map_of_image_members [OF assms] arrives_def lookup_def)
qed

lemma all_props_build:
  assumes "\<forall>m \<in> set ms. P (snd m)"
  shows "case build_obj ms of Obj ps \<Rightarrow> list_all (\<lambda>(k, w). P w) ps | _ \<Rightarrow> False"
proof -
  have "list_all (\<lambda>(k, w). P w) (foldl (\<lambda>ps (k, v). obj_put k v ps) acc ms)" if "list_all (\<lambda>(k, w). P w) acc" for acc
    using assms that by (induction ms arbitrary: acc) (auto simp: all_props_obj_put)
  from this [of "[]"] show ?thesis by (simp add: build_obj_def)
qed

lemma scalar_arrives: "scalar v \<Longrightarrow> scalar (arrives v)"
  by (cases v) (simp_all add: arrives_def split: number.splits)

lemma image_scalar: "json_image v = Some w \<Longrightarrow> scalar v \<Longrightarrow> scalar w"
  using scalar_arrives [of v] by (simp add: arrives_def)

lemma nullish_arrives: "nullish v \<Longrightarrow> nullish (arrives v)"
  by (auto simp: nullish_def arrives_def)

lemma members_arrive:
  assumes "list_all (\<lambda>(k, w). P w) ps" "\<And>v w. P v \<Longrightarrow> json_image v = Some w \<Longrightarrow> Q w"
  shows "case arrives (Obj ps) of Obj qs \<Rightarrow> list_all (\<lambda>(k, w). Q w) qs | _ \<Rightarrow> False"
proof -
  have "Q (snd m)" if m: "m \<in> set (image_members ps)" for m
  proof -
    obtain k v w where "(k, v) \<in> set ps" "json_image v = Some w" "m = (k, w)"
      using m by (auto simp: image_members_def split: option.splits)
    with assms show ?thesis by (force simp: list_all_iff)
  qed
  then show ?thesis
    using all_props_build [of "image_members ps" Q] by (simp add: arrives_def flip: image_members_def)
qed

lemma flat_arrives: "flat v \<Longrightarrow> flat (arrives v)"
proof -
  assume "flat v"
  then obtain ps where v: "v = Obj ps" "list_all (\<lambda>(k, w). scalar w) ps"
    by (auto simp: flat_def split: jv.splits)
  from members_arrive [OF v(2), of scalar] image_scalar show ?thesis by (simp add: v(1) flat_def)
qed

lemma flat_image: "flat v \<Longrightarrow> json_image v = Some w \<Longrightarrow> flat w"
  using flat_arrives [of v] by (simp add: arrives_def)

lemma flat_has_image: "flat v \<Longrightarrow> \<exists>w. json_image v = Some w \<and> flat w"
  using flat_arrives [of v] by (cases v) (auto simp: flat_def arrives_def)

lemma flat_opt_arrives: "flat_opt v \<Longrightarrow> flat_opt (arrives v)"
  using flat_arrives nullish_arrives by (auto simp: flat_opt_def)

lemma flat_table_arrives: "flat_table v \<Longrightarrow> flat_table (arrives v)"
proof (cases "nullish v")
  case False
  assume "flat_table v"
  with False obtain ps where v: "v = Obj ps" "list_all (\<lambda>(k, w). flat w) ps"
    by (auto simp: flat_table_def split: jv.splits)
  from members_arrive [OF v(2), of flat] flat_image show ?thesis by (simp add: v(1) flat_table_def)
qed (simp add: flat_table_def nullish_arrives)

lemma arrives_Arr: "arrives (Arr xs) = Arr (map elem_image xs)"
  by (simp add: arrives_def elem_image_def)

lemma scalar_elem: "scalar v \<Longrightarrow> scalar (elem_image v)"
  by (cases v) (simp_all add: elem_image_def split: number.splits)

lemma scalar_list_arrives: "scalar_list v \<Longrightarrow> scalar_list (arrives v)"
proof (cases "nullish v")
  case False
  assume "scalar_list v"
  with False obtain xs where "v = Arr xs" "\<forall>x \<in> set xs. scalar x"
    by (auto simp: scalar_list_def list_all_iff split: jv.splits)
  with scalar_elem show ?thesis by (simp add: arrives_Arr scalar_list_def list_all_iff)
qed (simp add: scalar_list_def nullish_arrives)

lemma flat_list_arrives: "flat_list v \<Longrightarrow> flat_list (arrives v)"
proof (cases "nullish v")
  case False
  assume "flat_list v"
  with False obtain xs where v: "v = Arr xs" "\<forall>x \<in> set xs. flat x"
    by (auto simp: flat_list_def list_all_iff split: jv.splits)
  have "flat (elem_image x)" if "flat x" for x
    using flat_has_image [OF that] by (auto simp: elem_image_def)
  with v show ?thesis by (simp add: arrives_Arr flat_list_def list_all_iff)
qed (simp add: flat_list_def nullish_arrives)

lemma api_data_member: "opt_get (arrives (api_data ns)) k = arrives (opt_get (api_data ns) k)"
  unfolding api_data_def opt_get_Obj by (rule lookup_arrives) simp

lemma arrived_data_valid:
  assumes "documented_shapes ns"
  shows "valid_data (arrives (api_data ns))"
proof -
  note doc = assms [unfolded documented_shapes_def Let_def]
  have srv: "opt_get (arrives (api_server ns)) k = arrives (opt_get (api_server ns) k)" for k
    unfolding api_server_def opt_get_Obj by (rule lookup_arrives) simp
  have "flat_opt (api_info ns)" using doc by (simp add: api_info_def flat_opt_def flat_def)
  then have "flat_opt (arrives (api_info ns))" by (rule flat_opt_arrives)
  moreover have "valid_server (arrives (api_server ns))"
    unfolding valid_server_def srv using doc
    by (simp add: api_server_def scalar_arrives flat_opt_arrives scalar_list_arrives flat_list_arrives)
  moreover have "valid_drivers (arrives (ns_call ns ''driver.list''))"
    using doc by (simp add: valid_drivers_list scalar_list_arrives)
  ultimately show ?thesis
    unfolding valid_data_def Let_def api_data_member using doc
    by (simp add: api_data_def flat_opt_arrives flat_list_arrives flat_table_arrives clean_caches_flat scalar_arrives)
qed

text \<open>Every Number of the data is one of the format, as in all JavaScript values.\<close>

definition wf_api :: "server_api \<Rightarrow> bool" where
  "wf_api ns \<longleftrightarrow> (\<forall>f. numbers_wf (ns_call ns f)) \<and> numbers_wf (ns_log_tail ns 8192)"

lemma numbers_wf_entries: "numbers_wf v \<Longrightarrow> (k, w) \<in> set (obj_entries v) \<Longrightarrow> numbers_wf w"
  by (cases v) (auto simp: obj_entries_def list_all_iff dest!: set_zip_rightD)

lemma numbers_wf_Obj: "numbers_wf (Obj ps) \<longleftrightarrow> list_all (\<lambda>(k, w). numbers_wf w) ps"
  by (simp add: list_all_iff split_def)

lemma clean_counters_wf: "numbers_wf s \<Longrightarrow> numbers_wf (Obj (clean_counters s))"
proof -
  assume s: "numbers_wf s"
  have "\<forall>x \<in> set (obj_entries s). numbers_wf (snd x)"
    using numbers_wf_entries [OF s] by (simp add: split_paired_all)
  from all_props_puts [where P = numbers_wf and ps = "[]" and f = "\<lambda>y. strip_colon (fst y)", OF this]
  show ?thesis unfolding numbers_wf_Obj clean_counters_fold by simp
qed

lemma clean_caches_wf: "numbers_wf raw \<Longrightarrow> numbers_wf (clean_caches raw)"
proof -
  assume raw: "numbers_wf raw"
  have "\<forall>x \<in> set (obj_entries raw). numbers_wf (Obj (clean_counters (snd x)))"
  proof
    fix x assume "x \<in> set (obj_entries raw)"
    then have "numbers_wf (snd x)" using numbers_wf_entries [OF raw, of "fst x" "snd x"] by simp
    then show "numbers_wf (Obj (clean_counters (snd x)))" by (rule clean_counters_wf)
  qed
  from all_props_puts [where P = numbers_wf and ps = "[]" and f = fst, OF this]
  show ?thesis unfolding numbers_wf_Obj clean_caches_fold by simp
qed

lemma api_data_wf: "wf_api ns \<Longrightarrow> numbers_wf (api_data ns)"
  by (simp add: wf_api_def api_data_def api_info_def api_server_def clean_caches_wf)

text \<open>What can be sent: a value that has a text.\<close>

definition sendable :: "jv \<Rightarrow> bool" where
  "sendable v \<longleftrightarrow> numbers_wf v \<and> json_image v \<noteq> None"

interpretation wire: codec stringify json_parse arrives sendable
  by unfold_locales (auto simp: sendable_def arrives_def json_round_trip)

lemma api_data_sendable: "wf_api ns \<Longrightarrow> sendable (api_data ns)"
  using api_data_wf by (simp add: sendable_def api_data_def)

text \<open>
  Claim C11. The data survives the wire: the body of an authorised answer is JSON, and the client
  that reads it gets the data of the endpoint member by member: strings, booleans and finite
  Numbers exactly, infinities and NaN as null, undefined members not at all.
\<close>

theorem endpoint_data_arrives:
  assumes "wf_api ns" "authorised ns"
  shows "\<exists>body d. stats_api ns = [SetContentType ''application/json'', ReturnHtml 200 body] \<and>
    json_parse body = Some d \<and> (\<forall>k. opt_get d k = arrives (opt_get (api_data ns) k))"
  using wire.dec_enc [OF api_data_sendable [OF assms(1)]] assms(2) by (simp add: stats_api_def api_data_member)

lemma endpoint_data_arrives_witness:
  "\<exists>body d. stats_api
      \<lparr>ns_config = (\<lambda>sec key d. Str d), ns_auth_user = Str ''nsadmin'', ns_auth_passwd = Str '''',
       ns_call = (\<lambda>f. if f = ''js.stats.global'' then Num NaN else Num (Fin (1/2))),
       ns_log_tail = (\<lambda>n. Str [CHR 0x0A, CHR 0x22])\<rparr> =
      [SetContentType ''application/json'', ReturnHtml 200 body] \<and>
    json_parse body = Some d \<and> opt_get d ''memory'' = Num (Fin (1/2)) \<and> opt_get d ''jsStats'' = Null \<and>
    opt_get d ''logTail'' = Str [CHR 0x0A, CHR 0x22]"
proof -
  let ?ns = "\<lparr>ns_config = (\<lambda>sec key d. Str d), ns_auth_user = Str ''nsadmin'', ns_auth_passwd = Str '''',
       ns_call = (\<lambda>f. if f = ''js.stats.global'' then Num NaN else Num (Fin (1/2))),
       ns_log_tail = (\<lambda>n. Str [CHR 0x0A, CHR 0x22])\<rparr>"
  have "wf_api ?ns" using representable_dyadic [of 1 1] by (simp add: wf_api_def)
  moreover have "authorised ?ns" by (simp add: authorised_def)
  ultimately obtain body d where *: "stats_api ?ns = [SetContentType ''application/json'', ReturnHtml 200 body]"
    "json_parse body = Some d" "\<forall>k. opt_get d k = arrives (opt_get (api_data ?ns) k)"
    using endpoint_data_arrives by blast
  have "opt_get d ''memory'' = Num (Fin (1/2))" "opt_get d ''jsStats'' = Null"
    "opt_get d ''logTail'' = Str [CHR 0x0A, CHR 0x22]"
    by (simp_all add: *(3) api_data_def arrives_def)
  with * show ?thesis by blast
qed

subsection \<open>The counters of a cache\<close>

lemma distinct_js_put: "distinct (map fst ps) \<Longrightarrow> distinct (map fst (js_put k v ps))"
  by (simp add: js_put_def distinct_obj_put)

lemma distinct_puts:
  "distinct (map fst ps) \<Longrightarrow> distinct (map fst (foldl (\<lambda>c y. js_put (f y) (g y) c) ps xs))"
  by (induction xs arbitrary: ps) (simp_all add: distinct_js_put)

lemma clean_caches_props:
  obtains ps where "clean_caches raw = Obj ps" "distinct (map fst ps)"
proof (rule that)
  show "clean_caches raw = Obj (foldl (\<lambda>c y. js_put (fst y) (Obj (clean_counters (snd y))) c) [] (obj_entries raw))"
    by (rule clean_caches_fold)
  show "distinct (map fst (foldl (\<lambda>c y. js_put (fst y) (Obj (clean_counters (snd y))) c) [] (obj_entries raw)))"
    by (rule distinct_puts) simp
qed

lemma distinct_clean_counters: "distinct (map fst (clean_counters s))"
  unfolding clean_counters_fold by (rule distinct_puts) simp

text \<open>A counter that is a finite Number arrives under its clean name with its value.\<close>

lemma counter_arrives:
  assumes cs: "distinct (map fst cs)" "(name, Obj s) \<in> set cs" "name \<noteq> ''__proto__''"
    and s: "distinct (map (\<lambda>p. strip_colon (fst p)) s)" "''__proto__'' \<notin> (\<lambda>p. strip_colon (fst p)) ` set s"
    and k: "(k, Num (Fin x)) \<in> set s"
  obtains qs c where "arrives (clean_caches (Obj cs)) = Obj qs" "(name, c) \<in> set qs"
    "opt_get c (strip_colon k) = Num (Fin x)"
proof -
  obtain ps where ps: "clean_caches (Obj cs) = Obj ps" "distinct (map fst ps)" by (rule clean_caches_props)
  have "lookup ps name = Obj (clean_counters (Obj s))"
    using lookup_puts [of fst cs "(name, Obj s)" "\<lambda>y. Obj (clean_counters (snd y))" "[]"] cs ps(1)
    by (simp add: clean_caches_fold obj_entries_def)
  moreover obtain qs where qs: "arrives (Obj ps) = Obj qs" by (simp add: arrives_def build_obj_def)
  ultimately have c: "lookup qs name = arrives (Obj (clean_counters (Obj s)))"
    using lookup_arrives [OF ps(2), of name] by simp
  have "strip_colon k \<noteq> ''__proto__''" using k s(2) by force
  then have "lookup (clean_counters (Obj s)) (strip_colon k) = Num (Fin x)"
    using lookup_puts [OF s(1) k, of snd "[]"] by (simp add: clean_counters_fold obj_entries_def)
  then have v: "opt_get (lookup qs name) (strip_colon k) = Num (Fin x)"
    unfolding c lookup_arrives [OF distinct_clean_counters] by (simp add: arrives_def)
  then have "map_of qs name \<noteq> None" by (cases "map_of qs name") (simp_all add: lookup_def)
  then have "(name, lookup qs name) \<in> set qs" by (auto simp: lookup_def dest: map_of_SomeD)
  with that ps(1) qs v show ?thesis by metis
qed

end
