(* ===== verification/System.thy ===== *)
theory System
  imports HostApi Wire Listings
begin

text \<open>
  The host and the endpoint together: the data that the functions of the server return can be
  sent, and what the browser reads of it. The hit rate of the script cache and the counters of
  the caches are followed from the server to the page.
\<close>

subsection \<open>What the host returns can be sent\<close>

text \<open>\<open>strtod\<close> returns a double; beyond that nothing is asked of the server.\<close>

definition reads_doubles :: "host_env \<Rightarrow> bool" where
  "reads_doubles h \<longleftrightarrow> (\<forall>s. wf_number (fst (strtod h s)))"

lemma strtod_wf: "reads_doubles h \<Longrightarrow> strtod h s = (n, r) \<Longrightarrow> wf_number n"
  by (metis reads_doubles_def fst_conv)

lemma host_numbers [simp]:
  "numbers_wf (int_num n)" "numbers_wf (u64_num w)" "reads_doubles h \<Longrightarrow> numbers_wf (atof h s)"
  by (simp_all add: int_num_def u64_num_def atof_def reads_doubles_def)

lemma server_number_wf [simp]: "reads_doubles h \<Longrightarrow> numbers_wf (server_number h cmd)"
  by (auto simp: server_number_def Let_def strtod_wf split: prod.splits)

abbreviation props_wf :: "props \<Rightarrow> bool" where
  "props_wf ps \<equiv> list_all (\<lambda>(k, w). numbers_wf w) ps"

lemma set_pairs_inv:
  "I obj \<Longrightarrow> (\<And>k v obj. I obj \<Longrightarrow> I (f k v obj)) \<Longrightarrow> I (set_pairs f kvs obj)"
  by (induction f kvs obj rule: set_pairs.induct) simp_all

lemma SetJsKv_wf: "reads_doubles h \<Longrightarrow> props_wf obj \<Longrightarrow> props_wf (SetJsKv h key v obj)"
  by (auto simp: SetJsKv_def strtod_wf split: prod.splits intro!: all_props_js_put)

lemma cache_stat_wf: "reads_doubles h \<Longrightarrow> props_wf obj \<Longrightarrow> props_wf (cache_stat h k v obj)"
  by (auto simp: cache_stat_def Let_def strtod_wf split: prod.splits intro!: all_props_js_put)

lemma TclKvListToJsObject_wf:
  assumes "reads_doubles h"
  shows "numbers_wf (TclKvListToJsObject h s)"
proof -
  have "props_wf (foldl (\<lambda>obj a. case split_list h a of
      Some (k # v # _) \<Rightarrow> SetJsKv h k v obj | _ \<Rightarrow> obj) obj argv)" if "props_wf obj" for obj argv
    using that by (induction argv arbitrary: obj) (auto simp: SetJsKv_wf [OF assms] split: option.splits list.splits)
  from this [of "[]"] set_pairs_inv [where I = props_wf and f = "SetJsKv h", of "[]"] SetJsKv_wf [OF assms]
  show ?thesis
    by (simp add: TclKvListToJsObject_def numbers_wf_Obj del: numbers_wf.simps(3) split: option.split)
qed

lemma tcl_rows_wf: "(\<And>l. list_all numbers_wf (row l)) \<Longrightarrow> numbers_wf (tcl_rows h cmd row)"
  by (auto simp: tcl_rows_def list_all_iff Let_def split: option.splits)

lemma adp_entries_wf:
  assumes "reads_doubles h"
  shows "list_all numbers_wf (adp_entries h kv)"
proof -
  have "props_wf (set_pairs (\<lambda>k v. js_put k (atof h v)) kv obj)" if "props_wf obj" for kv obj
    using that by (rule set_pairs_inv [where I = props_wf]) (simp add: all_props_js_put assms)
  moreover have "props_wf (js_put ''file'' (Str f) [])" for f by (simp add: all_props_js_put)
  ultimately show ?thesis
    by (induction h kv rule: adp_entries.induct)
      (auto simp: Let_def numbers_wf_Obj simp del: numbers_wf.simps(3) split: option.splits)
qed

lemma JsCacheStatsAll_wf:
  assumes "reads_doubles h"
  shows "numbers_wf (JsCacheStatsAll h)"
proof -
  have "props_wf (cache_stats_row h name)" for name
    using set_pairs_inv [where I = props_wf and f = "cache_stat h", of "[]"] cache_stat_wf [OF assms]
    by (simp add: cache_stats_row_def Let_def split: option.split)
  then have "props_wf (foldl (\<lambda>result name. js_put name (Obj (cache_stats_row h name)) result) [] names)" for names
    using all_props_puts [where P = numbers_wf and f = "\<lambda>y. y" and ps = "[]"]
    by (simp add: numbers_wf_Obj del: numbers_wf.simps(3))
  then show ?thesis
    by (simp add: JsCacheStatsAll_def Let_def numbers_wf_Obj del: numbers_wf.simps(3) split: option.split)
qed

lemma JsMemorySizeClasses_wf: "numbers_wf (JsMemorySizeClasses h)"
proof -
  have "list_all numbers_wf (size_class_row line)" for line
    by (auto simp: size_class_row_def split: list.splits)
  then show ?thesis by (force simp: JsMemorySizeClasses_def list_all_iff split: option.splits)
qed

lemma host_lists_wf:
  assumes "reads_doubles h"
  shows "numbers_wf (JsInfoLocks h)" "numbers_wf (JsInfoThreads h)" "numbers_wf (JsInfoScheduled h)"
    "numbers_wf (JsInfoCallbacks h)" "numbers_wf (JsInfoSockcallbacks h)" "numbers_wf (JsServerUrlStats h)"
    "numbers_wf (JsAdpStats h)" "numbers_wf (tcl_names h cmd)"
proof -
  show "numbers_wf (JsInfoLocks h)" "numbers_wf (JsInfoThreads h)" "numbers_wf (JsInfoScheduled h)"
    "numbers_wf (JsInfoCallbacks h)" "numbers_wf (JsInfoSockcallbacks h)" "numbers_wf (JsServerUrlStats h)"
    unfolding JsInfoLocks_def JsInfoThreads_def JsInfoScheduled_def JsInfoCallbacks_def
      JsInfoSockcallbacks_def JsServerUrlStats_def
    by (rule tcl_rows_wf, simp add: assms split: option.splits)+
  show "numbers_wf (JsAdpStats h)"
    by (simp add: JsAdpStats_def Let_def adp_entries_wf [OF assms] split: option.split)
  show "numbers_wf (tcl_names h cmd)"
    by (simp add: tcl_names_def list_all_iff split: option.split)
qed

lemma host_objects_wf:
  assumes "reads_doubles h"
  shows "numbers_wf (JsStatsGlobal g)" "numbers_wf (JsMemoryStats h)" "numbers_wf (JsHttp2Stats h)"
    "numbers_wf (JsHttp3Stats h)" "numbers_wf (JsServerThreads h)" "numbers_wf (JsServerConnections h)"
    "numbers_wf (JsServerActive h)" "numbers_wf (JsServerPools h)" "numbers_wf (JsDriverList h)"
proof -
  show "numbers_wf (JsStatsGlobal g)" by (simp add: JsStatsGlobal_def)
  show "numbers_wf (JsMemoryStats h)"
    by (auto simp: JsMemoryStats_def list_all_iff split: option.splits)
  show "numbers_wf (JsHttp2Stats h)" by (simp add: JsHttp2Stats_def)
  show "numbers_wf (JsHttp3Stats h)" by (simp add: JsHttp3Stats_def split: option.split)
  show "numbers_wf (JsServerThreads h)"
    by (simp add: JsServerThreads_def TclKvListToJsObject_wf [OF assms])
  show "numbers_wf (JsServerConnections h)"
    by (auto simp: JsServerConnections_def Let_def strtod_wf [OF assms] split: prod.splits)
  show "numbers_wf (JsServerActive h)" by (simp add: JsServerActive_def split: option.split)
  show "numbers_wf (JsServerPools h)" "numbers_wf (JsDriverList h)"
    by (simp_all add: JsServerPools_def JsDriverList_def host_lists_wf [OF assms])
qed

lemma host_wf: "reads_doubles h \<Longrightarrow> wf_api (host_api h)"
proof -
  assume h: "reads_doubles h"
  have "list_all (\<lambda>(k, w). numbers_wf w) (host_functions h)"
    unfolding host_functions_def
    by (simp add: host_lists_wf [OF h] host_objects_wf [OF h] h JsCacheStatsAll_wf JsMemorySizeClasses_wf)
  then have "numbers_wf (lookup (host_functions h) f)" for f
    by (auto simp: lookup_def list_all_iff split: option.split dest!: map_of_SomeD)
  moreover have "numbers_wf (JsLogTail h n)" for n
    by (simp add: JsLogTail_def split: option.split)
  ultimately show "wf_api (host_api h)" by (simp add: wf_api_def host_api_def)
qed

subsection \<open>The hit rate of the script cache\<close>

text \<open>A 64-bit counter is a finite Number, which arrives as it is.\<close>

lemma arrives_u64: "arrives (u64_num w) = u64_num w"
proof -
  let ?x = "of_nat (unat w) :: rat"
  have "unat w < 2 ^ 64" using unsigned_less [of w] by simp
  then have "?x < of_nat (2 ^ 64)" by (simp only: of_nat_less_iff)
  then have x: "0 \<le> ?x" "?x < 2 powi 64" by (simp_all del: of_nat_unat)
  from rnd_error [OF this] have "\<bar>rnd ?x - ?x\<bar> \<le> 1024" by simp
  with x have "rnd ?x \<le> 2 ^ 64 + 1024" by (simp add: abs_le_iff del: of_nat_unat)
  then have "rnd ?x < 2 ^ 1024" by (rule le_less_trans) simp
  with number_value_nonneg_cases [OF x(1)] show ?thesis
    by (simp add: u64_num_def arrives_def del: of_nat_unat)
qed

lemma JsStatsGlobal_arrives: "opt_get (arrives (JsStatsGlobal g)) k = opt_get (JsStatsGlobal g) k"
proof -
  obtain ps where ps: "JsStatsGlobal g = Obj ps" "distinct (map fst ps)" "\<forall>p \<in> set ps. \<exists>w. snd p = u64_num w"
    by (force simp: JsStatsGlobal_def)
  have "arrives (lookup ps k) = lookup ps k"
    using ps(3) by (auto simp: lookup_def arrives_u64 dest!: map_of_SomeD split: option.split) (simp add: arrives_def)
  then show ?thesis by (simp add: ps(1) lookup_arrives [OF ps(2)])
qed

text \<open>The section of the engine reads the counters one by one.\<close>

lemma JsEngine_reads:
  assumes "\<And>k. opt_get a k = opt_get b k" "truthy a" "truthy b"
  shows "JsEngine e ((''jsStats'', a) # ps) = JsEngine e ((''jsStats'', b) # ps)"
proof -
  have "opt_get a = opt_get b" using assms(1) by (rule ext)
  moreover from this have "hit_rate a = hit_rate b" by (simp add: hit_rate_def total_lookups_def)
  ultimately show ?thesis using assms(2,3) by (simp add: JsEngine_def script_cache_card_def Let_def lookup_def)
qed

lemma host_engine_stats: "ns_call (host_api h) ''js.stats.global'' = JsStatsGlobal (engine_stats h)"
  by (simp add: host_api_def host_functions_def lookup_def)

lemma engine_section_shown:
  assumes "reads_doubles h" "json_parse (stringify (api_data (host_api h))) = Some d"
  shows "JsEngine e ((''jsStats'', opt_get d ''jsStats'') # ps) = JsEngine e ((''jsStats'', JsStatsGlobal (engine_stats h)) # ps)"
    and "hit_rate (opt_get d ''jsStats'') = hit_rate (JsStatsGlobal (engine_stats h))"
proof -
  have "d = arrives (api_data (host_api h))"
    using assms(2) wire.dec_unique [OF api_data_sendable [OF host_wf [OF assms(1)]]] by simp
  then have d: "opt_get d ''jsStats'' = arrives (JsStatsGlobal (engine_stats h))"
    by (simp add: api_data_member) (simp add: api_data_def host_engine_stats)
  show "JsEngine e ((''jsStats'', opt_get d ''jsStats'') # ps) = JsEngine e ((''jsStats'', JsStatsGlobal (engine_stats h)) # ps)"
    unfolding d by (rule JsEngine_reads) (simp_all add: JsStatsGlobal_arrives, simp_all add: JsStatsGlobal_def arrives_def build_obj_def)
  show "hit_rate (opt_get d ''jsStats'') = hit_rate (JsStatsGlobal (engine_stats h))"
    by (simp add: d hit_rate_def total_lookups_def JsStatsGlobal_arrives)
qed

subsection \<open>The counters of the caches\<close>

text \<open>The loop over the pairs of a list stores each value under its key without the colon.\<close>

definition pair_list :: "(string \<times> string) list \<Rightarrow> string list" where
  "pair_list kvs = concat (map (\<lambda>(k, v). [k, v]) kvs)"

definition stat_value :: "host_env \<Rightarrow> string \<Rightarrow> jv" where
  "stat_value h v = (case strtod h v of (dv, r) \<Rightarrow> if r = [] then Num dv else Str v)"

lemma set_pairs_fold:
  "set_pairs (cache_stat h) (pair_list kvs) ps =
     foldl (\<lambda>c y. js_put (strip_colon (fst y)) (stat_value h (snd y)) c) ps kvs"
  by (induction kvs arbitrary: ps) (auto simp: pair_list_def cache_stat_def stat_value_def Let_def split: prod.split)

lemma keys_puts: "fst ` set (foldl (\<lambda>c y. js_put (f y) (g y) c) ps xs) \<subseteq> fst ` set ps \<union> (f ` set xs - {''__proto__''})"
proof (induction xs arbitrary: ps)
  case (Cons x xs)
  have "fst ` set (js_put (f x) (g x) ps) \<subseteq> fst ` set ps \<union> ({f x} - {''__proto__''})"
    by (auto simp: js_put_def keys_obj_put)
  with Cons [of "js_put (f x) (g x) ps"] show ?case by auto
qed simp

lemma distinct_map_on_subset:
  "distinct (map fst xs) \<Longrightarrow> inj_on f A \<Longrightarrow> fst ` set xs \<subseteq> A \<Longrightarrow> distinct (map (\<lambda>x. f (fst x)) xs)"
  using distinct_map [of f "map fst xs"] by (auto simp: o_def intro: inj_on_subset)

lemma lookup_in_set: "lookup ps k = v \<Longrightarrow> v \<noteq> Undef \<Longrightarrow> (k, v) \<in> set ps"
  by (auto simp: lookup_def dest: map_of_SomeD split: option.splits)

text \<open>The statistics of one cache among those of all.\<close>

lemma host_cache_stats:
  assumes "tcl_eval h ''ns_cache_names'' \<noteq> []" "split_list h (tcl_eval h ''ns_cache_names'') = Some names"
    and "distinct names" "name \<in> set names" "name \<noteq> ''__proto__''"
    and "tcl_eval h (''ns_cache_stats '' @ name) \<noteq> []"
    and "split_list h (tcl_eval h (''ns_cache_stats '' @ name)) = Some (pair_list kvs)"
    and inj: "distinct (map (\<lambda>p. strip_colon (strip_colon (fst p))) kvs)" "(k, v) \<in> set kvs"
    and "strtod h v = (Fin x, [])" "strip_colon k \<noteq> ''__proto__''"
    and proto: "''__proto__'' \<notin> (\<lambda>p. strip_colon (strip_colon (fst p))) ` set kvs"
  obtains cs s where "ns_call (host_api h) ''cache.statsAll'' = Obj cs" "distinct (map fst cs)" "(name, Obj s) \<in> set cs"
    "\<forall>(n, t) \<in> set cs. flat t" "distinct (map (\<lambda>p. strip_colon (fst p)) s)"
    "''__proto__'' \<notin> (\<lambda>p. strip_colon (fst p)) ` set s" "(strip_colon k, Num (Fin x)) \<in> set s"
proof -
  define s where "s = foldl (\<lambda>c y. js_put (strip_colon (fst y)) (stat_value h (snd y)) c) [] kvs"
  define cs where "cs = foldl (\<lambda>result n. js_put n (Obj (cache_stats_row h n)) result) [] names"
  have row: "cache_stats_row h name = s"
    using assms(6,7) by (simp add: cache_stats_row_def set_pairs_fold s_def)
  have all: "JsCacheStatsAll h = Obj cs"
    using assms(1,2) by (simp add: JsCacheStatsAll_def cs_def)
  have 1: "ns_call (host_api h) ''cache.statsAll'' = Obj cs"
    using all by (simp add: host_api_def host_functions_def lookup_def)
  have 2: "distinct (map fst cs)" unfolding cs_def by (rule distinct_puts) simp
  have "lookup cs name = Obj s"
    using lookup_puts [of "\<lambda>n. n" names name "\<lambda>n. Obj (cache_stats_row h n)" "[]"] assms(3-5) row by (simp add: cs_def)
  from lookup_in_set [OF this] have 3: "(name, Obj s) \<in> set cs" by simp
  have 4: "\<forall>(n, t) \<in> set cs. flat t"
    using JsCacheStatsAll_flat [of h] all by (simp add: flat_table_def list_all_iff)
  have keys: "fst ` set s \<subseteq> (\<lambda>p. strip_colon (fst p)) ` set kvs"
    using keys_puts [of "\<lambda>y. strip_colon (fst y)" "\<lambda>y. stat_value h (snd y)" "[]" kvs] by (auto simp: s_def)
  have "inj_on strip_colon ((\<lambda>p. strip_colon (fst p)) ` set kvs)"
    using inj(1) by (auto simp: distinct_map inj_on_def)
  from distinct_map_on_subset [OF _ this keys] have 5: "distinct (map (\<lambda>p. strip_colon (fst p)) s)"
    unfolding s_def by (simp add: distinct_puts)
  have 6: "''__proto__'' \<notin> (\<lambda>p. strip_colon (fst p)) ` set s"
  proof
    assume "''__proto__'' \<in> (\<lambda>p. strip_colon (fst p)) ` set s"
    then obtain q where q: "q \<in> fst ` set s" "strip_colon q = ''__proto__''" by force
    with keys proto show False by force
  qed
  have "distinct (map (strip_colon \<circ> fst) kvs)"
    using inj(1) by (auto simp: distinct_map inj_on_def)
  from lookup_puts [of "strip_colon \<circ> fst" kvs "(k, v)" "\<lambda>y. stat_value h (snd y)" "[]"] this inj(2) assms(10,11)
  have "lookup s (strip_colon k) = Num (Fin x)" by (simp add: s_def stat_value_def)
  from lookup_in_set [OF this] have 7: "(strip_colon k, Num (Fin x)) \<in> set s" by simp
  from that [OF 1 2 3 4 5 6 7] show thesis .
qed

text \<open>A counter keeps its value from the endpoint to its row of the table.\<close>

lemma counter_shown:
  assumes "ns_call ns ''cache.statsAll'' = Obj cs" "wf_api ns" "json_parse (stringify (api_data ns)) = Some d"
    and cs: "distinct (map fst cs)" "(name, Obj s) \<in> set cs" "name \<noteq> ''__proto__''" "\<forall>(n, t) \<in> set cs. flat t"
    and s: "distinct (map (\<lambda>p. strip_colon (fst p)) s)" "''__proto__'' \<notin> (\<lambda>p. strip_colon (fst p)) ` set s"
    and k: "(k, Num (Fin x)) \<in> set s" "strip_colon k \<in> {''entries'', ''hits'', ''misses'', ''flushed'', ''hitrate''}"
  shows "\<exists>v rows row. Caches [(''caches'', opt_get d ''caches'')] = Some v \<and> cache_table_rows v = Arr rows \<and>
    row \<in> set rows \<and> opt_get row ''name'' = Str name \<and> opt_get row (strip_colon k) = Num (Fin x)"
proof -
  obtain qs c where qs: "arrives (clean_caches (Obj cs)) = Obj qs" "(name, c) \<in> set qs"
      "opt_get c (strip_colon k) = Num (Fin x)"
    using counter_arrives [OF cs(1-3) s k(1)] .
  have "opt_get d ''caches'' = arrives (opt_get (api_data ns) ''caches'')"
    using assms(3) wire.dec_unique [OF api_data_sendable [OF assms(2)]] api_data_member by metis
  then have d: "opt_get d ''caches'' = Obj qs" by (simp add: api_data_def assms(1) qs(1))
  have "flat_table (Obj qs)"
    unfolding qs(1) [symmetric] using cs(4)
    by (intro flat_table_arrives clean_caches_flat) (simp add: flat_table_def list_all_iff)
  then have "\<forall>(n, t) \<in> set qs. \<not> nullish t"
    by (auto simp: flat_table_def list_all_iff flat_def nullish_def split: jv.splits)
  moreover have "qs \<noteq> []" using qs(2) by auto
  ultimately obtain v rows where v: "Caches [(''caches'', Obj qs)] = Some v" "cache_table_rows v = Arr rows"
    "map (\<lambda>r. map (opt_get r) [''name'', ''entries'', ''hits'', ''misses'', ''flushed'', ''hitrate'']) rows =
     map (\<lambda>(n, s). [Str n, counter s ''entries'', counter s ''hits'', counter s ''misses'',
                       counter s ''flushed'', counter s ''hitrate'']) qs"
    using caches_rows [of "[(''caches'', Obj qs)]" qs] by auto
  obtain i where i: "i < length qs" "qs ! i = (name, c)" using qs(2) by (auto simp: in_set_conv_nth)
  have len: "i < length rows" using arg_cong [OF v(3), of length] i(1) by simp
  have "map (opt_get (rows ! i)) [''name'', ''entries'', ''hits'', ''misses'', ''flushed'', ''hitrate''] =
      [Str name, counter c ''entries'', counter c ''hits'', counter c ''misses'', counter c ''flushed'', counter c ''hitrate'']"
    using arg_cong [OF v(3), of "\<lambda>l. l ! i"] i len by simp
  with k(2) qs(3) have "opt_get (rows ! i) ''name'' = Str name \<and> opt_get (rows ! i) (strip_colon k) = Num (Fin x)"
    by (auto simp: counter_def coalesce_def)
  with v(1,2) len d nth_mem [OF len] show ?thesis by metis
qed

end
