(* ===== verification/AllocatorReport.thy ===== *)
theory AllocatorReport
  imports HostApi
begin

text \<open>
  The allocator's report that \<open>JsMemorySizeClasses\<close> reads with \<open>sscanf\<close>. The lemmas show that the
  lines of the format it expects come back as the size classes that they print, whatever other
  lines the report has, and that the lines that gperftools writes are not of this format.
\<close>

subsection \<open>Lines\<close>

text \<open>\<open>printf("%*d", w, n)\<close>\<close>

definition printed :: "nat \<Rightarrow> int \<Rightarrow> string" where
  "printed w n = replicate (w - length (int_str n)) CHR '' '' @ int_str n"

text \<open>The number, size, free objects, free bytes and pages of a class.\<close>

type_synonym size_class = "int \<times> int \<times> int \<times> int \<times> int"

definition class_line :: "size_class \<Rightarrow> string" where
  "class_line = (\<lambda>(cl, sz, objs, bytes, pages).
     ''class '' @ printed 3 cl @ '' [ '' @ printed 8 sz @ '' bytes ] : '' @ printed 8 objs @ '' objs; '' @
     printed 8 bytes @ '' bytes; '' @ printed 6 pages @ '' pages'')"

text \<open>A line of gperftools, which gives the free memory in MiB with a decimal.\<close>

definition gperftools_line :: "int \<Rightarrow> int \<Rightarrow> int \<Rightarrow> int \<Rightarrow> string \<Rightarrow> string" where
  "gperftools_line cl sz objs mib rest =
     ''class '' @ printed 3 cl @ '' [ '' @ printed 8 sz @ '' bytes ] : '' @ printed 8 objs @ '' objs; '' @
     printed 3 mib @ ''.'' @ rest"


definition int32 :: "int \<Rightarrow> bool" where
  "int32 n \<longleftrightarrow> - (2 ^ 31) \<le> n \<and> n < 2 ^ 31"


subsection \<open>Scanning a line\<close>

lemma dropWhile_spaces: "dropWhile c_space (replicate k CHR '' '' @ s) = dropWhile c_space s"
  by (induction k) (simp_all add: c_space_def)

lemma c_space_not_digit: "digit_val c \<noteq> None \<Longrightarrow> \<not> c_space c"
  by (auto simp: c_space_def digit_val_def split: if_splits)

lemma nat_str_digits: "c \<in> set (nat_str n) \<Longrightarrow> digit_val c \<noteq> None"
proof (induction n rule: nat_str.induct)
  case (1 n)
  then show ?case by (subst (asm) nat_str.simps) (auto split: if_splits)
qed

lemma digit_run_nat_str: "r = [] \<or> digit_val (hd r) = None \<Longrightarrow> digit_run (nat_str n @ r) = r"
  unfolding digit_run_def using nat_str_digits [of _ n]
  by (subst dropWhile_append2) (auto simp: dropWhile_eq_self_iff)

lemma int_str_cases:
  obtains "n < 0" "int_str n = CHR ''-'' # nat_str (nat (- n))" | "0 \<le> n" "int_str n = nat_str (nat n)"
  by (cases "n < 0") (auto simp: int_str_def)

lemma nat_str_cons: obtains c ds where "nat_str n = c # ds" "digit_val c \<noteq> None" "c \<noteq> CHR ''-''" "c \<noteq> CHR ''+''" "\<not> c_space c"
proof -
  obtain c ds where s: "nat_str n = c # ds" by (cases "nat_str n") auto
  then have "digit_val c \<noteq> None" using nat_str_digits [of c n] by simp
  moreover from this have "c \<noteq> CHR ''-'' \<and> c \<noteq> CHR ''+''" by (auto simp: digit_val_def)
  ultimately show thesis using that s c_space_not_digit by blast
qed

lemma int32_long: "int32 n \<Longrightarrow> max long_min (min long_max n) = n"
  by (simp add: int32_def long_min_def long_max_def)

lemma int32_kept: "int32 n \<Longrightarrow> signed_take_bit 31 n = n"
  by (rule signed_take_bit_int_eq_self) (simp_all add: int32_def)

lemma scan_dec_printed:
  assumes "int32 n" "r = [] \<or> digit_val (hd r) = None"
  shows "scan_dec (printed w n @ r) = Some (n, r)"
proof (cases n rule: int_str_cases)
  case 1
  have "dropWhile c_space (printed w n @ r) = CHR ''-'' # nat_str (nat (- n)) @ r"
    by (simp add: printed_def dropWhile_spaces 1) (simp add: c_space_def)
  moreover have "strtol (CHR ''-'' # nat_str (nat (- n)) @ r) = n"
    using 1(1) int32_long [OF assms(1)]
    by (simp add: strtol_def digits_value_def read_nat_str [OF assms(2)] c_space_def)
  ultimately show ?thesis
    by (simp add: scan_dec_def read_nat_str [OF assms(2)] int32_kept [OF assms(1)] digit_run_nat_str [OF assms(2)])
next
  case 2
  obtain c ds where c: "nat_str (nat n) = c # ds" "c \<noteq> CHR ''-''" "c \<noteq> CHR ''+''" "\<not> c_space c"
    by (rule nat_str_cons)
  have "dropWhile c_space (printed w n @ r) = nat_str (nat n) @ r"
    using c by (simp add: printed_def dropWhile_spaces 2)
  moreover have "strtol (nat_str (nat n) @ r) = n"
    using 2(1) int32_long [OF assms(1)] c read_nat_str [OF assms(2), of "nat n"]
    by (simp add: strtol_def digits_value_def)
  ultimately show ?thesis
    using c read_nat_str [OF assms(2), of "nat n"] digit_run_nat_str [OF assms(2), of "nat n"]
    by (simp add: scan_dec_def int32_kept [OF assms(1)])
qed

lemma scan_Dec_printed:
  "int32 n \<Longrightarrow> r = [] \<or> digit_val (hd r) = None \<Longrightarrow> scan (Dec # f) (printed w n @ r) = n # scan f r"
  by (simp add: scan_dec_printed)

lemma scan_dec_space [simp]: "scan_dec (CHR '' '' # s) = scan_dec s" "scan_dec (dropWhile c_space s) = scan_dec s"
  by (simp_all add: scan_dec_def c_space_def)

lemma scan_White_Dec: "scan (White # Dec # f) (CHR '' '' # s) = scan (Dec # f) s"
  by (simp add: c_space_def)

lemma scan_Lits: "scan (map Lit s @ f) (s @ t) = scan f t"
  by (induction s) simp_all

lemma scan_White_Lits: "s \<noteq> [] \<Longrightarrow> \<not> c_space (hd s) \<Longrightarrow> scan (White # map Lit s @ f) (CHR '' '' # s @ t) = scan f t"
  by (cases s) (simp_all add: c_space_def scan_Lits)

lemma class_format_items:
  "class_format = White # map Lit ''class'' @ White # Dec # White # map Lit ''['' @ White # Dec #
     White # map Lit ''bytes'' @ White # map Lit '']'' @ White # map Lit '':'' @ White # Dec #
     White # map Lit ''objs;'' @ White # Dec # White # map Lit ''bytes;'' @ White # Dec # White # map Lit ''pages''"
  by code_simp

lemma scan_White_start: "s \<noteq> [] \<Longrightarrow> \<not> c_space (hd s) \<Longrightarrow> scan (White # map Lit s @ f) (s @ t) = scan f t"
  by (cases s) (simp_all add: scan_Lits)

text \<open>The conversions up to the free bytes, for both kinds of lines.\<close>

lemma scan_line_start:
  assumes "int32 cl" "int32 sz" "int32 objs"
  shows "scan class_format
      (''class '' @ printed 3 cl @ '' [ '' @ printed 8 sz @ '' bytes ] : '' @ printed 8 objs @ '' objs; '' @ rest) =
    cl # sz # objs # scan (Dec # White # map Lit ''bytes;'' @ White # Dec # White # map Lit ''pages'') rest"
proof -
  let ?f4 = "Dec # White # map Lit ''bytes;'' @ White # Dec # White # map Lit ''pages''"
  let ?f3 = "White # map Lit ''objs;'' @ White # ?f4"
  let ?f2 = "White # map Lit ''bytes'' @ White # map Lit '']'' @ White # map Lit '':'' @ White # Dec # ?f3"
  let ?f1 = "White # map Lit ''['' @ White # Dec # ?f2"
  let ?t3 = "CHR '' '' # ''objs;'' @ CHR '' '' # rest"
  let ?t2 = "CHR '' '' # ''bytes'' @ CHR '' '' # '']'' @ CHR '' '' # '':'' @ CHR '' '' # printed 8 objs @ ?t3"
  let ?t1 = "CHR '' '' # ''['' @ CHR '' '' # printed 8 sz @ ?t2"
  have space: "digit_val CHR '' '' = None" by (simp add: digit_val_def)
  have "scan class_format (''class'' @ CHR '' '' # printed 3 cl @ ?t1) = cl # scan ?f1 ?t1"
    unfolding class_format_items
    by (subst scan_White_start) (simp_all add: c_space_def [of "CHR ''c''"] scan_White_Dec scan_Dec_printed [OF assms(1)] space
        del: scan.simps append.simps)
  also have "scan ?f1 ?t1 = sz # scan ?f2 ?t2"
    by (subst scan_White_Lits) (simp_all add: c_space_def scan_White_Dec scan_Dec_printed [OF assms(2)] space
        del: scan.simps append.simps)
  also have "scan ?f2 ?t2 = objs # scan ?f3 ?t3"
    by (subst scan_White_Lits, simp, simp add: c_space_def, subst scan_White_Lits, simp, simp add: c_space_def,
        subst scan_White_Lits, simp, simp add: c_space_def)
      (simp add: scan_White_Dec scan_Dec_printed [OF assms(3)] space del: scan.simps append.simps)
  also have "scan ?f3 ?t3 = scan ?f4 rest"
    by (subst scan_White_Lits) (simp_all add: c_space_def scan_White_Dec del: scan.simps append.simps)
  finally show ?thesis by simp
qed


text \<open>The conversion of the free bytes stops at the decimal point.\<close>

lemma row_gperftools_line:
  assumes "int32 cl" "int32 sz" "int32 objs" "int32 mib"
  shows "size_class_row (gperftools_line cl sz objs mib rest) = []"
proof -
  have "scan (Dec # White # map Lit ''bytes;'' @ White # Dec # White # map Lit ''pages'') (printed 3 mib @ ''.'' @ rest) =
      [mib]"
    by (subst scan_Dec_printed) (simp_all add: assms digit_val_def c_space_def)
  with scan_line_start [OF assms(1-3), of "printed 3 mib @ ''.'' @ rest"] show ?thesis
    by (simp add: gperftools_line_def size_class_row_def)
qed

subsection \<open>The report\<close>

text \<open>A line of another kind: it does not begin like a class.\<close>

definition other_line :: "string \<Rightarrow> bool" where
  "other_line s \<longleftrightarrow> newline \<notin> set s \<and> CHR 0x00 \<notin> set s \<and> take 1 (dropWhile c_space s) \<noteq> ''c''"

lemma row_other_line: "other_line s \<Longrightarrow> size_class_row s = []"
proof -
  assume "other_line s"
  then have "scan (White # Lit CHR ''c'' # f) s = []" for f
    by (auto simp: other_line_def split: list.split)
  then show ?thesis by (simp add: size_class_row_def class_format_items)
qed

text \<open>A report is a list of lines of both kinds.\<close>

definition report_line :: "string + size_class \<Rightarrow> string" where
  "report_line l = (case l of Inl s \<Rightarrow> s | Inr x \<Rightarrow> class_line x)"

definition report_text :: "(string + size_class) list \<Rightarrow> string" where
  "report_text ls = concat (map (\<lambda>l. report_line l @ [newline]) ls)"




lemma report_lines_cons: "newline \<notin> set l \<Longrightarrow> report_lines (l @ newline # s) = l # report_lines s"
proof -
  assume "newline \<notin> set l"
  then have "takeWhile (\<lambda>c. c \<noteq> newline) (l @ newline # s) = l \<and> dropWhile (\<lambda>c. c \<noteq> newline) (l @ newline # s) = newline # s"
    by (induction l) auto
  then show ?thesis by (subst report_lines.simps) simp
qed





text \<open>
  A report of gperftools, whose lines give the free memory in MiB, has no class that the function
  recognises.
\<close>

lemma gperftools_report_empty:
  assumes "malloc_stats h = Some (report_text (map Inl ls))" "length (report_text (map Inl ls)) < 1024 * 1024"
    and "\<And>l. l \<in> set ls \<Longrightarrow> newline \<notin> set l \<and> CHR 0x00 \<notin> set l \<and>
      (other_line l \<or> (\<exists>cl sz objs mib rest. int32 cl \<and> int32 sz \<and> int32 objs \<and> int32 mib \<and>
         l = gperftools_line cl sz objs mib rest))"
  shows "JsMemorySizeClasses h = Arr []"
proof -
  have "report_lines (report_text (map Inl ls)) = ls"
    using assms(3) by (induction ls) (simp_all add: report_text_def report_line_def report_lines_cons report_lines.simps [of "[]"])
  moreover have "CHR 0x00 \<notin> set (report_text (map Inl ls))"
    using assms(3) by (auto simp: report_text_def report_line_def newline_def)
  moreover have "size_class_row l = []" if "l \<in> set ls" for l
    using assms(3) [OF that] row_other_line row_gperftools_line by blast
  ultimately show ?thesis using assms(1,2) by (simp add: JsMemorySizeClasses_def)
qed

end
