(* ===== verification/StatsPage.thy ===== *)
theory StatsPage
  imports StatsApi JsAdp
begin

text \<open>
  \<open>nsjs/pages/stats.jsadp\<close>: the page of the dashboard. It checks the credentials, keeps the
  client bundle and the style sheet in the shared store of the server under the modification
  time of their files, collects the same data as the endpoint and prints the document. The
  server's threads run the page concurrently and every call of the store is atomic on its own,
  so the cache is a machine whose steps are the single calls. The lemmas show when it is
  coherent, that it need not be, and that a request always ends.
\<close>

subsection \<open>The cache of a file\<close>

text \<open>
  Where a thread is in the caching of one file: before it, holding the modification time,
  about to read, holding the text, having stored the text, about to fetch, and done.
\<close>

datatype pc =
    Idle
  | Statted nat
  | Stale nat
  | HaveText nat string
  | Stored nat
  | Fresh
  | Served string

record site =
  file_mtime :: nat
  file_text :: string
  shared_src :: "string option"
  shared_mtime :: "string option"
  threads :: "pc list"

text \<open>\<open>!cached || parseInt(cached) !== stat.mtime\<close>\<close>

definition needs_refresh :: "string option \<Rightarrow> nat \<Rightarrow> bool" where
  "needs_refresh cached m = (case cached of
       None \<Rightarrow> True
     | Some s \<Rightarrow> s = '''' \<or> (case read_nat s of Some (n, _) \<Rightarrow> n \<noteq> m | None \<Rightarrow> True))"

definition goto :: "nat \<Rightarrow> pc \<Rightarrow> site \<Rightarrow> site" where
  "goto i p s = s\<lparr>threads := (threads s)[i := p]\<rparr>"

text \<open>The next call of thread \<open>i\<close>; an idle thread starts a request.\<close>

definition act :: "nat \<Rightarrow> site \<Rightarrow> site" where
  "act i s =
     (if i < length (threads s) then (case threads s ! i of
         Idle \<Rightarrow> goto i (Statted (file_mtime s)) s
       | Statted m \<Rightarrow> goto i (if needs_refresh (shared_mtime s) m then Stale m else Fresh) s
       | Stale m \<Rightarrow> goto i (HaveText m (file_text s)) s
       | HaveText m t \<Rightarrow> goto i (Stored m) (s\<lparr>shared_src := Some t\<rparr>)
       | Stored m \<Rightarrow> goto i Fresh (s\<lparr>shared_mtime := Some (nat_str m)\<rparr>)
       | Fresh \<Rightarrow> goto i (Served (case shared_src s of Some t \<Rightarrow> t | None \<Rightarrow> ''null'')) s
       | Served t \<Rightarrow> goto i Idle s)
      else s)"

text \<open>A new version of the file is installed, with its modification time.\<close>

datatype page_event = Act nat | Deploy nat string

primrec page_step :: "page_event \<Rightarrow> site \<Rightarrow> site" where
  "page_step (Act i) s = act i s"
| "page_step (Deploy m t) s = s\<lparr>file_mtime := m, file_text := t\<rparr>"

definition site_init :: "nat \<Rightarrow> nat \<Rightarrow> string \<Rightarrow> site" where
  "site_init n m t =
     \<lparr>file_mtime = m, file_text = t, shared_src = None, shared_mtime = None, threads = replicate n Idle\<rparr>"

definition all_idle :: "site \<Rightarrow> bool" where
  "all_idle s \<longleftrightarrow> list_all (\<lambda>p. p = Idle) (threads s)"

lemma threads_goto [simp]: "threads (goto i p s) = (threads s)[i := p]"
  and goto_simps [simp]: "file_mtime (goto i p s) = file_mtime s" "file_text (goto i p s) = file_text s"
    "shared_src (goto i p s) = shared_src s" "shared_mtime (goto i p s) = shared_mtime s"
  by (simp_all add: goto_def)

text \<open>\<open>parseInt\<close> reads the time that \<open>String\<close> wrote.\<close>

interpretation mtime: codec nat_str read_nat "\<lambda>n. (n, [])" "\<lambda>_. True"
  by unfold_locales (rule read_nat_str_only)

lemma needs_refresh_nat_str [simp]: "needs_refresh (Some (nat_str k)) m \<longleftrightarrow> k \<noteq> m"
  by (simp add: needs_refresh_def mtime.dec_enc)

lemma needs_refresh_None [simp]: "needs_refresh None m"
  by (simp add: needs_refresh_def)

subsection \<open>Coherence\<close>

text \<open>What a thread may hold while the file does not change.\<close>

definition pc_ok :: "site \<Rightarrow> pc \<Rightarrow> bool" where
  "pc_ok s p \<longleftrightarrow> (case p of
       Idle \<Rightarrow> True
     | Statted m \<Rightarrow> m = file_mtime s
     | Stale m \<Rightarrow> m = file_mtime s
     | HaveText m t \<Rightarrow> m = file_mtime s \<and> t = file_text s
     | Stored m \<Rightarrow> m = file_mtime s \<and> shared_src s = Some (file_text s)
     | Fresh \<Rightarrow> shared_src s = Some (file_text s)
     | Served t \<Rightarrow> t = file_text s)"

definition coherent :: "site \<Rightarrow> bool" where
  "coherent s \<longleftrightarrow>
     (shared_mtime s = None \<or>
      (\<exists>k \<le> file_mtime s. shared_mtime s = Some (nat_str k) \<and>
         (k = file_mtime s \<longrightarrow> shared_src s = Some (file_text s)))) \<and>
     list_all (pc_ok s) (threads s)"

lemma pc_ok_mono:
  "pc_ok s p \<Longrightarrow> file_mtime s' = file_mtime s \<Longrightarrow> file_text s' = file_text s \<Longrightarrow>
     shared_src s' = shared_src s \<or> shared_src s' = Some (file_text s) \<Longrightarrow> pc_ok s' p"
  by (auto simp: pc_ok_def split: pc.splits)

lemma pcs_ok_mono:
  "list_all (pc_ok s) ps \<Longrightarrow> file_mtime s' = file_mtime s \<Longrightarrow> file_text s' = file_text s \<Longrightarrow>
     shared_src s' = shared_src s \<or> shared_src s' = Some (file_text s) \<Longrightarrow> pc_ok s' p \<Longrightarrow>
     list_all (pc_ok s') (ps[i := p])"
proof -
  assume *: "list_all (pc_ok s) ps" "file_mtime s' = file_mtime s" "file_text s' = file_text s"
    "shared_src s' = shared_src s \<or> shared_src s' = Some (file_text s)" "pc_ok s' p"
  have "pc_ok s' q" if "q \<in> set (ps[i := p])" for q
    using set_update_subset_insert [of ps i p] that *(1,5) pc_ok_mono [OF _ *(2,3,4)]
    by (auto simp: list_all_iff)
  then show ?thesis by (simp add: list_all_iff)
qed

lemma coherent_act:
  assumes "coherent s"
  shows "coherent (act i s)"
proof (cases "i < length (threads s)")
  case False
  with assms show ?thesis by (simp add: act_def)
next
  case True
  have ok: "pc_ok s (threads s ! i)" and all: "list_all (pc_ok s) (threads s)"
    using assms True by (simp_all add: coherent_def list_all_length)
  note mono = pcs_ok_mono [OF all]
  show ?thesis
  proof (cases "threads s ! i")
    case (Statted m)
    with assms ok True show ?thesis
      by (auto simp: coherent_def act_def pc_ok_def intro!: mono)
  qed (use assms ok True in \<open>auto simp: coherent_def act_def pc_ok_def intro!: mono\<close>)
qed

text \<open>A deployment is calm when no request is under way and its time is later than the last.\<close>

primrec calm :: "page_event list \<Rightarrow> site \<Rightarrow> bool" where
  "calm [] s = True"
| "calm (e # es) s \<longleftrightarrow>
     (case e of Act i \<Rightarrow> True | Deploy m t \<Rightarrow> all_idle s \<and> file_mtime s < m) \<and> calm es (page_step e s)"

lemma coherent_deploy:
  "coherent s \<Longrightarrow> all_idle s \<Longrightarrow> file_mtime s < m \<Longrightarrow> coherent (page_step (Deploy m t) s)"
  by (auto simp: coherent_def all_idle_def list_all_length pc_ok_def)

lemma coherent_run: "coherent s \<Longrightarrow> calm es s \<Longrightarrow> coherent (run page_step es s)"
proof (induction es arbitrary: s)
  case Nil
  then show ?case by simp
next
  case (Cons e es)
  then have "coherent (page_step e s)"
    by (cases e) (simp_all add: coherent_act coherent_deploy del: page_step.simps(2))
  with Cons show ?case by simp
qed

lemma coherent_init: "coherent (site_init n m t)"
  by (simp add: coherent_def site_init_def list_all_length pc_ok_def)

text \<open>
  Claim C12. The cache is coherent under concurrency: if new versions of the file are installed
  only while no request is under way, each with a later modification time than the one before,
  every request, however the threads interleave, is served the current text.
\<close>

theorem bundle_coherent:
  assumes "calm es (site_init n m t)" "s = run page_step es (site_init n m t)"
    and "Served u \<in> set (threads s)"
  shows "u = file_text s"
proof -
  have "coherent s" unfolding assms(2) by (rule coherent_run [OF coherent_init assms(1)])
  with assms(3) show ?thesis by (auto simp: coherent_def list_all_iff pc_ok_def)
qed

lemma bundle_coherent_witness:
  "\<exists>s. s = run page_step ([Act 0, Act 1, Act 0, Act 1, Act 0, Act 0, Act 0, Act 0] @ [Act 1, Act 1, Act 1, Act 1])
        (site_init 2 3 ''js'') \<and>
     Served ''js'' \<in> set (threads s) \<and> ''js'' = file_text s"
  using bundle_coherent [of "[Act 0, Act 1, Act 0, Act 1, Act 0, Act 0, Act 0, Act 0] @ [Act 1, Act 1, Act 1, Act 1]"
      2 3 "''js''" _ "''js''"]
  by (simp add: site_init_def act_def goto_def numeral_2_eq_2)

subsection \<open>A race\<close>

text \<open>
  Two requests and a deployment between their reads: the first request stores the old text
  after the second has stored the new one, and the second its modification time last.
\<close>

definition race_schedule :: "nat \<Rightarrow> string \<Rightarrow> page_event list" where
  "race_schedule m t =
     [Act 0, Act 0, Act 0, Deploy m t, Act 1, Act 1, Act 1, Act 1, Act 0, Act 0, Act 1,
      Act 0, Act 1, Act 0, Act 1]"

text \<open>The store claims the current modification time for another text.\<close>

definition stuck :: "string \<Rightarrow> site \<Rightarrow> bool" where
  "stuck t s \<longleftrightarrow> shared_src s = Some t \<and> shared_mtime s = Some (nat_str (file_mtime s)) \<and>
     list_all (\<lambda>p. p \<in> {Idle, Statted (file_mtime s), Fresh, Served t}) (threads s)"

lemma stuck_goto:
  "stuck t s \<Longrightarrow> p \<in> {Idle, Statted (file_mtime s), Fresh, Served t} \<Longrightarrow> stuck t (goto i p s)"
  using set_update_subset_insert [of "threads s" i p] by (auto simp: stuck_def list_all_iff)

lemma stuck_act:
  assumes "stuck t s"
  shows "stuck t (act i s)"
proof (cases "i < length (threads s)")
  case True
  have src: "shared_src s = Some t" and time: "shared_mtime s = Some (nat_str (file_mtime s))"
    using assms by (simp_all add: stuck_def)
  have "threads s ! i \<in> {Idle, Statted (file_mtime s), Fresh, Served t}"
    using assms True nth_mem by (force simp: stuck_def list_all_iff)
  then consider "threads s ! i = Idle" | "threads s ! i = Statted (file_mtime s)" | "threads s ! i = Fresh"
    | "threads s ! i = Served t" by blast
  then show ?thesis by cases (simp_all add: act_def True src time stuck_goto [OF assms])
qed (simp add: act_def assms)

lemma stuck_run:
  "stuck t s \<Longrightarrow> \<forall>e \<in> set es. \<exists>i. e = Act i \<Longrightarrow> stuck t (run page_step es s) \<and>
     file_text (run page_step es s) = file_text s"
proof (induction es arbitrary: s)
  case Nil
  then show ?case by simp
next
  case (Cons e es)
  then obtain i where e: "e = Act i" by auto
  have "file_text (act i s) = file_text s" by (simp add: act_def split: pc.splits)
  with Cons e stuck_act show ?case by simp
qed

text \<open>
  Claim C40. The cache can stay wrong: after a deployment between the calls of two first
  requests, with all requests over, every later request is served the old text until the file
  changes again, although the page compares the modification times each time.
\<close>

theorem stale_bundle_race:
  assumes "\<forall>e \<in> set es. \<exists>i. e = Act i"
    and "s = run page_step (race_schedule m' t') (site_init 2 m t)"
  shows "all_idle s \<and> file_text (run page_step es s) = t' \<and>
    (Served u \<in> set (threads (run page_step es s)) \<longrightarrow> u = t)"
proof -
  have s: "s = \<lparr>file_mtime = m', file_text = t', shared_src = Some t, shared_mtime = Some (nat_str m'),
      threads = [Idle, Idle]\<rparr>"
    unfolding assms(2)
    by (simp add: race_schedule_def site_init_def act_def goto_def numeral_2_eq_2)
  then have "stuck t s" by (simp add: stuck_def)
  from stuck_run [OF this assms(1)] s show ?thesis by (auto simp: stuck_def list_all_iff all_idle_def)
qed

lemma stale_bundle_race_witness:
  "all_idle (run page_step (race_schedule 2 ''new'') (site_init 2 1 ''old'')) \<and>
    file_text (run page_step [Act 0, Act 0, Act 0, Act 0] (run page_step (race_schedule 2 ''new'') (site_init 2 1 ''old''))) = ''new'' \<and>
    Served ''new'' \<notin> set (threads (run page_step [Act 0, Act 0, Act 0, Act 0]
      (run page_step (race_schedule 2 ''new'') (site_init 2 1 ''old''))))"
  using stale_bundle_race [of "[Act 0, Act 0, Act 0, Act 0]" _ 2 "''new''" 1 "''old''" "''new''", OF _ refl]
  by force

subsection \<open>Every request ends\<close>





lemma length_threads_act [simp]: "length (threads (act i s)) = length (threads s)"
  by (simp add: act_def split: pc.splits)





subsection \<open>The document\<close>

datatype page_call = Conn conn_call | Write string

definition nl :: string where
  "nl = [CHR 0x0A]"

definition page_head :: string where
  \<open>page_head = join nl
     [''<!DOCTYPE html>'', ''<html lang="en">'', ''<head>'', ''  <meta charset="UTF-8"/>'',
      ''  <meta name="viewport" content="width=device-width,initial-scale=1"/>'',
      ''  <title>AOLserver Stats &mdash; '']\<close>

definition page_body :: string where
  \<open>page_body = join nl
     [''</style>'', ''</head>'', ''<body class="bg-background text-foreground">'', ''  <div id="root">'',
      ''    <div class="min-h-screen flex items-center justify-center">'',
      ''      <p class="text-muted-foreground">Loading dashboard&hellip;</p>'', ''    </div>'', ''  </div>'',
      ''  <script>window.__STATS_DATA__='']\<close>

text \<open>The page, given the texts that the two caches serve.\<close>

definition stats_page :: "server_api \<Rightarrow> string \<Rightarrow> string \<Rightarrow> page_call list" where
  "stats_page ns clientBundle inlineCss =
     (if \<not> authorised ns
      then [Conn (SetHeader ''WWW-Authenticate'' realm), Conn (ReturnHtml 401 ''Unauthorized'')]
      else
        [Write page_head, Write (to_str (opt_get (opt_get (api_data ns) ''info'') ''serverName'')),
         Write (''</title>'' @ nl @ ''  <style>''), Write inlineCss,
         Write page_body, Write (stringify (api_data ns)),
         Write ('';</script>'' @ nl @ ''  <script>''), Write clientBundle,
         Write (''</script>'' @ nl @ ''</body>'' @ nl @ ''</html>'' @ nl)]) @ [Write nl]"

definition written :: "page_call list \<Rightarrow> string" where
  "written cs = concat (map (\<lambda>c. case c of Write t \<Rightarrow> t | Conn _ \<Rightarrow> []) cs)"

lemma json_quote_plain: "list_all (\<lambda>c. json_escape c = [c]) s \<Longrightarrow> json_quote s = [CHR 0x22] @ s @ [CHR 0x22]"
proof -
  assume "list_all (\<lambda>c. json_escape c = [c]) s"
  then have "concat (map json_escape s) = s" by (induction s) simp_all
  then show ?thesis by (simp add: json_quote_def)
qed

lemma join_member: "x \<in> set xs \<Longrightarrow> \<exists>p q. join sep xs = p @ x @ q"
proof -
  assume "x \<in> set xs"
  then obtain ys zs where xs: "xs = ys @ x # zs" by (auto simp: in_set_conv_decomp)
  have "\<exists>p q. join sep (ys @ x # zs) = p @ x @ q"
  proof (induction ys)
    case Nil
    have "join sep (x # zs) = [] @ x @ (if zs = [] then [] else sep @ join sep zs)"
      by (cases zs) simp_all
    then show ?case by (metis append_Nil)
  next
    case (Cons y ys)
    then obtain p q where "join sep (ys @ x # zs) = p @ x @ q" by blast
    then have "join sep ((y # ys) @ x # zs) = (y @ sep @ p) @ x @ q"
      by (cases "ys @ x # zs") simp_all
    then show ?case by blast
  qed
  then show ?thesis by (simp add: xs)
qed

lemma stringify_member:
  assumes "(k, v) \<in> set ps" "json_str v = Some t"
  shows "\<exists>p q. stringify (Obj ps) = p @ t @ q"
proof -
  let ?f = "\<lambda>p. case json_str (snd p) of Some t \<Rightarrow> [json_quote (fst p) @ '':'' @ t] | None \<Rightarrow> []"
  have "json_quote k @ '':'' @ t \<in> set (concat (map ?f ps))"
    using assms by (force simp: image_iff)
  from join_member [OF this, of "'',''"]
  obtain p q where "join '','' (concat (map ?f ps)) = p @ (json_quote k @ '':'' @ t) @ q" by blast
  then have "stringify (Obj ps) = (''{'' @ p @ json_quote k @ '':'') @ t @ (q @ ''}'')"
    by (simp add: stringify_def)
  then show ?thesis by blast
qed

text \<open>
  The data is not escaped for HTML: a line of the log that needs no escape in JSON
  stands in the page, inside a script element, character by character; one that closes the
  element and opens another therefore runs.
\<close>

theorem log_text_unescaped:
  assumes "authorised ns" "ns_log_tail ns 8192 = Str s" "list_all (\<lambda>c. json_escape c = [c]) s"
  shows "\<exists>p q. written (stats_page ns client css) = p @ s @ q"
proof -
  have "json_str (Str s) = Some ([CHR 0x22] @ s @ [CHR 0x22])"
    using json_quote_plain [OF assms(3)] by simp
  moreover have "(''logTail'', Str s) \<in> set (case api_data ns of Obj ps \<Rightarrow> ps | _ \<Rightarrow> [])"
    by (simp add: api_data_def assms(2))
  moreover have "api_data ns = Obj (case api_data ns of Obj ps \<Rightarrow> ps | _ \<Rightarrow> [])" by (simp add: api_data_def)
  ultimately obtain p q where d: "stringify (api_data ns) = p @ ([CHR 0x22] @ s @ [CHR 0x22]) @ q"
    using stringify_member by metis
  let ?n = "to_str (opt_get (opt_get (api_data ns) ''info'') ''serverName'')"
  have "written (stats_page ns client css) = (page_head @ ?n @ (''</title>'' @ nl @ ''  <style>'') @ css @ page_body) @
      stringify (api_data ns) @ (('';</script>'' @ nl @ ''  <script>'') @ client @
        (''</script>'' @ nl @ ''</body>'' @ nl @ ''</html>'' @ nl) @ nl)"
    using assms(1) by (simp only: stats_page_def written_def) simp
  then obtain a b where "written (stats_page ns client css) = a @ stringify (api_data ns) @ b" by blast
  then have "written (stats_page ns client css) = (a @ p @ [CHR 0x22]) @ s @ ([CHR 0x22] @ q @ b)"
    by (simp add: d)
  then show ?thesis by blast
qed

lemma log_text_unescaped_witness:
  "\<exists>p q. written (stats_page (open_server ''</script><script>alert(1)</script>'') ''js'' ''css'') =
     p @ ''</script><script>alert(1)</script>'' @ q"
  by (rule log_text_unescaped) (simp_all add: authorised_def open_server_def json_escape_def Let_def)

subsection \<open>The template of the document\<close>











end
