(* ===== verification/ControlPort.thy ===== *)
theory ControlPort
  imports JsValue JsAdp SharedStore "HOL-Library.Word"
begin

unbundle bit_operations_syntax

text \<open>
  The control port (\<open>jscp\<close>) of \<open>nsjs/nsjs.cc\<close>: a line protocol by which an administrator who has
  authenticated runs JavaScript in the server. A socket is the text that will arrive on it and the
  answers of its calls of \<open>send\<close>. The lemmas show who gets in, what runs, that a session ends and
  that the number of sessions is kept.
\<close>

subsection \<open>The socket\<close>

text \<open>
  \<open>sock_in\<close> is what \<open>recv\<close> still delivers before the end of the file, \<open>sock_sends\<close> how many bytes
  each further call of \<open>send\<close> takes: 0, or no answer left, is an error.
\<close>

record socket =
  sock_in :: string
  sock_out :: string
  sock_sends :: "nat list"

text \<open>The line, and what is left to receive; the empty line also stands for the end of the file.\<close>

fun read_line_acc :: "string \<Rightarrow> string \<Rightarrow> string \<times> string" where
  "read_line_acc line [] = ([], [])"
| "read_line_acc line (c # s) =
     (if c = CHR 0x0A then (line, s)
      else if c \<noteq> CHR 0x0D then read_line_acc (line @ [c]) s
      else read_line_acc line s)"

definition JsCpReadLine :: "socket \<Rightarrow> string \<times> socket" where
  "JsCpReadLine k = (let (line, s) = read_line_acc [] (sock_in k) in (line, k\<lparr>sock_in := s\<rparr>))"

text \<open>The loop over partial writes.\<close>

fun write_loop :: "string \<Rightarrow> string \<Rightarrow> nat list \<Rightarrow> bool \<times> string \<times> nat list" where
  "write_loop out [] ns = (True, out, ns)"
| "write_loop out (c # s) [] = (False, out, [])"
| "write_loop out (c # s) (n # ns) =
     (if n = 0 then (False, out, ns)
      else write_loop (out @ take n (c # s)) (drop n (c # s)) ns)"

definition JsCpWrite :: "socket \<Rightarrow> string \<Rightarrow> bool \<times> socket" where
  "JsCpWrite k s =
     (let (ok, out, ns) = write_loop (sock_out k) s (sock_sends k)
      in (ok, k\<lparr>sock_out := out, sock_sends := ns\<rparr>))"

subsection \<open>Authentication\<close>

type_synonym jscp_user = "string \<times> string"

definition char_byte :: "char \<Rightarrow> 8 word" where
  "char_byte c = of_char c"

text \<open>The loop over two strings of the same length.\<close>

fun diff_bytes :: "8 word \<Rightarrow> string \<Rightarrow> string \<Rightarrow> 8 word" where
  "diff_bytes d (x # xs) (y # ys) = diff_bytes (d OR (char_byte x XOR char_byte y)) xs ys"
| "diff_bytes d _ _ = d"

definition JsCpConstEq :: "string \<Rightarrow> string \<Rightarrow> bool" where
  "JsCpConstEq a b = (if length a \<noteq> length b then False else diff_bytes 0 a b = 0)"

fun login :: "string \<Rightarrow> string \<Rightarrow> jscp_user list \<Rightarrow> bool" where
  "login user pass [] = False"
| "login user pass ((u, p) # us) = (if u = user \<and> JsCpConstEq p pass then True else login user pass us)"

definition crlf :: string where
  "crlf = [CHR 0x0D, CHR 0x0A]"

definition JsCpAuthenticate :: "jscp_user list \<Rightarrow> socket \<Rightarrow> bool \<times> socket" where
  "JsCpAuthenticate users k =
     (let (ok, k) = JsCpWrite k ''Username: '' in
      if \<not> ok then (False, k) else
      let (user, k) = JsCpReadLine k in
      if user = [] then (False, k) else
      let (ok, k) = JsCpWrite k ''Password: '' in
      if \<not> ok then (False, k) else
      let (pass, k) = JsCpReadLine k in
      if pass = [] then (False, k) else
      if login user pass users then (True, snd (JsCpWrite k (''Login successful.'' @ crlf)))
      else (False, snd (JsCpWrite k (''Login incorrect.'' @ crlf))))"

subsection \<open>Commands\<close>

text \<open>
  The lines of a command: a backslash at the end of a line continues it. The empty text is also
  the answer when the peer is gone.
\<close>

lemma read_line_acc_length:
  "read_line_acc line s = (l, r) \<Longrightarrow> length r \<le> length s \<and> (l \<noteq> [] \<longrightarrow> length r < length s)"
proof (induction line s rule: read_line_acc.induct)
  case (2 line c s)
  then show ?case by (fastforce split: if_splits)
qed simp

lemma JsCpReadLine_length: "JsCpReadLine k = (l, k') \<Longrightarrow> l \<noteq> [] \<Longrightarrow> length (sock_in k') < length (sock_in k)"
  by (auto simp: JsCpReadLine_def dest: read_line_acc_length split: prod.splits)

lemma JsCpWrite_in: "JsCpWrite k s = (ok, k') \<Longrightarrow> sock_in k' = sock_in k"
  by (auto simp: JsCpWrite_def split: prod.splits)

lemmas socket_facts = JsCpWrite_in JsCpReadLine_length

function continue_command :: "socket \<Rightarrow> string \<Rightarrow> string \<Rightarrow> string \<times> socket" where
  "continue_command k line code =
     (if line \<noteq> [] \<and> last line = CHR 0x5C
      then (let code = code @ butlast line @ [CHR 0x0A];
                (ok, k) = JsCpWrite k ''... ''
            in if \<not> ok then ([], k)
               else (let (line, k) = JsCpReadLine k
                     in if line = [] then (code, k) else continue_command k line code))
      else (code @ line, k))"
  by pat_completeness auto

termination
  by (relation "measure (\<lambda>(k, line, code). length (sock_in k))")
    (auto, metis socket_facts)

declare continue_command.simps [simp del]

definition JsCpReadCommand :: "nat \<Rightarrow> socket \<Rightarrow> string \<times> socket" where
  "JsCpReadCommand cmdNum k =
     (let (ok, k) = JsCpWrite k (''jscp '' @ nat_str cmdNum @ ''> '') in
      if \<not> ok then ([], k) else
      let (line, k) = JsCpReadLine k in
      if line = [] then ([], k) else continue_command k line [])"

lemma continue_command_length:
  "continue_command k line code = (c, k') \<Longrightarrow> length (sock_in k') \<le> length (sock_in k)"
proof (induction k line code rule: continue_command.induct)
  case (1 k line code)
  obtain ok k1 where w: "JsCpWrite k ''... '' = (ok, k1)" by (cases "JsCpWrite k ''... ''")
  obtain l k2 where r: "JsCpReadLine k1 = (l, k2)" by (cases "JsCpReadLine k1")
  have "length (sock_in k2) \<le> length (sock_in k1)"
    using r by (auto simp: JsCpReadLine_def dest: read_line_acc_length split: prod.splits)
  with w have le: "length (sock_in k2) \<le> length (sock_in k)" by (simp add: JsCpWrite_in)
  show ?case
  proof (cases "line \<noteq> [] \<and> last line = CHR 0x5C \<and> ok \<and> l \<noteq> []")
    case True
    with "1.prems" w r have "continue_command k2 l (code @ butlast line @ [CHR 0x0A]) = (c, k')"
      by (simp add: continue_command.simps [of k line])
    with "1.IH" [of "code @ butlast line @ [CHR 0x0A]" "(ok, k1)" ok k1 "(l, k2)" l k2] True w r le
    show ?thesis by simp
  next
    case False
    with "1.prems" w r le show ?thesis
      by (auto simp: continue_command.simps [of k line] JsCpWrite_in Let_def split: if_splits)
  qed
qed

lemma JsCpReadCommand_length:
  "JsCpReadCommand n k = (c, k') \<Longrightarrow> c \<noteq> [] \<Longrightarrow> length (sock_in k') < length (sock_in k)"
  by (fastforce simp: JsCpReadCommand_def dest: socket_facts continue_command_length
      split: if_splits prod.splits)

subsection \<open>Sessions\<close>

text \<open>
  V8 as far as a command needs it: compiling and running a script in a context, which may throw,
  and \<open>JSON.stringify\<close> of an object, which may be gone, throw or return. An error has a message and a
  line, if it has any.
\<close>

type_synonym v8_error = "string option \<times> int option"

datatype 'v v8_result = VUndefined | VNull | VObject 'v "string option" | VOther "string option"

datatype stringified = NoFunction | Throws | Returns "string option"

record ('c, 's, 'v) v8_engine =
  script_compile :: "'c \<Rightarrow> string \<Rightarrow> v8_error + 's"
  script_run :: "'c \<Rightarrow> 's \<Rightarrow> (v8_error + 'v v8_result) \<times> 'c"
  json_stringify :: "'c \<Rightarrow> 'v \<Rightarrow> stringified \<times> 'c"

definition error_text :: "string \<Rightarrow> v8_error \<Rightarrow> string" where
  "error_text fallback e = ''ERROR: '' @ (case fst e of Some m \<Rightarrow> m | None \<Rightarrow> fallback) @
     (case snd e of Some n \<Rightarrow> if 0 \<le> n then '' (line '' @ int_str n @ '')'' else [] | None \<Rightarrow> [])"

text \<open>
  The answer to a command and the context after it. None: \<open>ToLocalChecked\<close> of the empty result of
  \<open>JSON.stringify\<close> ends the process.
\<close>

definition JsCpRunCommand :: "('c, 's, 'v) v8_engine \<Rightarrow> 'c \<Rightarrow> string \<Rightarrow> string option \<times> 'c" where
  "JsCpRunCommand eng c code = (case script_compile eng c (c_str code) of
       Inl e \<Rightarrow> (Some (error_text ''compile error'' e), c)
     | Inr s \<Rightarrow> (case script_run eng c s of
         (Inl e, c) \<Rightarrow> (Some (error_text ''runtime error'' e), c)
       | (Inr VUndefined, c) \<Rightarrow> (Some ''undefined'', c)
       | (Inr VNull, c) \<Rightarrow> (Some ''null'', c)
       | (Inr (VObject v t), c) \<Rightarrow> (case json_stringify eng c v of
           (NoFunction, c) \<Rightarrow> (Some (case t of Some x \<Rightarrow> x | None \<Rightarrow> []), c)
         | (Throws, c) \<Rightarrow> (None, c)
         | (Returns j, c) \<Rightarrow> (Some (case j of Some x \<Rightarrow> x | None \<Rightarrow> ''null''), c))
       | (Inr (VOther t), c) \<Rightarrow> (Some (case t of Some x \<Rightarrow> x | None \<Rightarrow> []), c)))"

text \<open>
  The loop of a session. \<open>ev c code\<close> is the answer to a command in the session's context \<open>c\<close>, if
  there is one, and the context afterwards; the third result is the list of the commands that
  run, and the last says whether the server is still up.
\<close>

definition blank :: "char \<Rightarrow> bool" where
  "blank c \<longleftrightarrow> c \<in> {CHR '' '', CHR 0x09, CHR 0x0D, CHR 0x0A}"

function repl ::
  "('c \<Rightarrow> string \<Rightarrow> string option \<times> 'c) \<Rightarrow> nat \<Rightarrow> 'c \<Rightarrow> socket \<Rightarrow> 'c \<times> socket \<times> string list \<times> bool" where
  "repl ev cmdNum c k =
     (let (code, k) = JsCpReadCommand cmdNum k in
      if code = [] then (c, k, [], True) else
      let trimmed = dropWhile blank code in
      if trimmed = [] then repl ev (cmdNum + 1) c k else
      if trimmed = ''exit'' \<or> trimmed = ''quit'' then (c, k, [], True) else
      let (result, c) = ev c trimmed in
      if result = None then (c, k, [trimmed], False) else
      let (ok, k) = JsCpWrite k (the result @ crlf);
          (c, k, cmds, alive) = repl ev (cmdNum + 1) c k
      in (c, k, trimmed # cmds, alive))"
  by pat_completeness auto

termination
  by (relation "measure (\<lambda>(ev, n, c, k). length (sock_in k))")
    (auto, (metis socket_facts JsCpReadCommand_length)+)

declare repl.simps [simp del]

definition JsCpSession ::
  "jscp_user list \<Rightarrow> ('c \<Rightarrow> string \<Rightarrow> string option \<times> 'c) \<Rightarrow> 'c \<Rightarrow> socket \<Rightarrow> 'c \<times> socket \<times> string list \<times> bool" where
  "JsCpSession users ev c k =
     (let (ok, k) = JsCpAuthenticate users k
      in if \<not> ok then (c, k, [], True) else repl ev 1 c k)"

subsection \<open>Who gets in\<close>

lemma unat_char_byte: "unat (char_byte c) = of_char c"
proof -
  have "char_byte c = of_nat (of_char c)" by (simp add: char_byte_def of_nat_of_char)
  then show ?thesis by (simp add: unsigned_of_nat take_bit_eq_mod)
qed

lemma char_byte_inject [simp]: "char_byte x = char_byte y \<longleftrightarrow> x = y"
  by (metis unat_char_byte of_char_eq_iff)

lemma xor_word_eq_0: "a XOR b = 0 \<longleftrightarrow> a = (b :: 8 word)"
proof
  assume "a XOR b = 0"
  then have "(a XOR b) XOR b = b" by simp
  then show "a = b" by (simp add: ac_simps)
qed simp

lemma diff_bytes_eq_0: "length xs = length ys \<Longrightarrow> diff_bytes d xs ys = 0 \<longleftrightarrow> d = 0 \<and> xs = ys"
  by (induction d xs ys rule: diff_bytes.induct) (auto simp: or_eq_0_iff xor_word_eq_0)

text \<open>The comparison in constant time is equality.\<close>

lemma JsCpConstEq_iff: "JsCpConstEq a b \<longleftrightarrow> a = b"
  by (auto simp: JsCpConstEq_def diff_bytes_eq_0)

lemma login_iff: "login user pass users \<longleftrightarrow> (user, pass) \<in> set users"
  by (induction user pass users rule: login.induct) (auto simp: JsCpConstEq_iff)

text \<open>The first two lines that arrive on a socket.\<close>

definition credentials :: "socket \<Rightarrow> string \<times> string \<times> string" where
  "credentials k =
     (let (user, s) = read_line_acc [] (sock_in k); (pass, s) = read_line_acc [] s in (user, pass, s))"

lemma JsCpAuthenticate_True:
  assumes "JsCpAuthenticate users k = (True, k')"
  obtains user pass where "credentials k = (user, pass, sock_in k')" "(user, pass) \<in> set users"
    "user \<noteq> []" "pass \<noteq> []"
proof -
  obtain ok1 k1 where k1: "JsCpWrite k ''Username: '' = (ok1, k1)" by (cases "JsCpWrite k ''Username: ''")
  obtain user k2 where k2: "JsCpReadLine k1 = (user, k2)" by (cases "JsCpReadLine k1")
  obtain ok3 k3 where k3: "JsCpWrite k2 ''Password: '' = (ok3, k3)" by (cases "JsCpWrite k2 ''Password: ''")
  obtain pass k4 where k4: "JsCpReadLine k3 = (pass, k4)" by (cases "JsCpReadLine k3")
  have *: "user \<noteq> []" "pass \<noteq> []" "login user pass users" "k' = snd (JsCpWrite k4 (''Login successful.'' @ crlf))"
    using assms by (simp_all add: JsCpAuthenticate_def k1 k2 k3 k4 Let_def split: if_splits)
  have "sock_in k' = sock_in k4" using JsCpWrite_in [OF prod.collapse [symmetric]] *(4) by simp
  moreover have "read_line_acc [] (sock_in k) = (user, sock_in k2)"
    using k2 JsCpWrite_in [OF k1] by (auto simp: JsCpReadLine_def split: prod.splits)
  moreover have "read_line_acc [] (sock_in k2) = (pass, sock_in k4)"
    using k4 JsCpWrite_in [OF k3] by (auto simp: JsCpReadLine_def split: prod.splits)
  ultimately have "credentials k = (user, pass, sock_in k')" by (simp add: credentials_def)
  with that * show ?thesis by (simp add: login_iff)
qed

text \<open>
  Claim C10. Nothing runs without a login: when a session runs a command, or changes the state of
  its context, the first two lines that it received are the name and the non-empty password of
  a configured user.
\<close>

theorem commands_need_login:
  assumes "JsCpSession users ev c k = (c', k', cmds, alive)" "cmds \<noteq> [] \<or> c' \<noteq> c"
  shows "\<exists>user pass rest. credentials k = (user, pass, rest) \<and> (user, pass) \<in> set users \<and> user \<noteq> [] \<and> pass \<noteq> []"
proof (cases "JsCpAuthenticate users k")
  case (Pair ok k1)
  with assms have ok by (auto simp: JsCpSession_def split: if_splits)
  with Pair show ?thesis by (auto elim!: JsCpAuthenticate_True)
qed

definition admin_socket :: "string \<Rightarrow> socket" where
  "admin_socket s = \<lparr>sock_in = s, sock_out = [], sock_sends = replicate 200 9\<rparr>"

lemma commands_need_login_witness:
  "\<exists>c' k' cmds. JsCpSession [(''root'', ''pw'')] (\<lambda>c code. (Some code, c + (1 :: nat))) 0
      (admin_socket (concat (map (\<lambda>l. l @ crlf) [''root'', ''pw'', ''1+1'']))) = (c', k', cmds, True) \<and> cmds = [''1+1''] \<and>
    (\<exists>user pass rest. credentials (admin_socket (concat (map (\<lambda>l. l @ crlf) [''root'', ''pw'', ''1+1'']))) = (user, pass, rest) \<and>
       (user, pass) \<in> set [(''root'', ''pw'')] \<and> user \<noteq> [] \<and> pass \<noteq> [])"
proof -
  let ?k = "admin_socket (concat (map (\<lambda>l. l @ crlf) [''root'', ''pw'', ''1+1'']))"
  have "snd (snd (JsCpSession [(''root'', ''pw'')] (\<lambda>c code. (Some code, c + (1 :: nat))) 0 ?k)) = ([''1+1''], True)"
    by code_simp
  then obtain c' k' where s: "JsCpSession [(''root'', ''pw'')] (\<lambda>c code. (Some code, c + (1 :: nat))) 0 ?k =
      (c', k', [''1+1''], True)"
    by (cases "JsCpSession [(''root'', ''pw'')] (\<lambda>c code. (Some code, c + (1 :: nat))) 0 ?k") auto
  from commands_need_login [OF s] s show ?thesis by blast
qed

subsection \<open>Reading commands\<close>

text \<open>The peer takes at least \<open>n\<close> more bytes, however it splits them.\<close>

definition takes :: "nat \<Rightarrow> socket \<Rightarrow> bool" where
  "takes n k \<longleftrightarrow> list_all (\<lambda>m. 0 < m) (sock_sends k) \<and> n \<le> length (sock_sends k)"

lemma write_loop_takes:
  "list_all (\<lambda>m. 0 < m) ns \<Longrightarrow> length s \<le> length ns \<Longrightarrow>
     \<exists>ns'. write_loop out s ns = (True, out @ s, ns') \<and> list_all (\<lambda>m. 0 < m) ns' \<and> length ns \<le> length ns' + length s"
proof (induction out s ns rule: write_loop.induct)
  case (3 out c s n ns)
  have le: "length (drop n (c # s)) \<le> length s" using 3(2) by (cases n) simp_all
  with 3 obtain ns' where "write_loop (out @ take n (c # s)) (drop n (c # s)) ns =
      (True, (out @ take n (c # s)) @ drop n (c # s), ns')" "list_all (\<lambda>m. 0 < m) ns'"
      "length ns \<le> length ns' + length (drop n (c # s))"
    by fastforce
  with 3(2) le show ?case by (auto simp del: append_take_drop_id simp: append_take_drop_id [of n "c # s"])
qed simp_all

lemma JsCpWrite_takes:
  assumes "takes n k" "length s \<le> n"
  obtains k' where "JsCpWrite k s = (True, k')" "takes (n - length s) k'" "sock_in k' = sock_in k"
    "sock_out k' = sock_out k @ s"
proof -
  have "length s \<le> length (sock_sends k)" using assms by (simp add: takes_def)
  then obtain ns' where "write_loop (sock_out k) s (sock_sends k) = (True, sock_out k @ s, ns')"
      "list_all (\<lambda>m. 0 < m) ns'" "length (sock_sends k) \<le> length ns' + length s"
    using write_loop_takes assms(1) unfolding takes_def by blast
  moreover have "n \<le> length (sock_sends k)" using assms(1) by (simp add: takes_def)
  with calculation(3) have "n - length s \<le> length ns'" by linarith
  ultimately show ?thesis
    using that [of "k\<lparr>sock_out := sock_out k @ s, sock_sends := ns'\<rparr>"]
    by (simp add: JsCpWrite_def takes_def)
qed

definition plain_line :: "string \<Rightarrow> bool" where
  "plain_line l \<longleftrightarrow> CHR 0x0A \<notin> set l \<and> CHR 0x0D \<notin> set l"

lemma read_plain_line: "plain_line l \<Longrightarrow> read_line_acc acc (l @ CHR 0x0A # s) = (acc @ l, s)"
  by (induction l arbitrary: acc) (auto simp: plain_line_def)

lemma JsCpReadLine_plain:
  "plain_line l \<Longrightarrow> sock_in k = l @ CHR 0x0A # s \<Longrightarrow> JsCpReadLine k = (l, k\<lparr>sock_in := s\<rparr>)"
  by (simp add: JsCpReadLine_def read_plain_line)

text \<open>A command of several lines as it is typed: all but the last end with a backslash.\<close>

definition typed :: "string list \<Rightarrow> string" where
  "typed ls = join [CHR 0x5C, CHR 0x0A] ls @ [CHR 0x0A]"

definition command_lines :: "string list \<Rightarrow> bool" where
  "command_lines ls \<longleftrightarrow> ls \<noteq> [] \<and> list_all plain_line ls \<and> last ls \<noteq> [] \<and> last (last ls) \<noteq> CHR 0x5C"

lemma continue_command_typed:
  "command_lines (l # ls) \<Longrightarrow> takes (4 * length ls) k \<Longrightarrow>
     (ls \<noteq> [] \<Longrightarrow> sock_in k = typed ls @ rest) \<Longrightarrow> (ls = [] \<Longrightarrow> sock_in k = rest) \<Longrightarrow>
     \<exists>k'. continue_command k (if ls = [] then l else l @ [CHR 0x5C]) code = (code @ join [CHR 0x0A] (l # ls), k') \<and>
       sock_in k' = rest"
proof (induction ls arbitrary: l k code)
  case Nil
  then show ?case by (auto simp: continue_command.simps command_lines_def)
next
  case (Cons m ls)
  obtain k1 where k1: "JsCpWrite k ''... '' = (True, k1)" "takes (4 * length ls) k1" "sock_in k1 = sock_in k"
    using JsCpWrite_takes [OF Cons.prems(2), of "''... ''"] by auto
  let ?m = "if ls = [] then m else m @ [CHR 0x5C]"
  have m: "plain_line ?m" "?m \<noteq> []"
    using Cons.prems(1) by (auto simp: command_lines_def plain_line_def)
  have "typed (m # ls) @ rest = ?m @ CHR 0x0A # (if ls = [] then rest else typed ls @ rest)"
    by (cases ls) (simp_all add: typed_def)
  with k1(3) Cons.prems(3) have "sock_in k1 = ?m @ CHR 0x0A # (if ls = [] then rest else typed ls @ rest)" by simp
  from JsCpReadLine_plain [OF m(1) this]
  have r: "JsCpReadLine k1 = (?m, k1\<lparr>sock_in := if ls = [] then rest else typed ls @ rest\<rparr>)" .
  have "command_lines (m # ls)" using Cons.prems(1) by (auto simp: command_lines_def)
  from Cons.IH [OF this, of "k1\<lparr>sock_in := if ls = [] then rest else typed ls @ rest\<rparr>" "code @ l @ [CHR 0x0A]"] k1(2)
  obtain k' where "continue_command (k1\<lparr>sock_in := if ls = [] then rest else typed ls @ rest\<rparr>) ?m (code @ l @ [CHR 0x0A])
      = ((code @ l @ [CHR 0x0A]) @ join [CHR 0x0A] (m # ls), k')" "sock_in k' = rest"
    by (auto simp: takes_def)
  with m(2) k1(1) r show ?case
    by (subst continue_command.simps) (simp add: Let_def)
qed

text \<open>
  A command is read as it was typed: lines continued with a backslash, whatever they
  contain, arrive as the command's text with its ends of line, and what follows is left for the
  next command.
\<close>

theorem command_round_trip:
  assumes "command_lines ls" "sock_in k = typed ls @ rest" "takes (length (''jscp '' @ nat_str n @ ''> '') + 4 * length ls) k"
  shows "\<exists>k'. JsCpReadCommand n k = (join [CHR 0x0A] ls, k') \<and> sock_in k' = rest"
proof -
  obtain l ms where ls: "ls = l # ms" using assms(1) by (cases ls) (auto simp: command_lines_def)
  obtain k1 where k1: "JsCpWrite k (''jscp '' @ nat_str n @ ''> '') = (True, k1)" "takes (4 * length ls) k1"
      "sock_in k1 = sock_in k"
    using JsCpWrite_takes [OF assms(3), of "''jscp '' @ nat_str n @ ''> ''"] by auto
  let ?l = "if ms = [] then l else l @ [CHR 0x5C]"
  have l: "plain_line ?l" "?l \<noteq> []"
    using assms(1) ls by (auto simp: command_lines_def plain_line_def)
  have "typed ls @ rest = ?l @ CHR 0x0A # (if ms = [] then rest else typed ms @ rest)"
    using ls by (cases ms) (simp_all add: typed_def)
  with k1(3) assms(2) have "sock_in k1 = ?l @ CHR 0x0A # (if ms = [] then rest else typed ms @ rest)" by simp
  from JsCpReadLine_plain [OF l(1) this]
  have r: "JsCpReadLine k1 = (?l, k1\<lparr>sock_in := if ms = [] then rest else typed ms @ rest\<rparr>)" .
  have "takes (4 * length ms) (k1\<lparr>sock_in := if ms = [] then rest else typed ms @ rest\<rparr>)"
    using k1(2) ls by (simp add: takes_def)
  from continue_command_typed [OF assms(1) [unfolded ls] this, of rest "[]"]
  obtain k' where "continue_command (k1\<lparr>sock_in := if ms = [] then rest else typed ms @ rest\<rparr>) ?l []
      = (join [CHR 0x0A] ls, k')" "sock_in k' = rest" by (auto simp: ls)
  with l(2) k1(1) r show ?thesis by (simp add: JsCpReadCommand_def)
qed

lemma command_round_trip_witness:
  "\<exists>k'. JsCpReadCommand 1 (admin_socket (typed [''f('', ''1)''] @ ''2'')) = (''f('' @ [CHR 0x0A] @ ''1)'', k') \<and>
     sock_in k' = ''2''"
proof -
  have "command_lines [''f('', ''1)'']" by (simp add: command_lines_def plain_line_def)
  moreover have "takes (length (''jscp '' @ nat_str 1 @ ''> '') + 4 * length [''f('', ''1)''])
      (admin_socket (typed [''f('', ''1)''] @ ''2''))"
    by (simp add: takes_def admin_socket_def list_all_iff nat_str.simps)
  moreover have "sock_in (admin_socket (typed [''f('', ''1)''] @ ''2'')) = typed [''f('', ''1)''] @ ''2''"
    by (simp add: admin_socket_def)
  ultimately show ?thesis using command_round_trip [of "[''f('', ''1)'']" _ "''2''" 1] by simp
qed

text \<open>
  An empty line ends the session: it is taken for the end of the connection, and the
  commands after it are never run.
\<close>

theorem empty_line_ends_session:
  assumes "sock_in k = eol @ rest" "eol \<in> {[CHR 0x0A], crlf}"
  shows "\<exists>k'. repl ev n c k = (c, k', [], True)"
proof -
  obtain ok k1 where k1: "JsCpWrite k (''jscp '' @ nat_str n @ ''> '') = (ok, k1)"
    by (cases "JsCpWrite k (''jscp '' @ nat_str n @ ''> '')")
  have "JsCpReadLine k1 = ([], k1\<lparr>sock_in := rest\<rparr>)"
    using assms JsCpWrite_in [OF k1] by (auto simp: JsCpReadLine_def crlf_def)
  with k1 have "fst (JsCpReadCommand n k) = []" by (simp add: JsCpReadCommand_def)
  then show ?thesis
    by (cases "JsCpReadCommand n k") (simp add: repl.simps [of ev n c k])
qed

lemma empty_line_ends_session_witness:
  "\<exists>k'. repl (\<lambda>c code. (Some code, c + (1 :: nat))) 1 0 (admin_socket (crlf @ ''1+1'' @ crlf)) = (0, k', [], True)"
  by (rule empty_line_ends_session [of _ crlf "''1+1'' @ crlf"]) (simp_all add: admin_socket_def)

subsection \<open>What takes the server down\<close>

lemma JsCpRunCommand_None:
  "fst (JsCpRunCommand eng c code) = None \<longleftrightarrow>
     (\<exists>s v t c'. script_compile eng c (c_str code) = Inr s \<and> script_run eng c s = (Inr (VObject v t), c') \<and>
       fst (json_stringify eng c' v) = Throws)"
  by (auto simp: JsCpRunCommand_def split: sum.splits prod.splits v8_result.splits stringified.splits)

lemma repl_aborts:
  "repl ev n c k = (c', k', cmds, False) \<Longrightarrow> \<exists>c0. cmds \<noteq> [] \<and> fst (ev c0 (last cmds)) = None"
proof (induction ev n c k arbitrary: c' k' cmds rule: repl.induct)
  case (1 ev n c k)
  obtain code k1 where r: "JsCpReadCommand n k = (code, k1)" by (cases "JsCpReadCommand n k")
  define u where "u = dropWhile blank code"
  obtain res c1 where e: "ev c u = (res, c1)" by (cases "ev c u")
  have more: "code \<noteq> []" using "1.prems" r by (auto simp: repl.simps [of ev n])
  have step: "repl ev n c k =
     (if u = [] then repl ev (n + 1) c k1 else
      if u = ''exit'' \<or> u = ''quit'' then (c, k1, [], True) else
      if res = None then (c1, k1, [u], False) else
      let (ok, k) = JsCpWrite k1 (the res @ crlf); (c, k, cmds, alive) = repl ev (n + 1) c1 k
      in (c, k, u # cmds, alive))"
    unfolding repl.simps [of ev n c k] by (simp only: r more e u_def [symmetric] Let_def prod.case if_False)
  show ?case
  proof (cases "u = [] \<or> res = None")
    case True
    then show ?thesis
    proof (cases "u = []")
      case True
      with "1.prems" step have "repl ev (n + 1) c k1 = (c', k', cmds, False)" by simp
      from "1.IH"(1) [OF r [symmetric] refl more refl _ this] True show ?thesis by (simp add: u_def)
    next
      case False
      with True "1.prems" step have "cmds = [u]" by (auto split: if_splits)
      with True False e show ?thesis by (intro exI [of _ c]) simp
    qed
  next
    case False
    then obtain a where a: "res = Some a" by auto
    obtain ok k2 where w: "JsCpWrite k1 (a @ crlf) = (ok, k2)" by (cases "JsCpWrite k1 (a @ crlf)")
    obtain c3 k3 cs al where t: "repl ev (n + 1) c1 k2 = (c3, k3, cs, al)" by (cases "repl ev (n + 1) c1 k2")
    have *: "u \<noteq> ''exit'' \<and> u \<noteq> ''quit''"
      using "1.prems" step False by auto
    have c: "cmds = u # cs" "al = False"
      using "1.prems" step False a w t * by simp_all
    have "\<exists>c0. cs \<noteq> [] \<and> fst (ev c0 (last cs)) = None"
      using "1.IH"(2) [of "(code, k1)" code k1 u "(res, c1)" res c1 "(ok, k2)" ok k2 c3 k3 cs] r more False e a w t * c
      by (simp add: u_def)
    with c show ?thesis by auto
  qed
qed

text \<open>
  A session takes the server down in one way only: its last command compiled, ran and
  returned an object that \<open>JSON.stringify\<close> rejects with an exception, such as one with a cycle.
\<close>

theorem server_lost_by_stringify:
  assumes "JsCpSession users (JsCpRunCommand eng) c k = (c', k', cmds, False)"
  shows "\<exists>c0 s v t c1. cmds \<noteq> [] \<and> script_compile eng c0 (c_str (last cmds)) = Inr s \<and>
    script_run eng c0 s = (Inr (VObject v t), c1) \<and> fst (json_stringify eng c1 v) = Throws"
proof -
  obtain n c1 k1 where "repl (JsCpRunCommand eng) n c1 k1 = (c', k', cmds, False)"
    using assms by (auto simp: JsCpSession_def split: prod.splits if_splits)
  from repl_aborts [OF this] show ?thesis by (auto simp: JsCpRunCommand_None)
qed

text \<open>An engine whose scripts return their text; \<open>loop\<close> is an object with a cycle.\<close>

definition cyclic_engine :: "(nat, string, string) v8_engine" where
  "cyclic_engine =
     \<lparr>script_compile = (\<lambda>c code. Inr code),
      script_run = (\<lambda>c s. (Inr (if s = ''loop'' then VObject s None else VOther (Some s)), c + 1)),
      json_stringify = (\<lambda>c v. (Throws, c))\<rparr>"

lemma server_lost_by_stringify_witness:
  "\<exists>c' k' cmds. JsCpSession [(''root'', ''pw'')] (JsCpRunCommand cyclic_engine) 0
      (admin_socket (concat (map (\<lambda>l. l @ crlf) [''root'', ''pw'', ''1'', ''loop'', ''2'']))) = (c', k', cmds, False) \<and>
    cmds = [''1'', ''loop''] \<and>
    (\<exists>c0 s v t c1. script_compile cyclic_engine c0 (c_str (last cmds)) = Inr s \<and>
      script_run cyclic_engine c0 s = (Inr (VObject v t), c1) \<and> fst (json_stringify cyclic_engine c1 v) = Throws)"
proof -
  let ?x = "JsCpSession [(''root'', ''pw'')] (JsCpRunCommand cyclic_engine) 0
      (admin_socket (concat (map (\<lambda>l. l @ crlf) [''root'', ''pw'', ''1'', ''loop'', ''2''])))"
  have r: "snd (snd ?x) = ([''1'', ''loop''], False)" by code_simp
  then obtain c' k' where x: "?x = (c', k', [''1'', ''loop''], False)" by (cases ?x) auto
  from server_lost_by_stringify [OF x] x show ?thesis by blast
qed

subsection \<open>The number of sessions\<close>

text \<open>
  The listener and the ends of its sessions; both change the count under the same lock. A
  connection over the limit is refused.
\<close>

record listener =
  js_cp_conn_count :: int
  live_sessions :: "nat list"
  refused :: "nat list"

datatype port_event = Accept nat | SessionEnd nat

definition accept_session :: "int \<Rightarrow> nat \<Rightarrow> listener \<Rightarrow> listener" where
  "accept_session maxSessions fd s =
     (let n = js_cp_conn_count s;
          s = (if n < maxSessions then s\<lparr>js_cp_conn_count := n + 1\<rparr> else s)
      in if maxSessions \<le> n then s\<lparr>refused := fd # refused s\<rparr>
         else s\<lparr>live_sessions := fd # live_sessions s\<rparr>)"

definition end_session :: "nat \<Rightarrow> listener \<Rightarrow> listener" where
  "end_session fd s =
     (if fd \<in> set (live_sessions s)
      then s\<lparr>live_sessions := remove1 fd (live_sessions s), js_cp_conn_count := js_cp_conn_count s - 1\<rparr>
      else s)"

definition port_step :: "int \<Rightarrow> port_event \<Rightarrow> listener \<Rightarrow> listener" where
  "port_step m e s = (case e of Accept fd \<Rightarrow> accept_session m fd s | SessionEnd fd \<Rightarrow> end_session fd s)"

definition port_init :: listener where
  "port_init = \<lparr>js_cp_conn_count = 0, live_sessions = [], refused = []\<rparr>"

definition sessions_ok :: "int \<Rightarrow> listener \<Rightarrow> bool" where
  "sessions_ok m s \<longleftrightarrow> js_cp_conn_count s = int (length (live_sessions s)) \<and> js_cp_conn_count s \<le> max 0 m"

interpretation port: machine "port_step m" port_init "sessions_ok m"
proof
  show "sessions_ok m port_init" by (simp add: sessions_ok_def port_init_def)
next
  fix s e
  assume "sessions_ok m s"
  then show "sessions_ok m (port_step m e s)"
    by (cases e) (auto simp: sessions_ok_def port_step_def accept_session_def end_session_def length_remove1
        in_set_conv_nth of_nat_diff Let_def split: if_splits)
qed

text \<open>
  The count of sessions is exact and the limit holds: at every moment it is the number
  of live sessions, at most the configured maximum, and a connection is accepted exactly when
  fewer sessions are live.
\<close>

theorem sessions_bounded:
  "js_cp_conn_count (run (port_step m) es port_init) = int (length (live_sessions (run (port_step m) es port_init))) \<and>
   int (length (live_sessions (run (port_step m) es port_init))) \<le> max 0 m \<and>
   live_sessions (run (port_step m) (es @ [Accept fd]) port_init) =
     (if int (length (live_sessions (run (port_step m) es port_init))) < m
      then fd # live_sessions (run (port_step m) es port_init) else live_sessions (run (port_step m) es port_init))"
  using port.inv_run [where es = es and m = m]
  by (auto simp: run_append sessions_ok_def port_step_def accept_session_def Let_def)

subsection \<open>The configured users\<close>

text \<open>\<open>jscp_users\<close> is a list of pairs of name and password.\<close>

function parse_users :: "string \<Rightarrow> nat \<Rightarrow> jscp_user list \<Rightarrow> jscp_user list" where
  "parse_users us pos users =
     (if pos < length us then
        (let sp = string_find us '' '' pos;
             tok = (case sp of None \<Rightarrow> drop pos us | Some i \<Rightarrow> substr us pos (i - pos));
             next_pos = (case sp of None \<Rightarrow> length us | Some i \<Rightarrow> i + 1)
         in parse_users us next_pos
              (if tok = [] then users
               else (case string_find tok '':'' 0 of
                   None \<Rightarrow> users
                 | Some col \<Rightarrow> users @ [(substr tok 0 col, drop (col + 1) tok)])))
      else users)"
  by pat_completeness auto

termination
  by (relation "measure (\<lambda>(us, pos, users). length us - pos)")
    (auto split: option.splits dest: string_find_ge)

declare parse_users.simps [simp del]

lemma index_of_char: "c \<notin> set p \<Longrightarrow> index_of [c] (p @ c # q) = Some (length p)" "c \<notin> set p \<Longrightarrow> index_of [c] p = None"
  by (induction p) auto

definition user_text :: "jscp_user \<Rightarrow> string" where
  "user_text u = fst u @ '':'' @ snd u"

definition plain_user :: "jscp_user \<Rightarrow> bool" where
  "plain_user u \<longleftrightarrow> CHR '':'' \<notin> set (fst u) \<and> CHR '' '' \<notin> set (fst u) \<and> CHR '' '' \<notin> set (snd u)"

lemma parse_users_text:
  "list_all plain_user us \<Longrightarrow>
     parse_users (pre @ join '' '' (map user_text us)) (length pre) users = users @ us"
proof (induction us arbitrary: pre users)
  case Nil
  then show ?case by (simp add: parse_users.simps)
next
  case (Cons u us)
  let ?t = "user_text u" and ?s = "pre @ join '' '' (map user_text (u # us))"
  have t: "?t \<noteq> []" "CHR '' '' \<notin> set ?t" using Cons.prems by (auto simp: user_text_def plain_user_def)
  have col: "string_find ?t '':'' 0 = Some (length (fst u))"
    using Cons.prems by (simp add: string_find_def user_text_def plain_user_def index_of_char option.map_ident)
  have pair: "(substr ?t 0 (length (fst u)), drop (length (fst u) + 1) ?t) = u"
    by (simp add: substr_def user_text_def)
  show ?case
  proof (cases us)
    case Nil
    with t have "string_find ?s '' '' (length pre) = None" by (simp add: string_find_def index_of_char)
    with Nil t col pair show ?thesis by (simp add: parse_users.simps [of _ "length pre"] parse_users.simps [of _ "length _ + length _"])
  next
    case (Cons v vs)
    then have s: "?s = (pre @ ?t @ '' '') @ join '' '' (map user_text us)" by simp
    then have sp: "string_find ?s '' '' (length pre) = Some (length pre + length ?t)"
      using t(2) by (simp add: string_find_def index_of_char)
    have "parse_users ?s (length (pre @ ?t @ '' '')) (users @ [u]) = (users @ [u]) @ us"
      unfolding s by (rule Cons.IH) (use Cons.prems in simp)
    with sp t(1) col pair s show ?thesis
      by (subst parse_users.simps) (simp add: substr_def)
  qed
qed

text \<open>
  The configuration of the users is read back: a list of names without colon or blank
  and passwords without blank, written as pairs with a colon and separated by blanks, gives
  exactly these users; a password may contain colons.
\<close>

theorem users_round_trip:
  assumes "list_all plain_user us"
  shows "parse_users (join '' '' (map user_text us)) 0 [] = us"
  using parse_users_text [OF assms, of "[]" "[]"] by simp

lemma users_round_trip_witness:
  "parse_users ''root:s:3 guest:pw'' 0 [] = [(''root'', ''s:3''), (''guest'', ''pw'')]"
proof -
  have "list_all plain_user [(''root'', ''s:3''), (''guest'', ''pw'')]" by (simp add: plain_user_def)
  from users_round_trip [OF this] show ?thesis by (simp add: user_text_def)
qed

end
