(* ===== verification/Polyfill.thy ===== *)
theory Polyfill
  imports Main "HOL-Library.Word"
begin

text \<open>
  The polyfill that \<open>nsjs/dashboard/build.mjs\<close> puts in front of the server bundle:
  \<open>TextEncoder\<close> and \<open>TextDecoder\<close> for an embedder of V8 without them. Strings are lists of
  16-bit code units and buffers lists of bytes; the arithmetic is JavaScript's on 32 bits.
  The encoder is compared with a strict UTF-8 decoder, written in plain arithmetic.
\<close>

unbundle bit_operations_syntax

type_synonym unit16 = "16 word"
type_synonym byte = "8 word"

subsection \<open>The polyfill\<close>

text \<open>What one code unit pushes.\<close>

definition encode_unit :: "unit16 \<Rightarrow> 32 word list" where
  "encode_unit u = (let c = ucast u :: 32 word in
     if c < 0x80 then [c]
     else if c < 0x800 then [0xc0 OR drop_bit 6 c, 0x80 OR (c AND 0x3f)]
     else [0xe0 OR drop_bit 12 c, 0x80 OR (drop_bit 6 c AND 0x3f), 0x80 OR (c AND 0x3f)])"

text \<open>\<open>new Uint8Array(b)\<close> keeps the low byte of each number.\<close>

definition encoder_encode :: "unit16 list \<Rightarrow> byte list" where
  "encoder_encode s = map ucast (concat (map encode_unit s))"

definition decoder_decode :: "byte list \<Rightarrow> unit16 list" where
  "decoder_decode a = map ucast a"

subsection \<open>UTF-8\<close>

definition surrogate :: "nat \<Rightarrow> bool" where
  "surrogate u \<longleftrightarrow> 0xD800 \<le> u \<and> u \<le> 0xDFFF"

definition is_cont :: "nat \<Rightarrow> bool" where
  "is_cont b \<longleftrightarrow> 0x80 \<le> b \<and> b < 0xC0"

text \<open>
  The strict decoder: shortest forms only, no surrogates, nothing above \<open>0x10FFFF\<close>. Its
  result is UTF-16.
\<close>

fun utf8_decode :: "nat list \<Rightarrow> nat list option" where
  "utf8_decode [] = Some []"
| "utf8_decode (b # bs) =
     (if b < 0x80 then map_option ((#) b) (utf8_decode bs)
      else case bs of
        [] \<Rightarrow> None
      | c # cs \<Rightarrow>
          if \<not> is_cont c then None
          else if 0xC2 \<le> b \<and> b < 0xE0
            then map_option ((#) ((b - 0xC0) * 64 + (c - 0x80))) (utf8_decode cs)
          else case cs of
            [] \<Rightarrow> None
          | d # ds \<Rightarrow>
              if \<not> is_cont d then None
              else if 0xE0 \<le> b \<and> b < 0xF0
                then (let v = (b - 0xE0) * 4096 + (c - 0x80) * 64 + (d - 0x80)
                      in if v < 0x800 \<or> surrogate v then None else map_option ((#) v) (utf8_decode ds))
              else case ds of
                [] \<Rightarrow> None
              | e # es \<Rightarrow>
                  if \<not> is_cont e then None
                  else if 0xF0 \<le> b \<and> b < 0xF5
                    then (let v = (b - 0xF0) * 262144 + (c - 0x80) * 4096 + (d - 0x80) * 64 + (e - 0x80)
                          in if v < 0x10000 \<or> 0x10FFFF < v then None
                             else map_option (\<lambda>us. (0xD800 + (v - 0x10000) div 1024) #
                                    (0xDC00 + (v - 0x10000) mod 1024) # us) (utf8_decode es))
                  else None)"

subsection \<open>Words as numbers\<close>

lemma or_is_add:
  fixes a b :: nat
  assumes "take_bit n b = b" "take_bit n a = 0"
  shows "a OR b = a + b"
proof -
  have "\<not> bit a m \<or> \<not> bit b m" for m
  proof (cases "m < n")
    case True
    have "bit (take_bit n a) m \<longleftrightarrow> bit a m" using True by (simp add: bit_take_bit_iff)
    then show ?thesis by (simp add: assms(2))
  next
    case False
    then have "\<not> bit (take_bit n b) m" by (simp add: bit_take_bit_iff)
    then show ?thesis by (simp add: assms(1))
  qed
  then show ?thesis by (rule disjunctive_add [symmetric])
qed

lemma low_bits: "(x :: nat) AND 0x3f = x mod 64"
proof -
  have m: "(0x3f :: nat) = mask 6" by (simp add: mask_eq_exp_minus_1)
  show ?thesis unfolding m take_bit_eq_mask [symmetric] by (simp add: take_bit_eq_mod)
qed

lemma lead_2: "x < 32 \<Longrightarrow> (0xc0 :: nat) OR x = 0xc0 + x"
  by (rule or_is_add [of 5]) (simp_all add: take_bit_eq_mod)

lemma lead_3: "x < 16 \<Longrightarrow> (0xe0 :: nat) OR x = 0xe0 + x"
  by (rule or_is_add [of 4]) (simp_all add: take_bit_eq_mod)

lemma cont: "x < 64 \<Longrightarrow> (0x80 :: nat) OR x = 0x80 + x"
  by (rule or_is_add [of 6]) (simp_all add: take_bit_eq_mod)

lemma unat_unit_less: "unat (u :: unit16) < 65536"
proof -
  have "unat u < 2 ^ LENGTH(16)" by (rule unsigned_less)
  then show ?thesis by simp
qed

lemma unat_ucast_unit: "unat (ucast (u :: unit16) :: 32 word) = unat u"
  using unat_unit_less [of u] by (simp add: unsigned_ucast_eq take_bit_eq_mod)

lemma unat_byte: "unat (ucast (w :: 32 word) :: byte) = unat w mod 256"
  by (simp add: unsigned_ucast_eq take_bit_eq_mod)

text \<open>The bytes of a code unit, in arithmetic.\<close>

lemma encode_unit_bytes:
  fixes u :: unit16
  defines "n \<equiv> unat u"
  shows "map (\<lambda>w. unat (ucast w :: byte)) (encode_unit u) =
    (if n < 0x80 then [n]
     else if n < 0x800 then [0xc0 + n div 64, 0x80 + n mod 64]
     else [0xe0 + n div 4096, 0x80 + n div 64 mod 64, 0x80 + n mod 64])"
proof -
  let ?c = "ucast u :: 32 word"
  have n: "unat ?c = n" unfolding n_def by (rule unat_ucast_unit)
  have le: "n < 65536" unfolding n_def by (rule unat_unit_less)
  have lt: "?c < 0x80 \<longleftrightarrow> n < 0x80" "?c < 0x800 \<longleftrightarrow> n < 0x800"
    by (simp_all add: word_less_nat_alt n)

  have shift: "unat (drop_bit 6 ?c) = n div 64" "unat (drop_bit 12 ?c) = n div 4096"
    by (simp_all add: drop_bit_eq_div unat_div n)
  have ops: "unat (0xc0 OR x) = 0xc0 OR unat x" "unat (0xe0 OR x) = 0xe0 OR unat x"
    "unat (0x80 OR x) = 0x80 OR unat x" "unat (x AND 0x3f) = unat x AND 0x3f" for x :: "32 word"
    by (simp_all add: unsigned_or_eq unsigned_and_eq)
  have small: "n div 64 < 32" if "n < 0x800" using that by (simp add: div_less_iff_less_mult)
  have small': "n div 4096 < 16" using le by (simp add: div_less_iff_less_mult)
  have b2: "unat (0xc0 OR drop_bit 6 ?c) = 0xc0 + n div 64" if "n < 0x800"
    by (simp only: ops shift lead_2 [OF small [OF that]])
  have b3: "unat (0xe0 OR drop_bit 12 ?c) = 0xe0 + n div 4096"
    by (simp only: ops shift lead_3 [OF small'])
  have mod: "x mod 64 < 64" for x :: nat by simp
  have c1: "unat (0x80 OR (?c AND 0x3f)) = 0x80 + n mod 64"
    by (simp only: ops n low_bits cont [OF mod])
  have c2: "unat (0x80 OR (drop_bit 6 ?c AND 0x3f)) = 0x80 + n div 64 mod 64"
    by (simp only: ops shift low_bits cont [OF mod])
  have fit: "0xe0 + n div 4096 < 256" "0x80 + n div 64 mod 64 < 256" "0x80 + n mod 64 < 256"
    using small' mod [of "n div 64"] mod [of n] by linarith+
  consider "n < 0x80" | "\<not> n < 0x80" "n < 0x800" | "\<not> n < 0x80" "\<not> n < 0x800" by blast
  then show ?thesis
  proof cases
    case 1
    then have "encode_unit u = [?c]" by (simp only: encode_unit_def Let_def lt if_True)
    with 1 show ?thesis by (simp add: unat_byte n)
  next
    case 2
    then have "encode_unit u = [0xc0 OR drop_bit 6 ?c, 0x80 OR (?c AND 0x3f)]"
      by (simp only: encode_unit_def Let_def lt if_True if_False not_False_eq_True)
    with 2 small fit show ?thesis
      by (simp only: list.map unat_byte b2 c1 if_True if_False mod_less)
  next
    case 3
    then have "encode_unit u = [0xe0 OR drop_bit 12 ?c, 0x80 OR (drop_bit 6 ?c AND 0x3f), 0x80 OR (?c AND 0x3f)]"
      by (simp only: encode_unit_def Let_def lt if_True if_False not_False_eq_True)
    with 3 fit show ?thesis
      by (simp only: list.map unat_byte b3 c1 c2 if_True if_False mod_less)
  qed
qed

subsection \<open>The encoder is UTF-8 without surrogate pairs\<close>

lemma utf8_decode_unit:
  fixes u :: unit16
  defines "n \<equiv> unat u"
  shows "utf8_decode (map (\<lambda>w. unat (ucast w :: byte)) (encode_unit u) @ rest) =
    (if surrogate n then None else map_option ((#) n) (utf8_decode rest))"
proof -
  have le: "n < 65536" unfolding n_def by (rule unat_unit_less)
  have digits: "n div 64 * 64 + n mod 64 = n"
    "n div 4096 * 4096 + n div 64 mod 64 * 64 + n mod 64 = n"
  proof -
    show "n div 64 * 64 + n mod 64 = n" by (rule div_mult_mod_eq)
    moreover have "n div 64 = n div 4096 * 64 + n div 64 mod 64"
      using div_mult_mod_eq [of "n div 64" 64] by (simp add: div_mult2_eq [of n 64 64, simplified])
    ultimately show "n div 4096 * 4096 + n div 64 mod 64 * 64 + n mod 64 = n" by linarith
  qed
  have cont: "is_cont (0x80 + x mod 64)" for x by (simp add: is_cont_def)
  have bytes: "map (\<lambda>w. unat (ucast w :: byte)) (encode_unit u) =
    (if n < 0x80 then [n] else if n < 0x800 then [0xc0 + n div 64, 0x80 + n mod 64]
     else [0xe0 + n div 4096, 0x80 + n div 64 mod 64, 0x80 + n mod 64])"
    unfolding n_def by (rule encode_unit_bytes)
  consider "n < 0x80" | "0x80 \<le> n" "n < 0x800" | "0x800 \<le> n" by linarith
  then show ?thesis
  proof cases
    case 1
    then show ?thesis unfolding bytes by (simp add: surrogate_def)
  next
    case 2
    then have "2 \<le> n div 64" "n div 64 < 32" by (simp_all add: less_eq_div_iff_mult_less_eq div_less_iff_less_mult)
    with 2 digits(1) cont [of n] show ?thesis unfolding bytes by (simp add: surrogate_def)
  next
    case 3
    then have "n div 4096 < 16" using le by (simp add: div_less_iff_less_mult)
    with 3 digits(2) cont [of n] cont [of "n div 64"] show ?thesis unfolding bytes by (simp add: Let_def)
  qed
qed

lemma unat_encode:
  "map unat (encoder_encode s) = concat (map (\<lambda>u. map (\<lambda>w. unat (ucast w :: byte)) (encode_unit u)) s)"
  by (induction s) (simp_all add: encoder_encode_def)

text \<open>
  Claim C27. The encoder against UTF-8: a strict decoder reads the bytes back as the string when
  the string has no surrogate, and rejects them when it has one. Characters outside the basic
  plane, which JavaScript writes as surrogate pairs, are therefore encoded wrongly, and every
  other string correctly.
\<close>

theorem encoder_is_utf8:
  "utf8_decode (map unat (encoder_encode s)) =
     (if list_ex (\<lambda>u. surrogate (unat u)) s then None else Some (map unat s))"
proof (induction s)
  case Nil
  then show ?case by (simp add: encoder_encode_def)
next
  case (Cons u s)
  have "utf8_decode (map unat (encoder_encode (u # s))) =
      (if surrogate (unat u) then None else map_option ((#) (unat u)) (utf8_decode (map unat (encoder_encode s))))"
    unfolding unat_encode by (simp add: utf8_decode_unit)
  with Cons show ?case by simp
qed

subsection \<open>The decoder inverts the encoder on ASCII only\<close>

lemma length_encode_unit: "1 \<le> length (encode_unit u)"
  and length_encode_unit_1: "length (encode_unit u) = 1 \<longleftrightarrow> unat u < 0x80"
proof -
  have "(ucast u :: 32 word) < 0x80 \<longleftrightarrow> unat u < 0x80"
    by (simp add: word_less_nat_alt unat_ucast_unit)
  then show "1 \<le> length (encode_unit u)" "length (encode_unit u) = 1 \<longleftrightarrow> unat u < 0x80"
    by (simp_all add: encode_unit_def Let_def)
qed

lemma length_encode_ge: "length s \<le> length (concat (map encode_unit s))"
proof (induction s)
  case (Cons u s)
  from add_mono [OF length_encode_unit [of u] Cons.IH] show ?case by simp
qed simp

lemma length_encode_eq:
  "length (concat (map encode_unit s)) = length s \<Longrightarrow> \<forall>u \<in> set s. unat u < 0x80"
proof (induction s)
  case (Cons u s)
  have "length (encode_unit u) = 1" and "length (concat (map encode_unit s)) = length s"
    using Cons.prems length_encode_unit [of u] length_encode_ge [of s] by auto
  with Cons.IH length_encode_unit_1 [of u] show ?case by simp
qed simp

text \<open>
  Round trip: decoding what was encoded gives the string back exactly when the string
  is ASCII; the decoder maps every byte to one character, so that any other string comes back
  longer.
\<close>

theorem decode_encode_ascii:
  "decoder_decode (encoder_encode s) = s \<longleftrightarrow> (\<forall>u \<in> set s. u < 0x80)"
proof
  assume "decoder_decode (encoder_encode s) = s"
  then have "length (concat (map encode_unit s)) = length s"
    unfolding decoder_decode_def encoder_encode_def by (metis length_map)
  from length_encode_eq [OF this] show "\<forall>u \<in> set s. u < 0x80" by (simp add: word_less_nat_alt)
next
  assume "\<forall>u \<in> set s. u < 0x80"
  then show "decoder_decode (encoder_encode s) = s"
  proof (induction s)
    case Nil
    then show ?case by (simp add: decoder_decode_def encoder_encode_def)
  next
    case (Cons u s)
    have u: "unat u < 0x80" using Cons.prems by (simp add: word_less_nat_alt)
    then have "encode_unit u = [ucast u]"
      by (simp add: encode_unit_def Let_def word_less_nat_alt unat_ucast_unit)
    moreover have "(ucast (ucast (ucast u :: 32 word) :: byte) :: unit16) = u"
    proof (rule word_unat_eq_iff [THEN iffD2])
      have "unat (ucast b :: unit16) = unat b mod 65536" for b :: byte
        by (simp add: unsigned_ucast_eq take_bit_eq_mod)
      then show "unat (ucast (ucast (ucast u :: 32 word) :: byte) :: unit16) = unat u"
        using u by (simp only: unat_byte unat_ucast_unit) simp
    qed
    ultimately show ?case using Cons by (simp add: decoder_decode_def encoder_encode_def)
  qed
qed

end
