(* ===== verification/Build.thy ===== *)
theory Build
  imports Prelude
begin

text \<open>
  \<open>nsjs/dashboard/build.mjs\<close>: the build script of the dashboard. esbuild, Tailwind and the file
  system are the fields of a record, which give the error with which a call ends, if any; the
  script is the list of its calls and its exit code. The lemma shows what a failure at each
  point leaves behind.
\<close>

subsection \<open>The tools\<close>

record build_options =
  entryPoint :: string
  bundled :: bool
  minify :: bool
  platform :: string
  format :: string
  replacements :: "(string \<times> string) list"
  globalName :: "string option"
  banner :: "string option"
  footer :: "string option"
  outfile :: string

datatype build_call =
    MkdirSync string
  | Esbuild build_options
  | ExecSync string
  | ConsoleLog string
  | ConsoleError string string

record toolchain =
  mkdir_error :: "string \<Rightarrow> string option"
  esbuild_error :: "build_options \<Rightarrow> string option"
  exec_error :: "string \<Rightarrow> string option"

text \<open>The text that precedes the server bundle; its functions are modelled in the theory Polyfill.\<close>

definition v8Polyfill :: string where
  \<open>v8Polyfill = [CHR 0x0A] @
     ''if(typeof globalThis.TextEncoder==="undefined"){globalThis.TextEncoder=class TextEncoder{encode(s){const b=[];for(let i=0;i<s.length;i++){let c=s.charCodeAt(i);if(c<0x80)b.push(c);else if(c<0x800)b.push(0xc0|(c>>6),0x80|(c&0x3f));else b.push(0xe0|(c>>12),0x80|((c>>6)&0x3f),0x80|(c&0x3f));}return new Uint8Array(b);}}}''
     @ [CHR 0x0A] @
     ''if(typeof globalThis.TextDecoder==="undefined"){globalThis.TextDecoder=class TextDecoder{decode(buf){const a=buf instanceof Uint8Array?buf:new Uint8Array(buf);let s="";for(let i=0;i<a.length;i++)s+=String.fromCharCode(a[i]);return s;}}}''
     @ [CHR 0x0A]\<close>

definition node_env :: "(string \<times> string) list" where
  \<open>node_env = [(''process.env.NODE_ENV'', ''"production"'')]\<close>

definition server_options :: build_options where
  "server_options =
     \<lparr>entryPoint = ''src/server-entry.jsx'', bundled = True, minify = True, platform = ''browser'',
      format = ''iife'', replacements = node_env, globalName = Some ''__dashBundle'', banner = Some v8Polyfill,
      footer = Some (''if (typeof __dashBundle !== '' @ [CHR 0x27] @ ''undefined'' @ [CHR 0x27] @
        '') { globalThis.__dashRender = __dashBundle.render; }''),
      outfile = ''dist/server-bundle.js''\<rparr>"

definition client_options :: build_options where
  "client_options =
     \<lparr>entryPoint = ''src/client-entry.jsx'', bundled = True, minify = True, platform = ''browser'',
      format = ''iife'', replacements = node_env, globalName = None, banner = None, footer = None,
      outfile = ''dist/client-bundle.js''\<rparr>"

definition tailwind :: string where
  "tailwind = ''npx tailwindcss -i src/styles.css -o dist/styles.css --minify''"

definition check_mark :: string where
  "check_mark = [CHR 0xE2, CHR 0x9C, CHR 0x93, CHR '' '']"

subsection \<open>The script\<close>

text \<open>The output so far; an uncaught error or an exit ends the script with a code.\<close>

type_synonym build_state = "build_call list"

definition call :: "build_call \<Rightarrow> string option \<Rightarrow> build_state \<Rightarrow> (build_state \<times> string) + build_state" where
  "call c err s = (case err of None \<Rightarrow> Inr (s @ [c]) | Some m \<Rightarrow> Inl (s @ [c], m))"

definition build_css :: "toolchain \<Rightarrow> build_state \<Rightarrow> build_state \<times> nat" where
  "build_css t s =
     (case call (ExecSync tailwind) (exec_error t tailwind) s of
        Inr s \<Rightarrow> (s @ [ConsoleLog (check_mark @ ''dist/styles.css'')], 0)
      | Inl (s, m) \<Rightarrow> (s @ [ConsoleError ''Tailwind CSS build failed:'' m], 1))"

definition build_client :: "toolchain \<Rightarrow> build_state \<Rightarrow> build_state \<times> nat" where
  "build_client t s =
     (case call (Esbuild client_options) (esbuild_error t client_options) s of
        Inr s \<Rightarrow> build_css t (s @ [ConsoleLog (check_mark @ ''dist/client-bundle.js'')])
      | Inl (s, m) \<Rightarrow> (s, 1))"

definition build_server :: "toolchain \<Rightarrow> build_state \<Rightarrow> build_state \<times> nat" where
  "build_server t s =
     (case call (Esbuild server_options) (esbuild_error t server_options) s of
        Inr s \<Rightarrow> build_client t (s @ [ConsoleLog (check_mark @ ''dist/server-bundle.js'')])
      | Inl (s, m) \<Rightarrow> (s, 1))"

definition build :: "toolchain \<Rightarrow> build_state \<times> nat" where
  "build t =
     (case call (MkdirSync ''dist'') (mkdir_error t ''dist'') [] of
        Inr s \<Rightarrow> build_server t s
      | Inl (s, m) \<Rightarrow> (s, 1))"

subsection \<open>Errors\<close>

definition complete_build :: "build_call list" where
  "complete_build =
     [MkdirSync ''dist'',
      Esbuild server_options, ConsoleLog (check_mark @ ''dist/server-bundle.js''),
      Esbuild client_options, ConsoleLog (check_mark @ ''dist/client-bundle.js''),
      ExecSync tailwind, ConsoleLog (check_mark @ ''dist/styles.css'')]"

text \<open>The error of a call.\<close>

definition call_error :: "toolchain \<Rightarrow> build_call \<Rightarrow> string option" where
  "call_error t c = (case c of
       MkdirSync d \<Rightarrow> mkdir_error t d
     | Esbuild opts \<Rightarrow> esbuild_error t opts
     | ExecSync cmd \<Rightarrow> exec_error t cmd
     | _ \<Rightarrow> None)"

text \<open>The calls up to the first that fails.\<close>

fun until_error :: "toolchain \<Rightarrow> build_call list \<Rightarrow> build_call list" where
  "until_error t [] = []"
| "until_error t (c # cs) = (if call_error t c = None then c # until_error t cs else [c])"

lemmas build_defs = build_def build_server_def build_client_def build_css_def call_def

text \<open>
  Claim C39. The build stops at the first error: the calls are those of the complete build up to
  the first that fails; the exit code is 0 exactly when none fails; a failure of Tailwind, and
  no other, is reported by the script itself.
\<close>

theorem build_stops_at_error:
  "filter (\<lambda>c. \<not> (\<exists>a m. c = ConsoleError a m)) (fst (build t)) = until_error t complete_build \<and>
   (snd (build t) = 0 \<longleftrightarrow> list_all (\<lambda>c. call_error t c = None) complete_build) \<and>
   (ConsoleError a m \<in> set (fst (build t)) \<longleftrightarrow>
      a = ''Tailwind CSS build failed:'' \<and> exec_error t tailwind = Some m \<and>
      mkdir_error t ''dist'' = None \<and> esbuild_error t server_options = None \<and> esbuild_error t client_options = None)"
proof (cases "mkdir_error t ''dist''")
  case None
  note mkdir = this
  show ?thesis
  proof (cases "esbuild_error t server_options")
    case None
    note server = this
    show ?thesis
    proof (cases "esbuild_error t client_options")
      case None
      with mkdir server show ?thesis
        by (cases "exec_error t tailwind") (auto simp: build_defs complete_build_def call_error_def)
    qed (use mkdir server in \<open>simp add: build_defs complete_build_def call_error_def\<close>)
  qed (use mkdir in \<open>simp add: build_defs complete_build_def call_error_def\<close>)
qed (simp add: build_defs complete_build_def call_error_def)

end
