(* ===== verification/Theme.thy ===== *)
theory Theme
  imports JsAdp
begin

text \<open>
  \<open>dashboard/tailwind.config.js\<close>: the colours that the configuration gives to Tailwind, each a
  reference to a variable of the style sheet \<open>dashboard/src/styles.css\<close>. The lemmas resolve every
  colour in both themes of the style sheet.
\<close>

subsection \<open>The configuration\<close>

definition config_content :: "string list" where
  "config_content = [''./src/**/*.{js,jsx}'']"

definition theme_colors :: "(string \<times> string) list" where
  "theme_colors =
     [(''background'', ''hsl(var(--background))''),
      (''foreground'', ''hsl(var(--foreground))''),
      (''card'', ''hsl(var(--card))''),
      (''card-foreground'', ''hsl(var(--card-foreground))''),
      (''border'', ''hsl(var(--border))''),
      (''muted'', ''hsl(var(--muted))''),
      (''muted-foreground'', ''hsl(var(--muted-foreground))''),
      (''primary'', ''hsl(var(--primary))''),
      (''primary-foreground'', ''hsl(var(--primary-foreground))''),
      (''secondary'', ''hsl(var(--secondary))''),
      (''secondary-foreground'', ''hsl(var(--secondary-foreground))''),
      (''accent'', ''hsl(var(--accent))''),
      (''accent-foreground'', ''hsl(var(--accent-foreground))''),
      (''destructive'', ''hsl(var(--destructive))''),
      (''destructive-foreground'', ''hsl(var(--destructive-foreground))'')]"

subsection \<open>The variables of the style sheet\<close>

text \<open>The declarations of \<open>:root\<close>, and those that \<open>.dark\<close> puts over them.\<close>

definition root_variables :: "(string \<times> string) list" where
  "root_variables =
     [(''--background'', ''0 0% 100%''), (''--foreground'', ''222.2 84% 4.9%''),
      (''--card'', ''0 0% 100%''), (''--card-foreground'', ''222.2 84% 4.9%''),
      (''--popover'', ''0 0% 100%''), (''--popover-foreground'', ''222.2 84% 4.9%''),
      (''--primary'', ''222.2 47.4% 11.2%''), (''--primary-foreground'', ''210 40% 98%''),
      (''--secondary'', ''210 40% 96.1%''), (''--secondary-foreground'', ''222.2 47.4% 11.2%''),
      (''--muted'', ''210 40% 96.1%''), (''--muted-foreground'', ''215.4 16.3% 46.9%''),
      (''--accent'', ''210 40% 96.1%''), (''--accent-foreground'', ''222.2 47.4% 11.2%''),
      (''--destructive'', ''0 84.2% 60.2%''), (''--destructive-foreground'', ''210 40% 98%''),
      (''--border'', ''214.3 31.8% 91.4%''), (''--input'', ''214.3 31.8% 91.4%''),
      (''--ring'', ''222.2 84% 4.9%''), (''--radius'', ''0.5rem'')]"

definition dark_variables :: "(string \<times> string) list" where
  "dark_variables =
     [(''--background'', ''222.2 84% 4.9%''), (''--foreground'', ''210 40% 98%''),
      (''--card'', ''222.2 84% 4.9%''), (''--card-foreground'', ''210 40% 98%''),
      (''--primary'', ''210 40% 98%''), (''--primary-foreground'', ''222.2 47.4% 11.2%''),
      (''--secondary'', ''217.2 32.6% 17.5%''), (''--secondary-foreground'', ''210 40% 98%''),
      (''--muted'', ''217.2 32.6% 17.5%''), (''--muted-foreground'', ''215 20.2% 65.1%''),
      (''--accent'', ''217.2 32.6% 17.5%''), (''--accent-foreground'', ''210 40% 98%''),
      (''--destructive'', ''0 62.8% 30.6%''), (''--destructive-foreground'', ''210 40% 98%''),
      (''--border'', ''217.2 32.6% 17.5%'')]"

subsection \<open>Resolution\<close>

text \<open>A colour \<open>hsl(var(--x))\<close> with the variables of a theme.\<close>

definition css_color :: "(string \<times> string) list \<Rightarrow> string \<Rightarrow> string option" where
  "css_color vars c = (case string_find c ''hsl(var('' 0 of
       Some 0 \<Rightarrow>
         (case string_find c ''))'' 8 of
            None \<Rightarrow> None
          | Some j \<Rightarrow> map_option (\<lambda>v. ''hsl('' @ v @ '')'') (map_of vars (substr c 8 (j - 8))))
     | _ \<Rightarrow> None)"

definition theme_color :: "(string \<times> string) list \<Rightarrow> string \<Rightarrow> string option" where
  "theme_color vars name = Option.bind (map_of theme_colors name) (css_color vars)"

text \<open>
  Every colour of the configuration has a value in both themes, and the dark theme leaves none
  of them to the light one.
\<close>

lemma themes_complete:
  "list_all (\<lambda>(name, _). theme_color root_variables name \<noteq> None \<and> theme_color dark_variables name \<noteq> None) theme_colors"
  by code_simp

text \<open>Foreground and background of each pair differ in both themes.\<close>

lemma foreground_visible:
  "list_all (\<lambda>vars. list_all (\<lambda>name. theme_color vars name \<noteq> theme_color vars (name @ ''-foreground''))
     [''card'', ''muted'', ''primary'', ''secondary'', ''accent'', ''destructive'']) [root_variables, dark_variables]"
  by code_simp

end
