(* ===== verification/HostCache.thy ===== *)
theory HostCache
  imports SharedStore "HOL-Library.Word"
begin

text \<open>
  The named caches \<open>ns.cache\<close> of \<open>nsjs/nsjs.cc\<close>, which the threads of the server share, over the
  caches of \<open>nsd/cache.c\<close>: a hash table whose entries are chained from the most to the least
  recently used one, with a limit on the sum of their sizes. Each call holds the lock of the cache,
  so that it is one step. The lemmas show that a cache never answers with an old value, that what
  it keeps are the most recently used entries that fit, and how its counters relate to its entries.
\<close>

subsection \<open>The caches of the web server\<close>

text \<open>
  An entry, and a cache with its entries in the order of the chain. Sizes are of type \<open>size_t\<close>.
  \<open>c_strings\<close> is the number of copies of values that are allocated and not freed; JavaScript's
  caches have no procedure to free a value, and no timeout.
\<close>

record cache_entry =
  e_key :: string
  e_value :: "string option"
  e_size :: "64 word"

record ns_cache =
  c_entries :: "cache_entry list"
  c_max :: "64 word"
  c_current :: "64 word"
  c_hits :: "32 word"
  c_misses :: "32 word"
  c_flushed :: "32 word"
  c_strings :: nat

definition entry_at :: "string \<Rightarrow> ns_cache \<Rightarrow> cache_entry option" where
  "entry_at k c = find (\<lambda>e. e_key e = k) (c_entries c)"

text \<open>\<open>Delink\<close> and \<open>Push\<close>: the chain without an entry, and with an entry at its head.\<close>

definition delink :: "string \<Rightarrow> ns_cache \<Rightarrow> ns_cache" where
  "delink k c = c\<lparr>c_entries := filter (\<lambda>e. e_key e \<noteq> k) (c_entries c)\<rparr>"

definition push :: "cache_entry \<Rightarrow> ns_cache \<Rightarrow> ns_cache" where
  "push e c = c\<lparr>c_entries := e # c_entries c\<rparr>"

definition update_entry :: "cache_entry \<Rightarrow> ns_cache \<Rightarrow> ns_cache" where
  "update_entry e c = c\<lparr>c_entries := map (\<lambda>x. if e_key x = e_key e then e else x) (c_entries c)\<rparr>"

definition CacheCreate :: "64 word \<Rightarrow> ns_cache" where
  "CacheCreate maxSize = \<lparr>c_entries = [], c_max = maxSize, c_current = 0,
     c_hits = 0, c_misses = 0, c_flushed = 0, c_strings = 0\<rparr>"

definition Ns_CacheFindEntry :: "string \<Rightarrow> ns_cache \<Rightarrow> cache_entry option \<times> ns_cache" where
  "Ns_CacheFindEntry k c = (case entry_at k c of
       None \<Rightarrow> (None, c\<lparr>c_misses := c_misses c + 1\<rparr>)
     | Some e \<Rightarrow> (Some e, push e (delink k (c\<lparr>c_hits := c_hits c + 1\<rparr>))))"

text \<open>The entry at the head of the chain afterwards, and whether it is new.\<close>

definition Ns_CacheCreateEntry :: "string \<Rightarrow> ns_cache \<Rightarrow> cache_entry \<times> bool \<times> ns_cache" where
  "Ns_CacheCreateEntry k c = (case entry_at k c of
       Some e \<Rightarrow> (e, False, push e ((delink k c)\<lparr>c_hits := c_hits c + 1\<rparr>))
     | None \<Rightarrow>
         (let e = \<lparr>e_key = k, e_value = None, e_size = 0\<rparr>
          in (e, True, push e (c\<lparr>c_misses := c_misses c + 1\<rparr>))))"

definition Ns_CacheUnsetValue :: "string \<Rightarrow> ns_cache \<Rightarrow> ns_cache" where
  "Ns_CacheUnsetValue k c = (case entry_at k c of
       None \<Rightarrow> c
     | Some e \<Rightarrow>
         if e_value e \<noteq> None
         then update_entry (e\<lparr>e_value := None, e_size := 0\<rparr>) (c\<lparr>c_current := c_current c - e_size e\<rparr>)
         else c)"

definition Ns_CacheDeleteEntry :: "string \<Rightarrow> ns_cache \<Rightarrow> ns_cache" where
  "Ns_CacheDeleteEntry k c = delink k c"

definition Ns_CacheFlushEntry :: "string \<Rightarrow> ns_cache \<Rightarrow> ns_cache" where
  "Ns_CacheFlushEntry k c =
     Ns_CacheDeleteEntry k (Ns_CacheUnsetValue k (c\<lparr>c_flushed := c_flushed c + 1\<rparr>))"

text \<open>
  The loop that prunes the cache from the end of the chain. The chain has at least the entry that
  has just been set, at which the loop ends.
\<close>

function prune :: "string \<Rightarrow> ns_cache \<Rightarrow> ns_cache" where
  "prune k c =
     (if c_max c < c_current c \<and> c_entries c \<noteq> [] \<and> e_key (last (c_entries c)) \<noteq> k
      then prune k (Ns_CacheFlushEntry (e_key (last (c_entries c))) c)
      else c)"
  by pat_completeness auto

lemma entries_UnsetValue:
  "map e_key (c_entries (Ns_CacheUnsetValue k c)) = map e_key (c_entries c)"
  by (auto simp: Ns_CacheUnsetValue_def update_entry_def entry_at_def find_Some_iff split: option.splits)

lemma filter_keys:
  "map e_key xs = map e_key ys \<Longrightarrow> length (filter (\<lambda>e. e_key e \<noteq> k) xs) = length (filter (\<lambda>e. e_key e \<noteq> k) ys)"
proof (induction xs arbitrary: ys)
  case (Cons x xs)
  then show ?case by (cases ys) auto
qed simp

lemma FlushEntry_shrinks:
  assumes "c_entries c \<noteq> []"
  shows "length (c_entries (Ns_CacheFlushEntry (e_key (last (c_entries c))) c)) < length (c_entries c)"
proof -
  let ?k = "e_key (last (c_entries c))"
  have "length (filter (\<lambda>e. e_key e \<noteq> ?k) (c_entries c)) < length (c_entries c)"
    using assms by (intro length_filter_less [of "last (c_entries c)"]) auto
  then show ?thesis
    using filter_keys [OF entries_UnsetValue [of ?k "c\<lparr>c_flushed := c_flushed c + 1\<rparr>"], of ?k]
    by (simp add: Ns_CacheFlushEntry_def Ns_CacheDeleteEntry_def delink_def)
qed

termination prune
  by (relation "measure (\<lambda>(k, c). length (c_entries c))") (auto simp: FlushEntry_shrinks)

declare prune.simps [simp del]

definition Ns_CacheSetValueSz :: "string \<Rightarrow> string \<Rightarrow> 64 word \<Rightarrow> ns_cache \<Rightarrow> ns_cache" where
  "Ns_CacheSetValueSz k v sz c =
     (let c1 = Ns_CacheUnsetValue k c;
          c2 = update_entry \<lparr>e_key = k, e_value = Some v, e_size = sz\<rparr> c1;
          c3 = c2\<lparr>c_current := c_current c2 + sz\<rparr>
      in if 0 < c_max c3 then prune k c3 else c3)"

text \<open>Every entry is flushed; the order of the hash table does not matter.\<close>

definition Ns_CacheFlush :: "ns_cache \<Rightarrow> ns_cache" where
  "Ns_CacheFlush c = fold (\<lambda>e. Ns_CacheFlushEntry (e_key e)) (c_entries c) c"

subsection \<open>The calls of JavaScript\<close>

text \<open>What each call does while it holds the lock of the cache.\<close>

definition cache_get :: "string \<Rightarrow> ns_cache \<Rightarrow> string option \<times> ns_cache" where
  "cache_get key c =
     (let (entry, c') = Ns_CacheFindEntry (c_str key) c
      in (case entry of None \<Rightarrow> None | Some e \<Rightarrow> e_value e, c'))"

definition cache_set :: "string \<Rightarrow> string \<Rightarrow> ns_cache \<Rightarrow> ns_cache" where
  "cache_set key value c =
     (let (e, new, c1) = Ns_CacheCreateEntry (c_str key) c;
          c2 = (if \<not> new \<and> e_value e \<noteq> None then c1\<lparr>c_strings := c_strings c1 - 1\<rparr> else c1);
          c3 = c2\<lparr>c_strings := c_strings c2 + 1\<rparr>
      in Ns_CacheSetValueSz (c_str key) (c_str value) (of_nat (length value + 1)) c3)"

definition cache_unset :: "string \<Rightarrow> ns_cache \<Rightarrow> ns_cache" where
  "cache_unset key c =
     (case Ns_CacheFindEntry (c_str key) c of
        (None, c1) \<Rightarrow> c1
      | (Some e, c1) \<Rightarrow>
          Ns_CacheDeleteEntry (c_str key)
            (if e_value e \<noteq> None then c1\<lparr>c_strings := c_strings c1 - 1\<rparr> else c1))"

definition cache_flush :: "ns_cache \<Rightarrow> ns_cache" where
  "cache_flush c =
     Ns_CacheFlush (c\<lparr>c_strings := c_strings c - length (filter (\<lambda>e. e_value e \<noteq> None) (c_entries c))\<rparr>)"

text \<open>
  The caches of the process by name. A call takes the texts of its arguments; a call with too few
  arguments, or on a cache that nobody created, has no effect and answers null, which is None.
\<close>

type_synonym js_caches = "string \<rightharpoonup> ns_cache"

definition JsCacheCreate :: "string list \<Rightarrow> 64 word \<Rightarrow> js_caches \<Rightarrow> js_caches" where
  "JsCacheCreate args maxSize cs = (case args of
       name # _ # _ \<Rightarrow> if cs name = None then cs(name \<mapsto> CacheCreate maxSize) else cs
     | _ \<Rightarrow> cs)"

definition JsCacheGet :: "string list \<Rightarrow> js_caches \<Rightarrow> string option \<times> js_caches" where
  "JsCacheGet args cs = (case args of
       name # key # _ \<Rightarrow>
         (case cs name of
            None \<Rightarrow> (None, cs)
          | Some c \<Rightarrow> (let (result, c') = cache_get key c in (result, cs(name \<mapsto> c'))))
     | _ \<Rightarrow> (None, cs))"

definition JsCacheSet :: "string list \<Rightarrow> js_caches \<Rightarrow> js_caches" where
  "JsCacheSet args cs = (case args of
       name # key # value # _ \<Rightarrow>
         (case cs name of None \<Rightarrow> cs | Some c \<Rightarrow> cs(name \<mapsto> cache_set key value c))
     | _ \<Rightarrow> cs)"

definition JsCacheUnset :: "string list \<Rightarrow> js_caches \<Rightarrow> js_caches" where
  "JsCacheUnset args cs = (case args of
       name # key # _ \<Rightarrow> (case cs name of None \<Rightarrow> cs | Some c \<Rightarrow> cs(name \<mapsto> cache_unset key c))
     | _ \<Rightarrow> cs)"

definition JsCacheFlush :: "string list \<Rightarrow> js_caches \<Rightarrow> js_caches" where
  "JsCacheFlush args cs = (case args of
       name # _ \<Rightarrow> (case cs name of None \<Rightarrow> cs | Some c \<Rightarrow> cs(name \<mapsto> cache_flush c))
     | _ \<Rightarrow> cs)"

text \<open>The number of entries in the answer; its name is the argument.\<close>

definition JsCacheStats :: "string list \<Rightarrow> js_caches \<Rightarrow> nat option" where
  "JsCacheStats args cs = (case args of
       name # _ \<Rightarrow> map_option (\<lambda>c. length (c_entries c)) (cs name)
     | _ \<Rightarrow> None)"


subsection \<open>What the operations do to a well-formed cache\<close>

text \<open>Between two calls the keys are distinct and every entry has a value.\<close>

definition wf_cache :: "ns_cache \<Rightarrow> bool" where
  "wf_cache c \<longleftrightarrow> distinct (map e_key (c_entries c)) \<and> (\<forall>e \<in> set (c_entries c). e_value e \<noteq> None)"

definition others :: "string \<Rightarrow> ns_cache \<Rightarrow> cache_entry list" where
  "others k c = filter (\<lambda>e. e_key e \<noteq> k) (c_entries c)"

definition used_bytes :: "ns_cache \<Rightarrow> 64 word" where
  "used_bytes c = sum_list (map e_size (c_entries c))"

definition cache_text :: "ns_cache \<Rightarrow> string \<rightharpoonup> string" where
  "cache_text c k = (case entry_at k c of None \<Rightarrow> None | Some e \<Rightarrow> e_value e)"

named_theorems cache_ops \<open>the operations of \<open>nsd/cache.c\<close> and their parts\<close>

lemmas [cache_ops] = delink_def push_def update_entry_def Ns_CacheFindEntry_def Ns_CacheCreateEntry_def
  Ns_CacheUnsetValue_def Ns_CacheDeleteEntry_def Ns_CacheFlushEntry_def Ns_CacheSetValueSz_def
  cache_get_def cache_set_def cache_unset_def

lemma entry_at_None: "entry_at k c = None \<longleftrightarrow> k \<notin> e_key ` set (c_entries c)"
  by (auto simp: entry_at_def find_None_iff)

lemma entry_at_Some:
  assumes "wf_cache c"
  shows "entry_at k c = Some e \<longleftrightarrow> e \<in> set (c_entries c) \<and> e_key e = k"
proof
  assume "entry_at k c = Some e"
  then show "e \<in> set (c_entries c) \<and> e_key e = k" by (auto simp: entry_at_def find_Some_iff)
next
  assume *: "e \<in> set (c_entries c) \<and> e_key e = k"
  then obtain d where d: "entry_at k c = Some d" using entry_at_None [of k c] by force
  then have "d \<in> set (c_entries c)" "e_key d = k" by (auto simp: entry_at_def find_Some_iff)
  with * assms have "d = e" by (auto simp: wf_cache_def distinct_map dest: inj_onD)
  with d show "entry_at k c = Some e" by simp
qed

lemma others_absent: "entry_at k c = None \<Longrightarrow> others k c = c_entries c"
  by (auto simp: entry_at_None others_def filter_id_conv)

lemma others_update:
  "filter (\<lambda>e. e_key e \<noteq> k) (map (\<lambda>x. if e_key x = k then e else x) es) = filter (\<lambda>e. e_key e \<noteq> k) es"
  if "e_key e = k"
  using that by (induction es) auto

lemma map_others: "map (\<lambda>x. if e_key x = k then e else x) (filter (\<lambda>x. e_key x \<noteq> k) es) = filter (\<lambda>x. e_key x \<noteq> k) es"
  by (induction es) auto

lemma sum_others:
  fixes f :: "cache_entry \<Rightarrow> 'a :: comm_monoid_add"
  assumes "wf_cache c" "entry_at k c = Some e"
  shows "sum_list (map f (c_entries c)) = f e + sum_list (map f (others k c))"
proof -
  have "sum_list (map f es) = f e + sum_list (map f (filter (\<lambda>x. e_key x \<noteq> e_key e) es))"
    if "distinct (map e_key es)" "e \<in> set es" for es
    using that
  proof (induction es)
    case (Cons x es)
    show ?case
    proof (cases "x = e")
      case True
      with Cons.prems have "filter (\<lambda>x. e_key x \<noteq> e_key e) es = es" by (auto simp: filter_id_conv image_iff)
      with True show ?thesis by simp
    next
      case False
      with Cons show ?thesis by (auto simp: add_ac)
    qed
  qed simp
  with assms show ?thesis by (auto simp: others_def wf_cache_def entry_at_Some)
qed

lemma used_others:
  "wf_cache c \<Longrightarrow> entry_at k c = Some e \<Longrightarrow> used_bytes c = e_size e + sum_list (map e_size (others k c))"
  unfolding used_bytes_def by (rule sum_others)

lemma FlushEntry_wf:
  assumes "wf_cache c" "entry_at k c = Some e"
  shows "Ns_CacheFlushEntry k c = c\<lparr>c_entries := others k c, c_current := c_current c - e_size e,
    c_flushed := c_flushed c + 1\<rparr>"
proof -
  have at: "entry_at k (c\<lparr>c_flushed := c_flushed c + 1\<rparr>) = Some e"
    using assms(2) by (simp add: entry_at_def)
  moreover have "e_value e \<noteq> None" "e_key e = k"
    using assms by (auto simp: entry_at_Some wf_cache_def)
  ultimately show ?thesis
    by (simp add: Ns_CacheFlushEntry_def Ns_CacheDeleteEntry_def Ns_CacheUnsetValue_def delink_def
      update_entry_def others_def others_update)
qed


text \<open>The bytes that the counter of the cache has beyond its entries.\<close>

definition lost_bytes :: "ns_cache \<Rightarrow> 64 word" where
  "lost_bytes c = c_current c - used_bytes c"

lemma prune_step:
  assumes "wf_cache c" "c_entries c = es @ [d]" "c_max c < c_current c" "e_key d \<noteq> k"
  shows "prune k c = prune k (c\<lparr>c_entries := es, c_current := c_current c - e_size d, c_flushed := c_flushed c + 1\<rparr>)"
proof -
  have "entry_at (e_key d) c = Some d" using assms(1,2) by (simp add: entry_at_Some)
  moreover have "others (e_key d) c = es"
    using assms(1,2) by (auto simp: others_def wf_cache_def filter_id_conv image_iff)
  ultimately show ?thesis
    using assms by (subst prune.simps) (simp add: FlushEntry_wf)
qed

lemma prune_stops:
  "c_current c \<le> c_max c \<or> c_entries c = [e] \<and> e_key e = k \<Longrightarrow> prune k c = c"
  by (subst prune.simps) auto

text \<open>
  The pruning keeps a prefix of the chain with the entry at its head, adjusts the counter, and
  leaves a cache that is small enough or has a single entry.
\<close>

lemma prune_prefix:
  assumes "wf_cache c" "c_entries c = e # es" "e_key e = k"
  shows "\<exists>ds fs. es = ds @ fs \<and> prune k c = c\<lparr>c_entries := e # ds,
    c_current := c_current c - sum_list (map e_size fs), c_flushed := c_flushed c + of_nat (length fs)\<rparr> \<and>
    (ds = [] \<or> c_current (prune k c) \<le> c_max c) \<and>
    (fs = [] \<or> c_max c < c_current (prune k c) + e_size (hd fs))"
  using assms
proof (induction es arbitrary: c rule: rev_induct)
  case Nil
  then have "prune k c = c" by (simp add: prune_stops [of c e])
  with Nil show ?case by (cases c) simp
next
  case (snoc d es)
  show ?case
  proof (cases "c_current c \<le> c_max c")
    case True
    then show ?thesis using snoc.prems by (intro exI [of _ "es @ [d]"] exI [of _ "[]"]) (cases c; simp add: prune_stops)
  next
    case False
    let ?c = "c\<lparr>c_entries := e # es, c_current := c_current c - e_size d, c_flushed := c_flushed c + 1\<rparr>"
    have p: "prune k c = prune k ?c"
      using snoc.prems False by (intro prune_step [of c "e # es"]) (auto simp: wf_cache_def)
    have wf: "wf_cache ?c" using snoc.prems by (auto simp: wf_cache_def)
    have "c_entries ?c = e # es" by simp
    then obtain ds fs where *: "es = ds @ fs"
      "prune k ?c = ?c\<lparr>c_entries := e # ds, c_current := c_current ?c - sum_list (map e_size fs),
         c_flushed := c_flushed ?c + of_nat (length fs)\<rparr>"
      "ds = [] \<or> c_current (prune k ?c) \<le> c_max ?c"
      "fs = [] \<or> c_max ?c < c_current (prune k ?c) + e_size (hd fs)"
      using snoc.IH [OF wf _ snoc.prems(3)] by blast
    show ?thesis
      using * p False
      by (intro exI [of _ ds] exI [of _ "fs @ [d]"]) (cases fs; auto simp: algebra_simps)
  qed
qed


lemma prune_lost:
  assumes "wf_cache c" "c_entries c = e # es" "e_key e = k"
  shows "lost_bytes (prune k c) = lost_bytes c"
proof -
  obtain ds fs where "es = ds @ fs" "prune k c = c\<lparr>c_entries := e # ds,
      c_current := c_current c - sum_list (map e_size fs), c_flushed := c_flushed c + of_nat (length fs)\<rparr>"
    using prune_prefix [OF assms] by blast
  with assms(2) show ?thesis by (simp add: lost_bytes_def used_bytes_def)
qed

subsubsection \<open>Setting a value\<close>

text \<open>The entry that a call makes, and the cache before it is pruned.\<close>

definition new_entry :: "string \<Rightarrow> string \<Rightarrow> cache_entry" where
  "new_entry key value = \<lparr>e_key = c_str key, e_value = Some (c_str value), e_size = of_nat (length value + 1)\<rparr>"

definition unpruned :: "string \<Rightarrow> string \<Rightarrow> ns_cache \<Rightarrow> ns_cache" where
  "unpruned key value c = (case entry_at (c_str key) c of
       None \<Rightarrow> c\<lparr>c_entries := new_entry key value # c_entries c,
         c_current := c_current c + e_size (new_entry key value),
         c_misses := c_misses c + 1, c_strings := c_strings c + 1\<rparr>
     | Some e \<Rightarrow> c\<lparr>c_entries := new_entry key value # others (c_str key) c,
         c_current := c_current c - e_size e + e_size (new_entry key value),
         c_hits := c_hits c + 1, c_strings := c_strings c - 1 + 1\<rparr>)"

lemma entry_at_head: "e_key e = k \<Longrightarrow> entry_at k (c\<lparr>c_entries := e # es\<rparr>) = Some e"
  by (simp add: entry_at_def)

lemma map_no_key: "k \<notin> e_key ` set es \<Longrightarrow> map (\<lambda>x. if e_key x = k then e else x) es = es"
  by (induction es) auto

lemma cache_set_unpruned:
  assumes "wf_cache c"
  shows "cache_set key value c =
    (let c' = unpruned key value c in if 0 < c_max c' then prune (c_str key) c' else c')"
proof (cases "entry_at (c_str key) c")
  case None
  then have "c_str key \<notin> e_key ` set (c_entries c)" by (simp add: entry_at_None)
  with None show ?thesis
    by (cases c) (simp add: cache_set_def Ns_CacheCreateEntry_def Ns_CacheSetValueSz_def Ns_CacheUnsetValue_def
      push_def entry_at_def update_entry_def unpruned_def new_entry_def map_no_key Let_def)
next
  case (Some e)
  then have e: "e_key e = c_str key" "e_value e \<noteq> None"
    using assms by (auto simp: entry_at_Some wf_cache_def)
  with Some show ?thesis
    by (cases c) (simp add: cache_set_def Ns_CacheCreateEntry_def Ns_CacheSetValueSz_def Ns_CacheUnsetValue_def
      push_def delink_def entry_at_def update_entry_def unpruned_def new_entry_def map_others others_def Let_def)
qed

lemma wf_others: "wf_cache c \<Longrightarrow> distinct (map e_key (others k c)) \<and> (\<forall>e \<in> set (others k c). e_value e \<noteq> None)"
  by (auto simp: wf_cache_def others_def distinct_map_filter)

lemma unpruned_entries: "c_entries (unpruned key value c) = new_entry key value # others (c_str key) c"
  by (auto simp: unpruned_def others_absent split: option.splits)

lemma new_entry_key [simp]: "e_key (new_entry key value) = c_str key"
  and new_entry_value [simp]: "e_value (new_entry key value) = Some (c_str value)"
  by (simp_all add: new_entry_def)

lemma wf_unpruned: "wf_cache c \<Longrightarrow> wf_cache (unpruned key value c)"
  using wf_others [of c "c_str key"] by (auto simp: wf_cache_def unpruned_entries others_def)

lemma lost_unpruned: "wf_cache c \<Longrightarrow> lost_bytes (unpruned key value c) = lost_bytes c"
  by (auto simp: lost_bytes_def unpruned_def used_others others_absent split: option.splits)
    (simp_all add: used_bytes_def)

lemma max_unpruned [simp]: "c_max (unpruned key value c) = c_max c"
  by (simp add: unpruned_def split: option.splits)

text \<open>
  After a call the cache holds the new entry, then a prefix of the other entries in their order;
  the bytes lost are those lost before.
\<close>

lemma cache_set_cases:
  assumes "wf_cache c"
  obtains ds fs where "others (c_str key) c = ds @ fs"
    "c_entries (cache_set key value c) = new_entry key value # ds"
    "c_max (cache_set key value c) = c_max c"
    "lost_bytes (cache_set key value c) = lost_bytes c"
    "c_max c = 0 \<longrightarrow> fs = []"
    "c_max c = 0 \<or> ds = [] \<or> c_current (cache_set key value c) \<le> c_max c"
    "fs = [] \<or> c_max c < c_current (cache_set key value c) + e_size (hd fs)"
proof (cases "c_max c = 0")
  case True
  with assms that [of "others (c_str key) c" "[]"] show thesis
    by (simp add: cache_set_unpruned unpruned_entries lost_unpruned)
next
  case False
  let ?c = "unpruned key value c"
  have eq: "cache_set key value c = prune (c_str key) ?c"
    using False assms by (simp add: cache_set_unpruned word_neq_0_conv)
  note pre = wf_unpruned [OF assms, of key "value"] unpruned_entries [of key "value" c] new_entry_key [of key "value"]
  obtain ds fs where *: "others (c_str key) c = ds @ fs" "prune (c_str key) ?c = ?c\<lparr>c_entries := new_entry key value # ds,
      c_current := c_current ?c - sum_list (map e_size fs), c_flushed := c_flushed ?c + of_nat (length fs)\<rparr>"
      "ds = [] \<or> c_current (prune (c_str key) ?c) \<le> c_max ?c"
      "fs = [] \<or> c_max ?c < c_current (prune (c_str key) ?c) + e_size (hd fs)"
    using prune_prefix [OF pre] by blast
  have "c_entries (prune (c_str key) ?c) = new_entry key value # ds" "c_max (prune (c_str key) ?c) = c_max c"
    using *(2) by simp_all
  with "*" False that [of ds fs] prune_lost [OF pre] lost_unpruned [OF assms] show thesis
    by (simp add: eq)
qed


subsubsection \<open>Reading, removing and flushing\<close>

lemma fst_cache_get: "fst (cache_get key c) = cache_text c (c_str key)"
  by (auto simp: cache_get_def Ns_CacheFindEntry_def cache_text_def split: option.splits prod.splits)

lemma snd_cache_get:
  "snd (cache_get key c) = (case entry_at (c_str key) c of
       None \<Rightarrow> c\<lparr>c_misses := c_misses c + 1\<rparr>
     | Some e \<Rightarrow> c\<lparr>c_entries := e # others (c_str key) c, c_hits := c_hits c + 1\<rparr>)"
  by (cases c) (simp add: cache_get_def Ns_CacheFindEntry_def push_def delink_def others_def split: option.splits)

lemma cache_unset_eq:
  "cache_unset key c = (case entry_at (c_str key) c of
       None \<Rightarrow> c\<lparr>c_misses := c_misses c + 1\<rparr>
     | Some e \<Rightarrow> c\<lparr>c_entries := others (c_str key) c, c_hits := c_hits c + 1,
         c_strings := (if e_value e \<noteq> None then c_strings c - 1 else c_strings c)\<rparr>)"
proof (cases "entry_at (c_str key) c")
  case (Some e)
  then have "e_key e = c_str key" by (auto simp: entry_at_def find_Some_iff)
  with Some show ?thesis
    by (cases c) (simp add: cache_unset_def Ns_CacheFindEntry_def Ns_CacheDeleteEntry_def push_def delink_def others_def)
qed (simp add: cache_unset_def Ns_CacheFindEntry_def)

lemma fold_flush:
  "wf_cache c \<Longrightarrow> c_entries c = es \<Longrightarrow>
     fold (\<lambda>e. Ns_CacheFlushEntry (e_key e)) es c =
       c\<lparr>c_entries := [], c_current := c_current c - sum_list (map e_size es),
         c_flushed := c_flushed c + of_nat (length es)\<rparr>"
proof (induction es arbitrary: c)
  case Nil
  then show ?case by (cases c) simp
next
  case (Cons e es)
  have "entry_at (e_key e) c = Some e" using Cons.prems by (simp add: entry_at_Some)
  moreover have "others (e_key e) c = es"
    using Cons.prems by (auto simp: others_def wf_cache_def filter_id_conv image_iff)
  ultimately have step: "Ns_CacheFlushEntry (e_key e) c =
      c\<lparr>c_entries := es, c_current := c_current c - e_size e, c_flushed := c_flushed c + 1\<rparr>" (is "_ = ?c")
    using Cons.prems(1) by (simp add: FlushEntry_wf)
  have "wf_cache ?c" using Cons.prems by (auto simp: wf_cache_def)
  from Cons.IH [OF this] show ?case by (simp add: step algebra_simps)
qed

lemma cache_flush_eq:
  assumes "wf_cache c"
  shows "cache_flush c = c\<lparr>c_entries := [], c_current := lost_bytes c,
    c_flushed := c_flushed c + of_nat (length (c_entries c)),
    c_strings := c_strings c - length (c_entries c)\<rparr>"
proof -
  have "filter (\<lambda>e. \<exists>y. e_value e = Some y) (c_entries c) = c_entries c"
    using assms by (auto simp: wf_cache_def filter_id_conv)
  moreover have "wf_cache (c\<lparr>c_strings := n\<rparr>)" for n using assms by (simp add: wf_cache_def)
  ultimately show ?thesis
    by (cases c) (simp add: cache_flush_def Ns_CacheFlush_def fold_flush lost_bytes_def used_bytes_def)
qed

subsection \<open>Histories of a cache\<close>

text \<open>The calls of all threads on one cache, in the order in which they hold its lock.\<close>

datatype cache_call = CGet string | CSet string string | CUnset string | CFlush

fun call_cache :: "cache_call \<Rightarrow> ns_cache \<Rightarrow> ns_cache" where
  "call_cache (CGet key) c = snd (cache_get key c)"
| "call_cache (CSet key val) c = cache_set key val c"
| "call_cache (CUnset key) c = cache_unset key c"
| "call_cache CFlush c = cache_flush c"

lemma wf_cache_front: "wf_cache c \<Longrightarrow> entry_at k c = Some e \<Longrightarrow> wf_cache (c\<lparr>c_entries := e # others k c\<rparr>)"
  using wf_others [of c k] by (auto simp: wf_cache_def entry_at_def find_Some_iff others_def)

lemma wf_cache_set: "wf_cache c \<Longrightarrow> wf_cache (cache_set key val c)"
proof -
  assume wf: "wf_cache c"
  then obtain ds fs where *: "others (c_str key) c = ds @ fs" "c_entries (cache_set key val c) = new_entry key val # ds"
    by (rule cache_set_cases)
  have "c_str key \<notin> e_key ` set (others (c_str key) c)" by (auto simp: others_def)
  with "*" wf_others [OF wf, of "c_str key"] show ?thesis
    by (auto simp: wf_cache_def)
qed

lemma wf_call_cache: "wf_cache c \<Longrightarrow> wf_cache (call_cache e c)"
proof (cases e)
  case (CGet key)
  assume "wf_cache c"
  then show ?thesis
    using CGet wf_cache_front [of c "c_str key"]
    by (cases "entry_at (c_str key) c") (auto simp: snd_cache_get wf_cache_def)
next
  case (CUnset key)
  assume "wf_cache c"
  with CUnset wf_others [of c "c_str key"] show ?thesis
    by (cases "entry_at (c_str key) c") (auto simp: cache_unset_eq wf_cache_def)
next
  case CFlush
  assume "wf_cache c"
  with CFlush show ?thesis by (simp add: cache_flush_eq wf_cache_def)
qed (simp add: wf_cache_set)

interpretation chain: machine call_cache "CacheCreate m" wf_cache
  by unfold_locales (simp_all add: wf_call_cache, simp add: CacheCreate_def wf_cache_def)


subsection \<open>A cache and a map\<close>

text \<open>The same calls on a map from keys to texts, where a get changes nothing.\<close>

fun spec_cache :: "cache_call \<Rightarrow> (string \<rightharpoonup> string) \<Rightarrow> (string \<rightharpoonup> string)" where
  "spec_cache (CGet key) t = t"
| "spec_cache (CSet key val) t = t(c_str key \<mapsto> c_str val)"
| "spec_cache (CUnset key) t = t(c_str key := None)"
| "spec_cache CFlush t = Map.empty"

lemma entry_at_member: "entry_at k c = Some e \<Longrightarrow> e \<in> set (c_entries c) \<and> e_key e = k"
  by (auto simp: entry_at_def find_Some_iff)

lemma entry_at_absent: "entry_at k c = None \<Longrightarrow> e \<in> set (c_entries c) \<Longrightarrow> e_key e \<noteq> k"
  by (auto simp: entry_at_None)

lemma key_unique:
  "wf_cache c \<Longrightarrow> e \<in> set (c_entries c) \<Longrightarrow> d \<in> set (c_entries c) \<Longrightarrow> e_key e = e_key d \<Longrightarrow> e = d"
  by (auto simp: wf_cache_def distinct_map dest: inj_onD)

lemma cache_text_Some:
  "wf_cache c \<Longrightarrow> cache_text c k = Some v \<longleftrightarrow> (\<exists>e \<in> set (c_entries c). e_key e = k \<and> e_value e = Some v)"
proof (cases "entry_at k c")
  case None
  then show ?thesis using entry_at_None [of k c] by (auto simp: cache_text_def)
next
  case (Some d)
  assume wf: "wf_cache c"
  then show ?thesis
    using Some entry_at_member [OF Some] by (auto simp: cache_text_def dest: key_unique [OF wf])
qed

lemma map_eqI_Some: "(\<And>x y. f x = Some y \<longleftrightarrow> g x = Some y) \<Longrightarrow> f = (g :: 'a \<rightharpoonup> 'b)"
  by (rule ext) (metis option.exhaust)

lemma map_le_Some: "f \<subseteq>\<^sub>m g \<longleftrightarrow> (\<forall>x y. f x = Some y \<longrightarrow> g x = Some y)"
  by (force simp: map_le_def dom_def)

lemma cache_text_cong:
  "wf_cache c \<Longrightarrow> wf_cache d \<Longrightarrow> set (c_entries c) = set (c_entries d) \<Longrightarrow> cache_text c = cache_text d"
  by (intro map_eqI_Some) (simp add: cache_text_Some)

lemma set_cache_get:
  assumes "wf_cache c"
  shows "set (c_entries (snd (cache_get key c))) = set (c_entries c)"
proof (cases "entry_at (c_str key) c")
  case (Some e)
  then have "insert e (set (others (c_str key) c)) = set (c_entries c)"
    using entry_at_member [OF Some] by (auto simp: others_def dest: key_unique [OF assms])
  with Some show ?thesis by (simp add: snd_cache_get)
qed (simp add: snd_cache_get)

lemma cache_text_get: "wf_cache c \<Longrightarrow> cache_text (snd (cache_get key c)) = cache_text c"
  using wf_call_cache [of c "CGet key"] by (intro cache_text_cong) (simp_all add: set_cache_get)

lemma cache_text_unset: "wf_cache c \<Longrightarrow> cache_text (cache_unset key c) = (cache_text c)(c_str key := None)"
proof -
  assume wf: "wf_cache c"
  then have "wf_cache (cache_unset key c)" using wf_call_cache [of c "CUnset key"] by simp
  with wf show ?thesis
    by (intro map_eqI_Some)
      (auto simp: cache_text_Some cache_unset_eq others_def dest: entry_at_absent split: option.splits)
qed

lemma cache_text_set_le:
  assumes "wf_cache c"
  shows "cache_text (cache_set key val c) \<subseteq>\<^sub>m (cache_text c)(c_str key \<mapsto> c_str val)"
proof -
  from assms obtain ds fs where d: "others (c_str key) c = ds @ fs" "c_entries (cache_set key val c) = new_entry key val # ds"
    by (rule cache_set_cases)
  then have "set ds \<subseteq> set (others (c_str key) c)" by simp
  with d(2) assms wf_cache_set [OF assms, of key val] show ?thesis
    by (auto simp: map_le_Some cache_text_Some others_def)
qed

lemma cache_text_set_same: "wf_cache c \<Longrightarrow> cache_text (cache_set key val c) (c_str key) = Some (c_str val)"
  using cache_set_cases [of c key val] wf_cache_set [of c key val]
  by (metis cache_text_Some list.set_intros(1) new_entry_key new_entry_value)

lemma cache_text_set_unlimited:
  assumes "wf_cache c" "c_max c = 0"
  shows "cache_text (cache_set key val c) = (cache_text c)(c_str key \<mapsto> c_str val)"
proof -
  from assms obtain ds fs where d: "others (c_str key) c = ds" "c_entries (cache_set key val c) = new_entry key val # ds"
    by (metis append_Nil2 cache_set_cases)
  with assms wf_cache_set [OF assms(1), of key val] show ?thesis
    by (intro map_eqI_Some) (auto simp: cache_text_Some others_def)
qed

text \<open>A cache holds a part of the map, the whole of it when it has no limit.\<close>

definition caches_of :: "ns_cache \<Rightarrow> (string \<rightharpoonup> string) \<Rightarrow> bool" where
  "caches_of c t \<longleftrightarrow> wf_cache c \<and> cache_text c \<subseteq>\<^sub>m t \<and> (c_max c = 0 \<longrightarrow> cache_text c = t)"

lemma max_call_cache: "wf_cache c \<Longrightarrow> c_max (call_cache e c) = c_max c"
proof (cases e)
  case (CSet key val)
  assume "wf_cache c"
  then have "c_max (cache_set key val c) = c_max c" by (rule cache_set_cases)
  with CSet show ?thesis by simp
qed (auto simp: snd_cache_get cache_unset_eq cache_flush_eq split: option.splits)

lemma caches_of_call: "caches_of c t \<Longrightarrow> caches_of (call_cache e c) (spec_cache e t)"
proof (cases e)
  case (CSet key val)
  assume *: "caches_of c t"
  then have "cache_text (cache_set key val c) \<subseteq>\<^sub>m t(c_str key \<mapsto> c_str val)"
    using cache_text_set_le [of c key val] by (auto simp: caches_of_def intro: map_le_trans map_le_upd)
  with * CSet show ?thesis
    using wf_cache_set [of c] max_call_cache [of c e] cache_text_set_unlimited [of c key val] by (simp add: caches_of_def)
next
  case (CUnset key)
  assume *: "caches_of c t"
  with CUnset show ?thesis
    using wf_call_cache [of c e] max_call_cache [of c e]
    by (auto simp: caches_of_def cache_text_unset map_le_Some)
next
  case (CGet key)
  assume *: "caches_of c t"
  with CGet show ?thesis
    using wf_call_cache [of c e] max_call_cache [of c e] by (simp add: caches_of_def cache_text_get)
next
  case CFlush
  assume *: "caches_of c t"
  then have "cache_text (cache_flush c) = Map.empty"
    by (auto simp: caches_of_def cache_flush_eq cache_text_def entry_at_def)
  with * CFlush show ?thesis
    using wf_call_cache [of c e] by (simp add: caches_of_def)
qed


subsection \<open>The caches of the process\<close>

text \<open>A call of a script on a cache by name; the locks make the calls of all threads one sequence.\<close>

datatype host_call = New string "64 word" | On string cache_call

fun exec_host :: "host_call \<Rightarrow> js_caches \<Rightarrow> js_caches" where
  "exec_host (New name maxSize) cs = JsCacheCreate [name, []] maxSize cs"
| "exec_host (On name (CGet key)) cs = snd (JsCacheGet [name, key] cs)"
| "exec_host (On name (CSet key val)) cs = JsCacheSet [name, key, val] cs"
| "exec_host (On name (CUnset key)) cs = JsCacheUnset [name, key] cs"
| "exec_host (On name CFlush) cs = JsCacheFlush [name] cs"

lemma exec_On: "exec_host (On name e) cs = (case cs name of None \<Rightarrow> cs | Some c \<Rightarrow> cs(name \<mapsto> call_cache e c))"
  by (cases e) (auto simp: JsCacheGet_def JsCacheSet_def JsCacheUnset_def JsCacheFlush_def
    split: option.splits prod.splits)

type_synonym spec_caches = "string \<rightharpoonup> (string \<rightharpoonup> string)"

fun spec_host :: "host_call \<Rightarrow> spec_caches \<Rightarrow> spec_caches" where
  "spec_host (New name _) m = (if m name = None then m(name \<mapsto> Map.empty) else m)"
| "spec_host (On name e) m = (case m name of None \<Rightarrow> m | Some t \<Rightarrow> m(name \<mapsto> spec_cache e t))"

definition all_cached :: "js_caches \<Rightarrow> spec_caches \<Rightarrow> bool" where
  "all_cached cs m \<longleftrightarrow> (\<forall>name. rel_option caches_of (cs name) (m name))"

lemma all_cached_call: "all_cached cs m \<Longrightarrow> all_cached (exec_host e cs) (spec_host e m)"
proof (cases e)
  case (New name maxSize)
  assume *: "all_cached cs m"
  then have "rel_option caches_of (cs name) (m name)" by (simp add: all_cached_def)
  moreover have "cache_text (CacheCreate maxSize) = Map.empty"
    by (rule ext) (simp add: CacheCreate_def cache_text_def entry_at_def)
  then have "caches_of (CacheCreate maxSize) Map.empty"
    by (simp add: caches_of_def) (simp add: CacheCreate_def wf_cache_def)
  ultimately show ?thesis using * New by (cases "cs name"; cases "m name") (auto simp: all_cached_def JsCacheCreate_def)
next
  case (On name call)
  assume *: "all_cached cs m"
  then have "rel_option caches_of (cs name) (m name)" by (simp add: all_cached_def)
  with * On show ?thesis
    by (cases "cs name"; cases "m name") (auto simp: all_cached_def exec_On caches_of_call simp del: exec_host.simps)
qed

interpretation host: guarded_machine "\<lambda>e (cs, m). (exec_host e cs, spec_host e m)" "\<lambda>(cs, m). all_cached cs m" "\<lambda>_. True"
  by unfold_locales (auto simp: all_cached_call)

lemma run_pair: "run (\<lambda>e (s, t). (f e s, g e t)) es (s, t) = (run f es s, run g es t)"
  by (induction es arbitrary: s t) simp_all

lemma all_cached_run: "all_cached (run exec_host es Map.empty) (run spec_host es Map.empty)"
  using host.inv_run [of "(Map.empty, Map.empty)" es] by (simp add: run_pair all_cached_def list_all_iff)

lemma JsCacheGet_value:
  "fst (JsCacheGet [name, key] cs) = (case cs name of None \<Rightarrow> None | Some c \<Rightarrow> cache_text c (c_str key))"
  by (simp add: JsCacheGet_def fst_cache_get split: option.splits prod.splits)
     (metis fst_cache_get fst_conv)

text \<open>
  Claim C14. A cache never answers with an old value: after every sequence of calls of all threads,
  what \<open>ns.cache.get\<close> returns is the value that was last set for the key and neither removed nor
  flushed since, whatever the cache has dropped to stay within its limit.
\<close>

theorem cache_never_stale:
  assumes "fst (JsCacheGet [name, key] (run exec_host es Map.empty)) = Some v"
  shows "(case run spec_host es Map.empty name of None \<Rightarrow> None | Some t \<Rightarrow> t (c_str key)) = Some v"
proof -
  have "rel_option caches_of (run exec_host es Map.empty name) (run spec_host es Map.empty name)"
    using all_cached_run [of es] by (simp add: all_cached_def)
  with assms show ?thesis
    by (cases "run exec_host es Map.empty name"; cases "run spec_host es Map.empty name")
      (auto simp: JsCacheGet_value caches_of_def map_le_Some)
qed

text \<open>
  A cache without a limit is a map: if it was created with the size zero, every get after
  every sequence of calls returns exactly what the map of the same calls has for the key.
\<close>

theorem unlimited_cache_is_map:
  assumes "run exec_host es Map.empty name = Some c" "c_max c = 0"
  shows "fst (JsCacheGet [name, key] (run exec_host es Map.empty)) =
    (case run spec_host es Map.empty name of None \<Rightarrow> None | Some t \<Rightarrow> t (c_str key))"
proof -
  have "rel_option caches_of (run exec_host es Map.empty name) (run spec_host es Map.empty name)"
    using all_cached_run [of es] by (simp add: all_cached_def)
  with assms show ?thesis
    by (cases "run spec_host es Map.empty name") (auto simp: caches_of_def JsCacheGet_value)
qed

definition some_calls :: "host_call list" where
  "some_calls = [New ''c'' 10, On ''c'' (CSet ''a'' ''1234''), On ''c'' (CSet ''b'' ''56''),
     On ''c'' (CSet ''a'' ''78''), On ''c'' (CSet ''d'' ''9999''), On ''c'' (CGet ''a'')]"

definition some_unlimited_calls :: "host_call list" where
  "some_unlimited_calls = [New ''u'' 0, On ''u'' (CSet ''a'' ''1''), On ''u'' (CSet ''b'' ''2''), On ''u'' (CUnset ''a'')]"

lemma cache_never_stale_witness:
  "(case run spec_host some_calls Map.empty ''c'' of None \<Rightarrow> None | Some t \<Rightarrow> t (c_str ''a'')) = Some ''78''"
proof (rule cache_never_stale)
  show "fst (JsCacheGet [''c'', ''a''] (run exec_host some_calls Map.empty)) = Some ''78''"
    by code_simp
qed

lemma unlimited_cache_is_map_witness:
  "fst (JsCacheGet [''u'', ''b''] (run exec_host some_unlimited_calls Map.empty)) =
    (case run spec_host some_unlimited_calls Map.empty ''u'' of None \<Rightarrow> None | Some t \<Rightarrow> t (c_str ''b''))"
proof -
  have "map_option c_max (run exec_host some_unlimited_calls Map.empty ''u'') = Some 0" by code_simp
  then obtain c where "run exec_host some_unlimited_calls Map.empty ''u'' = Some c" "c_max c = 0" by auto
  then show ?thesis by (rule unlimited_cache_is_map)
qed

text \<open>A value that is set is there for the next get: the entry that is being set is never dropped.\<close>

lemma get_after_set:
  assumes "run exec_host es Map.empty name = Some c"
  shows "fst (JsCacheGet [name, key] (JsCacheSet [name, key, val] (run exec_host es Map.empty))) = Some (c_str val)"
proof -
  have "rel_option caches_of (run exec_host es Map.empty name) (run spec_host es Map.empty name)"
    using all_cached_run [of es] by (simp add: all_cached_def)
  with assms have "wf_cache c" by (auto simp: caches_of_def option_rel_Some1)
  with assms show ?thesis by (simp add: JsCacheGet_value JsCacheSet_def cache_text_set_same)
qed


subsection \<open>The limit\<close>

text \<open>The sum of the sizes of the entries, which is that of their words unless it wraps around.\<close>

definition entry_bytes :: "cache_entry list \<Rightarrow> nat" where
  "entry_bytes es = sum_list (map (\<lambda>e. unat (e_size e)) es)"

lemma entry_bytes_simps [simp]:
  "entry_bytes [] = 0"
  "entry_bytes (e # es) = unat (e_size e) + entry_bytes es"
  "entry_bytes (es @ fs) = entry_bytes es + entry_bytes fs"
  by (simp_all add: entry_bytes_def)

lemma used_bytes_nat: "used_bytes c = of_nat (entry_bytes (c_entries c))"
proof -
  have "sum_list (map e_size es) = (of_nat (entry_bytes es) :: 64 word)" for es
    by (induction es) simp_all
  then show ?thesis by (simp add: used_bytes_def)
qed

lemma entry_bytes_others: "entry_bytes (others k c) \<le> entry_bytes (c_entries c)"
proof -
  have "entry_bytes (filter P es) \<le> entry_bytes es" for P es by (induction es) auto
  then show ?thesis by (simp add: others_def)
qed

lemma entry_bytes_at:
  "wf_cache c \<Longrightarrow> entry_at k c = Some e \<Longrightarrow>
     entry_bytes (c_entries c) = unat (e_size e) + entry_bytes (others k c)"
  unfolding entry_bytes_def by (rule sum_others)

lemma unat_current:
  assumes "unat (lost_bytes c) + entry_bytes (c_entries c) < 2 ^ 64"
  shows "unat (c_current c) = unat (lost_bytes c) + entry_bytes (c_entries c)"
proof -
  have "c_current c = lost_bytes c + of_nat (entry_bytes (c_entries c))"
    by (simp add: lost_bytes_def used_bytes_nat)
  also have "\<dots> = of_nat (unat (lost_bytes c) + entry_bytes (c_entries c))" by simp
  finally show ?thesis using assms by (simp add: unat_of_nat del: of_nat_add)
qed

text \<open>
  The engine bounds the length of a string, so that the size of an entry is below four gigabytes.
  A cache is in order when its counter cannot wrap around soon and its entries fit, beside the
  bytes lost, or there is at most one entry.
\<close>

definition small_entries :: "cache_entry list \<Rightarrow> bool" where
  "small_entries es \<longleftrightarrow> (\<forall>e \<in> set es. 0 < unat (e_size e) \<and> unat (e_size e) < 2 ^ 32)"

definition in_order :: "nat \<Rightarrow> ns_cache \<Rightarrow> bool" where
  "in_order lost c \<longleftrightarrow> wf_cache c \<and> 0 < c_max c \<and> unat (c_max c) \<le> 2 ^ 62 \<and> unat (lost_bytes c) \<le> lost \<and>
     small_entries (c_entries c) \<and>
     (unat (lost_bytes c) + entry_bytes (c_entries c) \<le> unat (c_max c) \<or> length (c_entries c) \<le> 1)"

fun small_call :: "cache_call \<Rightarrow> bool" where
  "small_call (CSet key val) \<longleftrightarrow> length val + 1 < 2 ^ 32"
| "small_call _ \<longleftrightarrow> True"

lemma entry_bytes_in_order:
  assumes "in_order lost c"
  shows "entry_bytes (c_entries c) \<le> 2 ^ 62"
proof (cases "length (c_entries c) \<le> 1")
  case True
  with assms show ?thesis
    by (cases "c_entries c") (auto simp: in_order_def small_entries_def)
next
  case False
  with assms show ?thesis by (auto simp: in_order_def)
qed


lemma in_order_set:
  assumes "in_order lost c" "small_call (CSet key val)" "lost \<le> 2 ^ 63"
  shows "in_order lost (cache_set key val c)"
proof -
  have wf: "wf_cache c" and pos: "0 < c_max c" using assms by (simp_all add: in_order_def)
  from wf obtain ds fs where d: "others (c_str key) c = ds @ fs"
    "c_entries (cache_set key val c) = new_entry key val # ds"
    "c_max (cache_set key val c) = c_max c" "lost_bytes (cache_set key val c) = lost_bytes c"
    "c_max c = 0 \<or> ds = [] \<or> c_current (cache_set key val c) \<le> c_max c"
    by (rule cache_set_cases)
  have size: "0 < unat (e_size (new_entry key val)) \<and> unat (e_size (new_entry key val)) < 2 ^ 32"
    using assms(2) by (simp add: new_entry_def unat_of_nat del: of_nat_add of_nat_Suc)
  have "entry_bytes ds \<le> entry_bytes (c_entries c)"
    using entry_bytes_others [of "c_str key" c] d(1) by simp
  then have "entry_bytes ds \<le> 2 ^ 62"
    using entry_bytes_in_order [OF assms(1)] by linarith
  then have small: "unat (lost_bytes (cache_set key val c)) + entry_bytes (c_entries (cache_set key val c)) < 2 ^ 64"
    using assms size d(2,4) by (simp add: in_order_def)
  have "small_entries (others (c_str key) c)" using assms(1) by (auto simp: in_order_def small_entries_def others_def)
  then have "small_entries (new_entry key val # ds)" using size d(1) by (auto simp: small_entries_def)
  moreover have "ds = [] \<or> unat (lost_bytes (cache_set key val c)) + entry_bytes (c_entries (cache_set key val c)) \<le> unat (c_max c)"
    using d(5) pos unat_current [OF small] by (auto simp: word_le_nat_alt)
  ultimately show ?thesis
    using assms(1) d(2-4) wf_cache_set [OF wf, of key val] by (auto simp: in_order_def)
qed

lemma in_order_unset:
  assumes "in_order lost c" "lost \<le> 2 ^ 62"
  shows "in_order (lost + 2 ^ 32) (cache_unset key c)" "unat (lost_bytes c) \<le> unat (lost_bytes (cache_unset key c))"
proof -
  have wf: "wf_cache c" using assms by (simp add: in_order_def)
  note wf' = wf_call_cache [OF wf, of "CUnset key", simplified]
  have "in_order (lost + 2 ^ 32) (cache_unset key c) \<and> unat (lost_bytes c) \<le> unat (lost_bytes (cache_unset key c))"
  proof (cases "entry_at (c_str key) c")
    case None
    with assms wf' show ?thesis by (simp add: cache_unset_eq in_order_def lost_bytes_def used_bytes_def)
  next
    case (Some e)
    then have e: "e \<in> set (c_entries c)" using entry_at_member by blast
    let ?c = "cache_unset key c"
    have s: "unat (e_size e) < 2 ^ 32" using e assms(1) by (auto simp: in_order_def small_entries_def)
    have "lost_bytes ?c = lost_bytes c + e_size e"
      using Some used_others [OF wf Some] by (simp add: cache_unset_eq lost_bytes_def used_bytes_def)
    then have lost: "unat (lost_bytes ?c) = unat (lost_bytes c) + unat (e_size e)"
      using s assms by (simp add: in_order_def unat_word_ariths(1))
    have ent: "c_entries ?c = others (c_str key) c" using Some by (simp add: cache_unset_eq)
    have "small_entries (c_entries ?c)" using assms(1) by (auto simp: ent in_order_def small_entries_def others_def)
    moreover have "length (c_entries ?c) \<le> length (c_entries c)" by (simp add: ent others_def)
    ultimately show ?thesis
      using assms s lost wf' ent entry_bytes_at [OF wf Some] max_call_cache [OF wf, of "CUnset key"]
      by (auto simp: in_order_def)
  qed
  then show "in_order (lost + 2 ^ 32) (cache_unset key c)" "unat (lost_bytes c) \<le> unat (lost_bytes (cache_unset key c))" by simp_all
qed


text \<open>The entries that the pruning leaves: the first one, and the following ones while they fit.\<close>

fun fitting :: "int \<Rightarrow> cache_entry list \<Rightarrow> cache_entry list" where
  "fitting b [] = []"
| "fitting b (e # es) = (if uint (e_size e) \<le> b then e # fitting (b - uint (e_size e)) es else [])"


lemma fitting_prefix:
  "ds = [] \<or> int (entry_bytes ds) \<le> b \<Longrightarrow> fs = [] \<or> b < int (entry_bytes ds) + uint (e_size (hd fs)) \<Longrightarrow>
     fitting b (ds @ fs) = ds"
proof (induction ds arbitrary: b)
  case Nil
  then show ?case by (cases fs) auto
next
  case (Cons d ds)
  then have "uint (e_size d) \<le> b" by simp
  moreover have "fitting (b - uint (e_size d)) (ds @ fs) = ds"
    using Cons.prems by (intro Cons.IH) auto
  ultimately show ?case by simp
qed

text \<open>
  Claim C28. A cache keeps what was used most recently: when a value is set, the entries afterwards
  are the new one and, of the others in the order of their last use, the longest run from the most
  recent one that fits into the limit beside the new one and the bytes lost.
\<close>

theorem set_keeps_most_recent:
  assumes "in_order lost c" "small_call (CSet key val)" "lost \<le> 2 ^ 62"
  shows "c_entries (cache_set key val c) = new_entry key val #
    fitting (uint (c_max c) - uint (lost_bytes c) - int (length val + 1)) (others (c_str key) c)"
proof -
  have wf: "wf_cache c" and pos: "0 < c_max c" using assms by (simp_all add: in_order_def)
  let ?c = "cache_set key val c"
  from wf obtain ds fs where d: "others (c_str key) c = ds @ fs"
    "c_entries ?c = new_entry key val # ds" "c_max ?c = c_max c" "lost_bytes ?c = lost_bytes c"
    "c_max c = 0 \<or> ds = [] \<or> c_current ?c \<le> c_max c"
    "fs = [] \<or> c_max c < c_current ?c + e_size (hd fs)"
    by (rule cache_set_cases)
  have new: "unat (e_size (new_entry key val)) = length val + 1"
    using assms(2) by (simp add: new_entry_def unat_of_nat del: of_nat_add of_nat_Suc)
  have "entry_bytes (ds @ fs) \<le> 2 ^ 62"
    using entry_bytes_others [of "c_str key" c] entry_bytes_in_order [OF assms(1)] d(1) by simp
  then have le: "unat (lost_bytes ?c) + entry_bytes (c_entries ?c) \<le> 2 ^ 62 + 2 ^ 62 + 2 ^ 32"
    using assms new d(2,4) by (simp add: in_order_def)
  then have "unat (c_current ?c) = unat (lost_bytes c) + (length val + 1) + entry_bytes ds"
    using unat_current [of ?c] d(2,4) new by simp
  from arg_cong [where f = int, OF this]
  have cur: "uint (c_current ?c) = uint (lost_bytes c) + int (length val + 1) + int (entry_bytes ds)" by simp
  have "fs = [] \<or> uint (c_max c) < uint (c_current ?c) + uint (e_size (hd fs))"
    using d(6) uint_add_le [of "c_current ?c" "e_size (hd fs)"] by (auto simp: word_less_def)
  moreover have "ds = [] \<or> uint (c_current ?c) \<le> uint (c_max c)"
    using d(5) pos by (auto simp: word_le_def)
  ultimately have "fitting (uint (c_max c) - uint (lost_bytes c) - int (length val + 1)) (ds @ fs) = ds"
    using cur by (intro fitting_prefix) auto
  with d(1,2) show ?thesis by simp
qed

definition full_cache :: ns_cache where
  "full_cache = run call_cache [CSet ''a'' ''1234'', CSet ''b'' ''56'', CGet ''a''] (CacheCreate 9)"

lemma set_keeps_most_recent_witness:
  "c_entries (cache_set ''d'' ''78'' full_cache) = new_entry ''d'' ''78'' #
    fitting (uint (c_max full_cache) - uint (lost_bytes full_cache) - int (length ''78'' + 1)) (others (c_str ''d'') full_cache)"
proof (rule set_keeps_most_recent)
  have "c_entries full_cache = [new_entry ''a'' ''1234'', new_entry ''b'' ''56'']" "c_max full_cache = 9" "c_current full_cache = 8"
    by code_simp+
  then show "in_order 0 full_cache"
    by (simp add: in_order_def wf_cache_def lost_bytes_def used_bytes_def small_entries_def new_entry_def c_str_def)
qed simp_all


text \<open>Only the removal of a value can lose bytes, and no call brings them back.\<close>

fun cost :: "cache_call \<Rightarrow> nat" where
  "cost (CUnset key) = 2 ^ 32"
| "cost _ = 0"

lemma lost_unset_only: "wf_cache c \<Longrightarrow> \<forall>key. e \<noteq> CUnset key \<Longrightarrow> lost_bytes (call_cache e c) = lost_bytes c"
proof (cases e)
  case (CGet key)
  assume "wf_cache c"
  with CGet show ?thesis
    by (cases "entry_at (c_str key) c") (simp_all add: snd_cache_get lost_bytes_def used_others, simp_all add: used_bytes_def)
next
  case (CSet key val)
  assume "wf_cache c"
  then have "lost_bytes (cache_set key val c) = lost_bytes c" by (rule cache_set_cases)
  with CSet show ?thesis by simp
next
  case CFlush
  assume "wf_cache c"
  with CFlush show ?thesis by (simp add: cache_flush_eq lost_bytes_def used_bytes_def)
qed simp

lemma in_order_get: "in_order lost c \<Longrightarrow> in_order lost (snd (cache_get key c))"
proof (cases "entry_at (c_str key) c")
  case None
  assume "in_order lost c"
  with None show ?thesis by (simp add: snd_cache_get in_order_def wf_cache_def lost_bytes_def used_bytes_def)
next
  case (Some e)
  assume *: "in_order lost c"
  then have wf: "wf_cache c" by (simp add: in_order_def)
  let ?c = "snd (cache_get key c)"
  have "set (c_entries ?c) = set (c_entries c)" using set_cache_get [OF wf] .
  then have "small_entries (c_entries ?c)" using * by (auto simp: in_order_def small_entries_def)
  moreover have "length (c_entries ?c) = length (c_entries c)"
    using sum_others [OF wf Some, of "\<lambda>_. 1 :: nat"] by (simp add: Some snd_cache_get sum_list_triv)
  moreover have "entry_bytes (c_entries ?c) = entry_bytes (c_entries c)"
    using entry_bytes_at [OF wf Some] by (simp add: Some snd_cache_get)
  ultimately show ?thesis
    using * wf_call_cache [OF wf, of "CGet key"] max_call_cache [OF wf, of "CGet key"] lost_unset_only [OF wf, of "CGet key"]
    by (auto simp: in_order_def)
qed

lemma in_order_call:
  assumes "in_order lost c" "small_call e" "lost \<le> 2 ^ 62"
  shows "in_order (lost + cost e) (call_cache e c) \<and> unat (lost_bytes c) \<le> unat (lost_bytes (call_cache e c))"
proof (cases e)
  case (CSet key val)
  with assms in_order_set [of lost c key val] lost_unset_only [of c e] show ?thesis by (simp add: in_order_def)
next
  case (CUnset key)
  with assms in_order_unset [of lost c key] show ?thesis by simp
next
  case (CGet key)
  with assms in_order_get [of lost c key] lost_unset_only [of c e] show ?thesis by (simp add: in_order_def)
next
  case CFlush
  have wf: "wf_cache c" using assms by (simp add: in_order_def)
  with CFlush assms wf_call_cache [OF wf, of e] max_call_cache [OF wf, of e] lost_unset_only [OF wf, of e] show ?thesis
    by (simp add: in_order_def cache_flush_eq small_entries_def)
qed

lemma in_order_run:
  "in_order lost c \<Longrightarrow> list_all small_call es \<Longrightarrow> lost + sum_list (map cost es) \<le> 2 ^ 62 \<Longrightarrow>
     in_order (lost + sum_list (map cost es)) (run call_cache es c) \<and>
     unat (lost_bytes c) \<le> unat (lost_bytes (run call_cache es c))"
proof (induction es arbitrary: c lost)
  case (Cons e es)
  then have step: "in_order (lost + cost e) (call_cache e c) \<and> unat (lost_bytes c) \<le> unat (lost_bytes (call_cache e c))"
    using in_order_call [of lost c e] by simp
  with Cons.IH [of "lost + cost e" "call_cache e c"] Cons.prems show ?case
    by (auto simp: add.assoc intro: le_trans)
qed simp

lemma in_order_create: "0 < m \<Longrightarrow> unat m \<le> 2 ^ 62 \<Longrightarrow> in_order 0 (CacheCreate m)"
  by (simp add: in_order_def CacheCreate_def wf_cache_def lost_bytes_def used_bytes_def small_entries_def)

lemma cost_run: "sum_list (map cost es) = 2 ^ 32 * length (filter (\<lambda>e. cost e \<noteq> 0) es)"
proof (induction es)
  case (Cons e es)
  then show ?case by (cases e) simp_all
qed simp

lemma max_run: "c_max (run call_cache es (CacheCreate m)) = m"
proof (induction es rule: rev_induct)
  case Nil
  show ?case by (simp add: CacheCreate_def)
qed (simp add: run_append max_call_cache chain.inv_run)

text \<open>
  Claim C29. The limit is kept: after every sequence of calls with values that the engine can hold
  and at most half a billion removals, the sizes of a cache's entries add up to at most its
  limit, or the cache has a single entry, which may be larger than the limit.
\<close>

theorem cache_within_limit:
  assumes "0 < m" "unat m \<le> 2 ^ 62" "list_all small_call es" "length (filter (\<lambda>e. cost e \<noteq> 0) es) \<le> 2 ^ 29"
  shows "let es' = c_entries (run call_cache es (CacheCreate m)) in entry_bytes es' \<le> unat m \<or> length es' \<le> 1"
proof -
  let ?c = "run call_cache es (CacheCreate m)"
  have "c_max ?c = m" by (rule max_run)
  moreover have "in_order (sum_list (map cost es)) ?c"
    using in_order_run [OF in_order_create [OF assms(1,2)] assms(3)] assms(4) by (simp add: cost_run)
  ultimately show ?thesis by (auto simp: in_order_def Let_def)
qed


definition some_sets :: "cache_call list" where
  "some_sets = [CSet ''a'' ''1234'', CSet ''b'' ''56'', CGet ''a'', CSet ''d'' ''78'']"

lemma cache_within_limit_witness:
  "let es' = c_entries (run call_cache some_sets (CacheCreate 9)) in entry_bytes es' \<le> unat (9 :: 64 word) \<or> length es' \<le> 1"
  by (rule cache_within_limit) (simp_all add: some_sets_def)

text \<open>Here the get saves the older entry: the pruning drops the one in the middle.\<close>

lemma least_recently_used_dropped:
  "map e_key (c_entries (run call_cache some_sets (CacheCreate 9))) = [''d'', ''a'']"
  by code_simp

subsection \<open>Bytes lost by removals\<close>

text \<open>
  A removal frees the value and deletes the entry without \<open>Ns_CacheUnsetValue\<close>, so that the
  counter keeps the size of the value. A script that sets and removes a key again and again uses
  the limit up.
\<close>

definition set_and_unset :: "nat \<Rightarrow> string \<Rightarrow> string \<Rightarrow> cache_call list" where
  "set_and_unset n key val = concat (replicate n [CSet key val, CUnset key])"

lemma set_and_unset_once:
  assumes "wf_cache c" "c_entries c = []"
  shows "c_entries (cache_unset key (cache_set key val c)) = [] \<and>
    lost_bytes (cache_unset key (cache_set key val c)) = lost_bytes c + of_nat (length val + 1)"
proof -
  from assms(1) obtain ds fs where d: "others (c_str key) c = ds @ fs"
    "c_entries (cache_set key val c) = new_entry key val # ds" "lost_bytes (cache_set key val c) = lost_bytes c"
    by (rule cache_set_cases)
  with assms(2) have ent: "c_entries (cache_set key val c) = [new_entry key val]" by (simp add: others_def)
  then have "entry_at (c_str key) (cache_set key val c) = Some (new_entry key val)" by (simp add: entry_at_def)
  with ent d(3) show ?thesis
    by (simp add: cache_unset_eq others_def lost_bytes_def used_bytes_def new_entry_def algebra_simps)
qed

lemma lost_set_and_unset:
  "wf_cache c \<Longrightarrow> c_entries c = [] \<Longrightarrow>
     c_entries (run call_cache (set_and_unset n key val) c) = [] \<and>
     lost_bytes (run call_cache (set_and_unset n key val) c) = lost_bytes c + of_nat (n * (length val + 1))"
proof (induction n arbitrary: c)
  case 0
  then show ?case by (simp add: set_and_unset_def)
next
  case (Suc n)
  let ?c = "cache_unset key (cache_set key val c)"
  have "run call_cache (set_and_unset (Suc n) key val) c = run call_cache (set_and_unset n key val) ?c"
    by (simp add: set_and_unset_def)
  moreover have "wf_cache ?c"
    using wf_call_cache [OF wf_cache_set [OF Suc.prems(1)], of "CUnset key" key val] by simp
  ultimately show ?case
    using Suc.IH [of ?c] set_and_unset_once [OF Suc.prems, of key val] by (simp add: algebra_simps)
qed

lemma worn_cache:
  assumes "in_order lost c" "c_max c \<le> lost_bytes c"
  shows "length (c_entries c) \<le> 1"
proof (cases "c_entries c")
  case (Cons e es)
  with assms(1) have "0 < unat (e_size e)" by (simp add: in_order_def small_entries_def)
  with assms Cons show ?thesis by (auto simp: in_order_def word_le_nat_alt)
qed simp

text \<open>
  Claim C30. A cache wears out: when a script has set and removed values whose sizes add up to the
  limit, the cache never again holds more than the entry that was set last, whatever the scripts
  do afterwards; flushing it does not help.
\<close>

theorem removals_wear_cache_out:
  assumes "0 < m" "unat m \<le> 2 ^ 60" "unat m \<le> n * (length val + 1)" "n \<le> 2 ^ 28" "length val + 1 < 2 ^ 32"
    and "list_all small_call es" "length es \<le> 2 ^ 28"
  shows "length (c_entries (run call_cache (set_and_unset n key val @ es) (CacheCreate m))) \<le> 1"
proof -
  let ?d = "run call_cache (set_and_unset n key val) (CacheCreate m)"
  have small: "list_all small_call (set_and_unset n key val)" "sum_list (map cost (set_and_unset n key val)) = n * 2 ^ 32"
    using assms(5) by (induction n) (simp_all add: set_and_unset_def)
  have wf: "wf_cache (CacheCreate m)" "c_entries (CacheCreate m) = []" "lost_bytes (CacheCreate m) = 0"
    by (simp_all add: CacheCreate_def wf_cache_def lost_bytes_def used_bytes_def)
  have d: "in_order (n * 2 ^ 32) ?d"
    using in_order_run [OF in_order_create [OF assms(1)] small(1)] assms(2,4) small(2) by simp
  have "n * (length val + 1) \<le> 2 ^ 28 * 2 ^ 32" using assms(4,5) by (intro mult_le_mono) simp_all
  then have worn: "unat m \<le> unat (lost_bytes ?d)"
    using lost_set_and_unset [OF wf(1,2), of n key val] wf(3) assms(3) by (simp add: unat_of_nat del: of_nat_mult of_nat_Suc of_nat_add)
  have "sum_list (map cost es) \<le> 2 ^ 32 * length es" by (simp add: cost_run)
  then have "n * 2 ^ 32 + sum_list (map cost es) \<le> 2 ^ 62" using assms(4,7) by simp
  from in_order_run [OF d assms(6) this] worn have
    "in_order (n * 2 ^ 32 + sum_list (map cost es)) (run call_cache es ?d)" "m \<le> lost_bytes (run call_cache es ?d)"
    by (simp_all add: word_le_nat_alt)
  with worn_cache max_run [of "set_and_unset n key val @ es" m] show ?thesis by (simp add: run_append)
qed

lemma removals_wear_cache_out_witness:
  "length (c_entries (run call_cache (set_and_unset 2 ''k'' ''v'' @ [CFlush, CSet ''a'' '''', CSet ''b'' '''']) (CacheCreate 4))) \<le> 1"
  by (rule removals_wear_cache_out) simp_all


subsection \<open>Memory\<close>

text \<open>
  The caches have no procedure that frees a value, and the calls free only what they replace,
  remove or flush themselves: what the limit drops stays allocated.
\<close>

lemma strings_set:
  assumes "wf_cache c" "entry_at (c_str key) c = None"
  shows "c_strings (cache_set key val c) = c_strings c + 1"
proof -
  have "c_strings (prune k d) = c_strings d" for k d
  proof (induction k d rule: prune.induct)
    case (1 k d)
    then show ?case
      by (subst prune.simps)
        (simp add: Ns_CacheFlushEntry_def Ns_CacheDeleteEntry_def Ns_CacheUnsetValue_def delink_def update_entry_def
          split: option.splits)
  qed
  with assms show ?thesis by (simp add: cache_set_unpruned unpruned_def Let_def)
qed

lemma keys_after_sets:
  "e_key ` set (c_entries (run call_cache (map (\<lambda>(k, v). CSet k v) kvs) (CacheCreate m))) \<subseteq> c_str ` fst ` set kvs"
proof (induction kvs rule: rev_induct)
  case (snoc kv kvs)
  obtain k v where kv: "kv = (k, v)" by (cases kv)
  let ?c = "run call_cache (map (\<lambda>(k, v). CSet k v) kvs) (CacheCreate m)"
  have "wf_cache ?c" by (rule chain.inv_run)
  then obtain ds fs where "others (c_str k) ?c = ds @ fs" "c_entries (cache_set k v ?c) = new_entry k v # ds"
    by (rule cache_set_cases)
  moreover from this(1) have "set ds \<subseteq> set (others (c_str k) ?c)" by simp
  then have "set ds \<subseteq> set (c_entries ?c)" by (auto simp: others_def)
  ultimately show ?case using snoc kv by (auto simp: run_append)
qed (simp add: CacheCreate_def)

text \<open>
  Dropped values are never freed: after setting any number of different keys, every
  value that was ever set is still allocated, although the cache holds at most as many of them as
  its limit allows.
\<close>

theorem dropped_values_leak:
  assumes "distinct (map (c_str \<circ> fst) kvs)"
  shows "c_strings (run call_cache (map (\<lambda>(k, v). CSet k v) kvs) (CacheCreate m)) = length kvs"
  using assms
proof (induction kvs rule: rev_induct)
  case (snoc kv kvs)
  obtain k v where kv: "kv = (k, v)" by (cases kv)
  let ?c = "run call_cache (map (\<lambda>(k, v). CSet k v) kvs) (CacheCreate m)"
  have "c_str k \<notin> c_str ` fst ` set kvs" using snoc.prems kv by (auto simp: image_iff)
  then have "entry_at (c_str k) ?c = None" using keys_after_sets [of kvs m] by (auto simp: entry_at_None)
  moreover have "wf_cache ?c" by (rule chain.inv_run)
  ultimately show ?case using snoc kv by (simp add: run_append strings_set)
qed (simp add: CacheCreate_def)

lemma dropped_values_leak_witness:
  "c_strings (run call_cache (map (\<lambda>(k, v). CSet k v) [(''a'', ''x''), (''b'', ''y''), (''c'', ''z'')]) (CacheCreate 2)) = 3"
  by (subst dropped_values_leak) (simp_all add: c_str_def)


subsection \<open>The counters\<close>

text \<open>A call with a key finds an entry or not; a flush does not look for one.\<close>

fun found :: "cache_call \<Rightarrow> ns_cache \<Rightarrow> bool" where
  "found (CGet key) c \<longleftrightarrow> entry_at (c_str key) c \<noteq> None"
| "found (CSet key val) c \<longleftrightarrow> entry_at (c_str key) c \<noteq> None"
| "found (CUnset key) c \<longleftrightarrow> entry_at (c_str key) c \<noteq> None"
| "found CFlush c \<longleftrightarrow> False"

fun keyed :: "cache_call \<Rightarrow> bool" where
  "keyed CFlush \<longleftrightarrow> False"
| "keyed _ \<longleftrightarrow> True"

fun hits_of :: "cache_call list \<Rightarrow> ns_cache \<Rightarrow> nat" where
  "hits_of [] c = 0"
| "hits_of (e # es) c = (if found e c then 1 else 0) + hits_of es (call_cache e c)"

lemma prune_counters: "c_hits (prune k c) = c_hits c \<and> c_misses (prune k c) = c_misses c"
proof (induction k c rule: prune.induct)
  case (1 k c)
  have "c_hits (Ns_CacheFlushEntry k' c) = c_hits c \<and> c_misses (Ns_CacheFlushEntry k' c) = c_misses c" for k'
    by (simp add: Ns_CacheFlushEntry_def Ns_CacheDeleteEntry_def Ns_CacheUnsetValue_def delink_def update_entry_def
      entry_at_def split: option.split)
  with 1 show ?case by (subst (1 2) prune.simps) simp
qed

lemma counters_call:
  assumes "wf_cache c"
  shows "c_hits (call_cache e c) = c_hits c + (if found e c then 1 else 0)"
    "c_misses (call_cache e c) = c_misses c + (if keyed e \<and> \<not> found e c then 1 else 0)"
proof -
  have "c_hits (call_cache e c) = c_hits c + (if found e c then 1 else 0) \<and>
      c_misses (call_cache e c) = c_misses c + (if keyed e \<and> \<not> found e c then 1 else 0)"
    using assms
    by (cases e) (auto simp: snd_cache_get cache_unset_eq cache_flush_eq cache_set_unpruned unpruned_def prune_counters Let_def
      split: option.splits)
  then show "c_hits (call_cache e c) = c_hits c + (if found e c then 1 else 0)"
    "c_misses (call_cache e c) = c_misses c + (if keyed e \<and> \<not> found e c then 1 else 0)" by blast+
qed

lemma hits_run: "wf_cache c \<Longrightarrow> c_hits (run call_cache es c) = c_hits c + of_nat (hits_of es c)"
proof (induction es arbitrary: c)
  case (Cons e es)
  with Cons.IH [OF wf_call_cache [OF Cons.prems, of e]] counters_call(1) [OF Cons.prems, of e] show ?case by simp
qed simp

lemma hits_and_misses_run:
  "wf_cache c \<Longrightarrow> c_hits (run call_cache es c) + c_misses (run call_cache es c) =
     c_hits c + c_misses c + of_nat (length (filter keyed es))"
proof (induction es arbitrary: c)
  case (Cons e es)
  have "found e c \<Longrightarrow> keyed e" by (cases e) auto
  with Cons.IH [OF wf_call_cache [OF Cons.prems, of e]] counters_call [OF Cons.prems, of e] show ?case by simp
qed simp

text \<open>
  The answer of the command \<open>ns_cache_stats\<close>: the names with their colons, and the values that
  \<open>sprintf\<close> prints as ints. The product in the rate wraps around.
\<close>

definition hitrate :: "ns_cache \<Rightarrow> 32 word" where
  "hitrate c = (let total = c_hits c + c_misses c in if total \<noteq> 0 then c_hits c * 100 div total else 0)"

definition cache_stats :: "ns_cache \<Rightarrow> (string \<times> string) list" where
  "cache_stats c =
     [(''entries:'', int_str (int (length (c_entries c)))), (''flushed:'', int_str (sint (c_flushed c))),
      (''hits:'', int_str (sint (c_hits c))), (''misses:'', int_str (sint (c_misses c))),
      (''hitrate:'', int_str (sint (hitrate c)))]"

definition cache_stats_text :: "ns_cache \<Rightarrow> string" where
  "cache_stats_text c = drop 2 (concat (map (\<lambda>(k, v). ''  '' @ k @ '' '' @ v) (cache_stats c)))"

lemma sint_small: "n < 2 ^ 31 \<Longrightarrow> sint (of_nat n :: 32 word) = int n"
proof -
  assume "n < 2 ^ 31"
  then have "unat (of_nat n :: 32 word) = n" by (simp add: unat_of_nat)
  with \<open>n < 2 ^ 31\<close> show ?thesis
    by (simp add: sint_uint uint_nat signed_take_bit_int_eq_self del: of_nat_unat)
qed

lemma hits_of_le: "hits_of es c \<le> length (filter keyed es)"
proof (induction es arbitrary: c)
  case (Cons e es)
  have "found e c \<Longrightarrow> keyed e" by (cases e) auto
  with Cons [of "call_cache e c"] show ?case by auto
qed simp

text \<open>As long as there were few calls, the rate is the share of the hits in percent.\<close>

lemma hitrate_exact:
  assumes "length (filter keyed es) * 100 < 2 ^ 32"
  shows "unat (hitrate (run call_cache es (CacheCreate m))) =
    hits_of es (CacheCreate m) * 100 div length (filter keyed es)"
proof -
  let ?c = "run call_cache es (CacheCreate m)" and ?n = "length (filter keyed es)" and ?h = "hits_of es (CacheCreate m)"
  have wf: "wf_cache (CacheCreate m)" by (simp add: CacheCreate_def wf_cache_def)
  have h: "c_hits ?c = of_nat ?h" using hits_run [OF wf] by (simp add: CacheCreate_def)
  have t: "c_hits ?c + c_misses ?c = of_nat ?n" using hits_and_misses_run [OF wf] by (simp add: CacheCreate_def)
  have le: "?h * 100 < 2 ^ 32" using hits_of_le [of es "CacheCreate m"] assms by simp
  have n: "unat (of_nat ?n :: 32 word) = ?n" using assms by (simp add: unat_of_nat)
  have p: "unat (of_nat ?h * 100 :: 32 word) = ?h * 100"
  proof -
    have "unat (of_nat (?h * 100) :: 32 word) = ?h * 100" using le by (simp add: unat_of_nat del: of_nat_mult)
    then show ?thesis by simp
  qed
  show ?thesis
  proof (cases "?n = 0")
    case True
    with hits_of_le [of es "CacheCreate m"] t show ?thesis by (simp add: hitrate_def Let_def)
  next
    case False
    then have "(of_nat ?n :: 32 word) \<noteq> 0" using n by (metis unat_0)
    then have "hitrate ?c = of_nat ?h * 100 div of_nat ?n" by (simp add: hitrate_def Let_def t) (simp add: h)
    with n p show ?thesis by (simp add: unat_div)
  qed
qed

text \<open>After 42949673 hits and no miss the rate is zero.\<close>

lemma hitrate_wraps: "c_hits c = 42949673 \<Longrightarrow> c_misses c = 0 \<Longrightarrow> hitrate c = 0"
  by (simp add: hitrate_def Let_def)

end
