(* ===== verification/ImageSize.thy ===== *)
theory ImageSize
  imports Prelude "HOL-Library.Word"
begin

text \<open>
  The functions \<open>ns.image.gifSize\<close> and \<open>ns.image.jpegSize\<close> of \<open>nsjs/nsjs.cc\<close>, which read the size
  of an image from the bytes of its file. The model has the position and the end-of-file flag of a
  C stream; the scan for the markers of a JPEG file is a partial function, whose value None means
  that it never returns. The lemmas show what is read from well-formed files, on which files the
  scan returns, and on which it does not.
\<close>

unbundle bit_operations_syntax

subsection \<open>Streams\<close>

record stream =
  f_data :: "8 word list"
  f_pos :: nat
  f_eof :: bool

definition fopen_rb :: "8 word list \<Rightarrow> stream" where
  "fopen_rb data = \<lparr>f_data = data, f_pos = 0, f_eof = False\<rparr>"

text \<open>\<open>fgetc\<close> answers with the next byte, or with \<open>EOF\<close>, which is -1, and sets the flag.\<close>

definition fgetc :: "stream \<Rightarrow> int \<times> stream" where
  "fgetc f =
     (if f_eof f then (-1, f)
      else if f_pos f < length (f_data f) then (uint (f_data f ! f_pos f), f\<lparr>f_pos := f_pos f + 1\<rparr>)
      else (-1, f\<lparr>f_eof := True\<rparr>))"

text \<open>
  \<open>fseek\<close> relative to the position: a position behind the end is allowed, one before the start is an
  error that changes nothing; success clears the flag.
\<close>

definition fseek_cur :: "int \<Rightarrow> stream \<Rightarrow> stream" where
  "fseek_cur off f =
     (if int (f_pos f) + off < 0 then f
      else f\<lparr>f_pos := nat (int (f_pos f) + off), f_eof := False\<rparr>)"

subsection \<open>GIF\<close>

text \<open>The width and the height, or None for null; \<open>fopen\<close> is the content of a file that can be read.\<close>

definition JsImageGifSize :: "(string \<Rightarrow> 8 word list option) \<Rightarrow> string list \<Rightarrow> (int \<times> int) option" where
  "JsImageGifSize fopen args = (case args of
       [] \<Rightarrow> None
     | path # _ \<Rightarrow> (case fopen path of
         None \<Rightarrow> None
       | Some data \<Rightarrow>
         (let hdr = take 10 data
          in if length hdr < 10 then None
             else if hdr ! 0 \<noteq> 0x47 \<or> hdr ! 1 \<noteq> 0x49 \<or> hdr ! 2 \<noteq> 0x46 then None
             else let w = uint (hdr ! 6) OR push_bit 8 (uint (hdr ! 7));
                      h = uint (hdr ! 8) OR push_bit 8 (uint (hdr ! 9))
                  in Some (w, h))))"

subsection \<open>JPEG\<close>

text \<open>The cast of the answer of \<open>fgetc\<close> to an unsigned char, which makes \<open>EOF\<close> the byte 0xFF.\<close>

definition uchar :: "int \<Rightarrow> 8 word" where
  "uchar c = of_int c"

text \<open>The two inner loops: up to a byte 0xFF, and over the bytes 0xFF that follow.\<close>

lemma fgetc_progress:
  "\<not> f_eof (snd (fgetc f)) \<Longrightarrow>
     \<not> f_eof f \<and> f_pos f < length (f_data f) \<and> fgetc f = (uint (f_data f ! f_pos f), f\<lparr>f_pos := f_pos f + 1\<rparr>)"
  by (auto simp: fgetc_def split: if_splits)

function find_ff :: "stream \<Rightarrow> 8 word \<times> stream" where
  "find_ff f =
     (if uchar (fst (fgetc f)) \<noteq> 0xFF \<and> \<not> f_eof (snd (fgetc f)) then find_ff (snd (fgetc f))
      else (uchar (fst (fgetc f)), snd (fgetc f)))"
  by pat_completeness auto

termination find_ff
  by (relation "measure (\<lambda>f. length (f_data f) - f_pos f)") (auto dest!: fgetc_progress)

function skip_ff :: "stream \<Rightarrow> 8 word \<times> stream" where
  "skip_ff f =
     (if uchar (fst (fgetc f)) = 0xFF \<and> \<not> f_eof (snd (fgetc f)) then skip_ff (snd (fgetc f))
      else (uchar (fst (fgetc f)), snd (fgetc f)))"
  by pat_completeness auto

termination skip_ff
  by (relation "measure (\<lambda>f. length (f_data f) - f_pos f)") (auto dest!: fgetc_progress)

declare find_ff.simps [simp del] skip_ff.simps [simp del]

definition find_marker :: "stream \<Rightarrow> 8 word \<times> stream" where
  "find_marker f = skip_ff (snd (find_ff f))"

text \<open>
  Two bytes as one number. The order of the two calls of \<open>fgetc\<close> is not specified by C++; this is
  the order from left to right, in which the number is the one that the file holds.
\<close>

definition get16 :: "stream \<Rightarrow> int \<times> stream" where
  "get16 f =
     (let (hi, f1) = fgetc f;
          (lo, f2) = fgetc f1
      in (push_bit 8 hi OR lo, f2))"

definition is_sof :: "8 word \<Rightarrow> bool" where
  "is_sof marker \<longleftrightarrow>
     0xC0 \<le> marker \<and> marker \<le> 0xC3 \<or> 0xC5 \<le> marker \<and> marker \<le> 0xC7 \<or>
     0xC9 \<le> marker \<and> marker \<le> 0xCB \<or> 0xCD \<le> marker \<and> marker \<le> 0xCF"

definition frame_size :: "stream \<Rightarrow> int \<times> int" where
  "frame_size f =
     (let f1 = snd (fgetc f);
          (h, f2) = get16 f1;
          (w, f3) = get16 f2
      in (w, h))"

text \<open>The loop over the segments: the result is null or a size, when there is a result.\<close>

partial_function (option) jpeg_scan :: "stream \<Rightarrow> (int \<times> int) option option" where
  "jpeg_scan f =
     (if f_eof f then Some None
      else let m = find_marker f
           in if f_eof (snd m) then Some None
              else let len = get16 (snd m)
                   in if is_sof (fst m) then Some (Some (frame_size (snd len)))
                      else jpeg_scan (fseek_cur (fst len - 2) (snd len)))"

definition jpeg_size :: "8 word list \<Rightarrow> (int \<times> int) option option" where
  "jpeg_size data =
     (let (c0, f1) = fgetc (fopen_rb data);
          (c1, f2) = (if c0 \<noteq> 0xFF then (c0, f1) else fgetc f1)
      in if c0 \<noteq> 0xFF \<or> c1 \<noteq> 0xD8 then Some None else jpeg_scan f2)"

definition JsImageJpegSize :: "(string \<Rightarrow> 8 word list option) \<Rightarrow> string list \<Rightarrow> (int \<times> int) option option" where
  "JsImageJpegSize fopen args = (case args of
       [] \<Rightarrow> Some None
     | path # _ \<Rightarrow> (case fopen path of None \<Rightarrow> Some None | Some data \<Rightarrow> jpeg_size data))"


subsection \<open>Reading from a known position\<close>

text \<open>The stream on \<open>pre @ rest\<close> whose position is between the two.\<close>

definition stream_at :: "8 word list \<Rightarrow> 8 word list \<Rightarrow> stream" where
  "stream_at pre rest = \<lparr>f_data = pre @ rest, f_pos = length pre, f_eof = False\<rparr>"

definition at_end :: "8 word list \<Rightarrow> stream" where
  "at_end data = \<lparr>f_data = data, f_pos = length data, f_eof = True\<rparr>"

named_theorems reads \<open>the operations of a stream at a known position\<close>

lemma fgetc_at [reads]:
  "fgetc (stream_at pre (b # rest)) = (uint b, stream_at (pre @ [b]) rest)"
  "fgetc (stream_at pre []) = (-1, at_end pre)"
  "fgetc (at_end data) = (-1, at_end data)"
  by (simp_all add: fgetc_def stream_at_def at_end_def)

lemma eof_at [reads]: "\<not> f_eof (stream_at pre rest)" "f_eof (at_end data)"
  by (simp_all add: stream_at_def at_end_def)

lemma uchar_simps [simp]: "uchar (uint b) = b" "uchar (-1) = 0xFF" "uchar 255 = 0xFF"
  by (simp_all add: uchar_def)

lemma find_ff_at [reads]:
  "find_ff (stream_at pre (0xFF # rest)) = (0xFF, stream_at (pre @ [0xFF]) rest)"
  "b \<noteq> 0xFF \<Longrightarrow> find_ff (stream_at pre (b # rest)) = find_ff (stream_at (pre @ [b]) rest)"
  using find_ff.simps [of "stream_at pre (0xFF # rest)"] find_ff.simps [of "stream_at pre (b # rest)"]
  by (simp_all add: reads)

lemma skip_ff_at [reads]:
  "b \<noteq> 0xFF \<Longrightarrow> skip_ff (stream_at pre (b # rest)) = (b, stream_at (pre @ [b]) rest)"
  "skip_ff (stream_at pre (0xFF # rest)) = skip_ff (stream_at (pre @ [0xFF]) rest)"
  using skip_ff.simps [of "stream_at pre (0xFF # rest)"] skip_ff.simps [of "stream_at pre (b # rest)"]
  by (simp_all add: reads)

lemma skip_ff_fill:
  "b \<noteq> 0xFF \<Longrightarrow> skip_ff (stream_at pre (replicate k 0xFF @ b # rest)) = (b, stream_at (pre @ replicate k 0xFF @ [b]) rest)"
  by (induction k arbitrary: pre) (simp_all add: reads)

lemma find_marker_at [reads]:
  "b \<noteq> 0xFF \<Longrightarrow>
     find_marker (stream_at pre (0xFF # replicate k 0xFF @ b # rest)) = (b, stream_at (pre @ 0xFF # replicate k 0xFF @ [b]) rest)"
  by (simp add: find_marker_def find_ff_at skip_ff_fill)

lemma bits16:
  fixes hi lo :: "8 word"
  shows "push_bit 8 (uint hi) OR uint lo = 256 * uint hi + uint lo"
proof -
  have "push_bit 8 (uint hi) + uint lo = push_bit 8 (uint hi) OR uint lo"
    by (rule disjunctive_add) (auto simp: bit_push_bit_iff bit_uint_iff)
  then show ?thesis by (simp add: push_bit_eq_mult)
qed

lemma get16_at [reads]:
  "get16 (stream_at pre (hi # lo # rest)) = (256 * uint hi + uint lo, stream_at (pre @ [hi, lo]) rest)"
  by (simp add: get16_def reads bits16)

lemma get16_end:
  "length rest \<le> 1 \<Longrightarrow> get16 (stream_at pre rest) = (-1, at_end (pre @ rest))"
proof (cases rest)
  case (Cons b bs)
  assume "length rest \<le> 1"
  with Cons show ?thesis by (simp add: get16_def reads)
qed (simp add: get16_def reads)

lemma fseek_at [reads]: "fseek_cur (int (length bs)) (stream_at pre (bs @ rest)) = stream_at (pre @ bs) rest"
  by (simp add: fseek_cur_def stream_at_def nat_add_distrib)

subsection \<open>Well-formed files\<close>

text \<open>A segment: bytes of fill, a marker and a payload after the length, which counts its own two bytes.\<close>

type_synonym jpeg_segment = "nat \<times> 8 word \<times> 8 word list"

definition be16 :: "nat \<Rightarrow> 8 word list" where
  "be16 n = [of_nat (n div 256), of_nat (n mod 256)]"

fun segment_bytes :: "jpeg_segment \<Rightarrow> 8 word list" where
  "segment_bytes (fill, marker, payload) =
     0xFF # replicate fill 0xFF @ marker # be16 (length payload + 2) @ payload"

fun plain_segment :: "jpeg_segment \<Rightarrow> bool" where
  "plain_segment (fill, marker, payload) \<longleftrightarrow>
     marker \<noteq> 0xFF \<and> \<not> is_sof marker \<and> length payload + 2 < 2 ^ 16"

lemma be16_value: "n < 2 ^ 16 \<Longrightarrow> be16 n = [hi, lo] \<Longrightarrow> 256 * uint hi + uint lo = int n"
proof -
  assume *: "n < 2 ^ 16" "be16 n = [hi, lo]"
  then have "n div 256 < 256" "n mod 256 < 256" by simp_all
  with * have "unat hi = n div 256" "unat lo = n mod 256" by (auto simp: be16_def unat_of_nat)
  then have "256 * unat hi + unat lo = n" by simp
  from arg_cong [where f = int, OF this] show ?thesis by simp
qed

lemma get16_be16 [reads]: "n < 2 ^ 16 \<Longrightarrow> get16 (stream_at pre (be16 n @ rest)) = (int n, stream_at (pre @ be16 n) rest)"
  using be16_value [of n] by (simp add: be16_def reads)

lemma scan_segment:
  assumes "plain_segment s"
  shows "jpeg_scan (stream_at pre (segment_bytes s @ rest)) = jpeg_scan (stream_at (pre @ segment_bytes s) rest)"
proof -
  obtain k m pl where s: "s = (k, m, pl)" by (cases s) auto
  with assms show ?thesis
    using fseek_at [of pl] by (subst jpeg_scan.simps) (simp add: reads Let_def)
qed

lemma scan_segments:
  "list_all plain_segment ss \<Longrightarrow>
     jpeg_scan (stream_at pre (concat (map segment_bytes ss) @ rest)) = jpeg_scan (stream_at (pre @ concat (map segment_bytes ss)) rest)"
  by (induction ss arbitrary: pre) (simp_all add: scan_segment)

text \<open>The start of a file, its segments, and the frame header with the size.\<close>

definition jpeg_file :: "jpeg_segment list \<Rightarrow> 8 word list \<Rightarrow> 8 word list" where
  "jpeg_file ss rest = [0xFF, 0xD8] @ concat (map segment_bytes ss) @ rest"

definition frame_header :: "nat \<Rightarrow> 8 word \<Rightarrow> nat \<Rightarrow> 8 word \<Rightarrow> nat \<Rightarrow> nat \<Rightarrow> 8 word list" where
  "frame_header fill marker len precision h w =
     0xFF # replicate fill 0xFF @ marker # be16 len @ precision # be16 h @ be16 w"

lemma jpeg_size_file:
  "list_all plain_segment ss \<Longrightarrow>
     jpeg_size (jpeg_file ss rest) = jpeg_scan (stream_at ([0xFF, 0xD8] @ concat (map segment_bytes ss)) rest)"
proof -
  assume *: "list_all plain_segment ss"
  have "fopen_rb (jpeg_file ss rest) = stream_at [] (0xFF # 0xD8 # concat (map segment_bytes ss) @ rest)"
    by (simp add: fopen_rb_def stream_at_def jpeg_file_def)
  then have "jpeg_size (jpeg_file ss rest) = jpeg_scan (stream_at [0xFF, 0xD8] (concat (map segment_bytes ss) @ rest))"
    by (simp add: jpeg_size_def reads)
  with scan_segments [OF *, of "[0xFF, 0xD8]" rest] show ?thesis by simp
qed


text \<open>
  The size of a JPEG file can be read back: whatever segments stand before the frame
  header, and whatever follows it, \<open>jpegSize\<close> returns the width and the height of the header.
\<close>

theorem jpeg_size_round_trip:
  assumes "fopen path = Some (jpeg_file ss (frame_header fill marker len precision h w @ rest))"
    and "list_all plain_segment ss" "is_sof marker" "h < 2 ^ 16" "w < 2 ^ 16"
  shows "JsImageJpegSize fopen [path] = Some (Some (int w, int h))"
proof -
  have m: "marker \<noteq> 0xFF" using assms(3) by (auto simp: is_sof_def)
  obtain a b where len: "be16 len = [a, b]" by (simp add: be16_def)
  have "jpeg_scan (stream_at pre (frame_header fill marker len precision h w @ rest)) = Some (Some (int w, int h))" for pre
    using m assms(3-5) by (subst jpeg_scan.simps) (simp add: reads Let_def frame_header_def frame_size_def len)
  with assms(1,2) show ?thesis by (simp add: JsImageJpegSize_def jpeg_size_file)
qed

definition some_jpeg :: "8 word list" where
  "some_jpeg = jpeg_file [(0, 0xE0, [0x4A, 0x46]), (2, 0xDB, [0xFF])] (frame_header 0 0xC0 17 8 300 400 @ [3, 1])"

lemma jpeg_size_round_trip_witness:
  "JsImageJpegSize [''a.jpg'' \<mapsto> some_jpeg] [''a.jpg''] = Some (Some (400, 300))"
  using jpeg_size_round_trip [of "[''a.jpg'' \<mapsto> some_jpeg]" "''a.jpg''" "[(0, 0xE0, [0x4A, 0x46]), (2, 0xDB, [0xFF])]"
    0 "0xC0" 17 8 300 400 "[3, 1]"]
  by (simp add: some_jpeg_def is_sof_def)

text \<open>
  The size of a GIF file can be read back from its logical screen descriptor, whatever the
  version in its header and whatever follows.
\<close>

theorem gif_size_round_trip:
  assumes "fopen path = Some ([0x47, 0x49, 0x46, v1, v2, v3] @ rev (be16 w) @ rev (be16 h) @ rest)"
    and "w < 2 ^ 16" "h < 2 ^ 16"
  shows "JsImageGifSize fopen [path] = Some (int w, int h)"
proof -
  obtain w1 w2 h1 h2 where b: "be16 w = [w1, w2]" "be16 h = [h1, h2]" by (simp add: be16_def)
  have "uint w2 OR push_bit 8 (uint w1) = int w" "uint h2 OR push_bit 8 (uint h1) = int h"
    using be16_value [OF assms(2) b(1)] be16_value [OF assms(3) b(2)] bits16 by (simp_all add: or.commute)
  with assms(1) b show ?thesis by (simp add: JsImageGifSize_def Let_def numeral_eq_Suc)
qed

lemma gif_size_round_trip_witness:
  "JsImageGifSize [''a.gif'' \<mapsto> [0x47, 0x49, 0x46, 0x38, 0x39, 0x61, 0x90, 0x01, 0x2C, 0x01, 0xF7]] [''a.gif''] = Some (400, 300)"
  using gif_size_round_trip [of "[''a.gif'' \<mapsto> [0x47, 0x49, 0x46, 0x38, 0x39, 0x61, 0x90, 0x01, 0x2C, 0x01, 0xF7]]"
    "''a.gif''" "0x38" "0x39" "0x61" 400 300 "[0xF7]"]
  by (simp add: be16_def)

subsection \<open>Truncated files\<close>

text \<open>
  At the end of the file \<open>fgetc\<close> answers -1, so that a length that is cut off is -1 too; the seek by
  -3 succeeds, clears the flag, and the same marker is read again.
\<close>

lemma fseek_back: "fseek_cur (-1 - 2) (at_end (D @ [x, y, z])) = stream_at D [x, y, z]"
  by (simp add: fseek_cur_def at_end_def stream_at_def)

text \<open>The last three bytes of such a file: a marker that is no frame header, and at most one byte.\<close>

fun cut_off :: "8 word list \<Rightarrow> bool" where
  "cut_off [x, y, z] \<longleftrightarrow> x = 0xFF \<and> y \<noteq> 0xFF \<and> \<not> is_sof y \<or> y = 0xFF \<and> z \<noteq> 0xFF \<and> \<not> is_sof z"
| "cut_off _ \<longleftrightarrow> False"

lemma cut_off_cases:
  "cut_off t \<Longrightarrow> \<exists>m l x. m \<noteq> 0xFF \<and> \<not> is_sof m \<and> (t = [0xFF, m, l] \<or> t = [x, 0xFF, m])"
  by (cases t rule: cut_off.cases) auto

lemma scan_cut_off:
  assumes "cut_off t"
  shows "jpeg_scan (stream_at D t) = None"
proof -
  from assms obtain m l x where m: "m \<noteq> 0xFF" "\<not> is_sof m" and t: "t = [0xFF, m, l] \<or> t = [x, 0xFF, m]"
    using cut_off_cases by blast
  from m(1) have marker: "\<exists>rest. length rest \<le> 1 \<and> find_marker (stream_at D t) = (m, stream_at (D @ t') rest) \<and> t = t' @ rest"
    if "t = [0xFF, m, l] \<and> t' = [0xFF, m] \<or> t = [x, 0xFF, m] \<and> t' = t" for t'
    using that by (cases "x = 0xFF") (auto simp: find_marker_def reads)
  from t obtain rest t' where f: "length rest \<le> 1" "find_marker (stream_at D t) = (m, stream_at (D @ t') rest)" "t = t' @ rest"
    using marker by blast
  have loop: "fseek_cur (fst (get16 (stream_at (D @ t') rest)) - 2) (snd (get16 (stream_at (D @ t') rest))) = stream_at D t"
    using get16_end [OF f(1), of "D @ t'"] f(3) t fseek_back by auto
  have "g \<noteq> stream_at D t" if "jpeg_scan g = Some y" for g y
  proof (rule jpeg_scan.raw_induct [OF _ that])
    fix scan :: "stream \<Rightarrow> (int \<times> int) option option" and g y
    assume "\<And>g y. scan g = Some y \<Longrightarrow> g \<noteq> stream_at D t"
    then have "scan (stream_at D t) = None" by (cases "scan (stream_at D t)") auto
    moreover assume "(if f_eof g then Some None
      else let m = find_marker g
           in if f_eof (snd m) then Some None
              else let len = get16 (snd m)
                   in if is_sof (fst m) then Some (Some (frame_size (snd len)))
                      else scan (fseek_cur (fst len - 2) (snd len))) = Some y"
    ultimately show "g \<noteq> stream_at D t" using f(2) loop m(2) by (auto simp: reads Let_def)
  qed
  then show ?thesis by (cases "jpeg_scan (stream_at D t)") auto
qed


lemma length_three: "length xs = 3 \<Longrightarrow> \<exists>x y z. xs = [x, y, z]"
  by (auto simp: numeral_eq_Suc length_Suc_conv)

text \<open>
  Claim C34. A truncated file hangs the server's thread: when a JPEG file ends within the length of a
  segment, \<open>jpegSize\<close> never returns.
\<close>

theorem truncated_jpeg_never_returns:
  assumes "fopen path = Some (jpeg_file ss (0xFF # replicate fill 0xFF @ marker # rest))"
    and "list_all plain_segment ss" "marker \<noteq> 0xFF" "\<not> is_sof marker" "length rest \<le> 1"
  shows "JsImageJpegSize fopen [path] = None"
proof -
  let ?pre = "[0xFF, 0xD8] @ concat (map segment_bytes ss)"
  let ?data = "?pre @ 0xFF # replicate fill 0xFF @ marker # rest"
  define n where "n = length ?data - 3"
  have n: "n + 3 = length ?data" by (simp add: n_def)
  have "length (drop n ?data) = 3" using n by (simp only: length_drop)
  then obtain x y z where t: "drop n ?data = [x, y, z]" using length_three by blast
  then have data: "?data = take n ?data @ [x, y, z]" by (metis append_take_drop_id)
  have "cut_off [x, y, z]"
  proof (cases rest)
    case Nil
    then have "rev ?data = marker # rev (replicate fill 0xFF) @ 0xFF # rev ?pre" by simp
    also have "\<dots> = marker # 0xFF # rev (replicate fill 0xFF) @ rev ?pre" by (simp add: replicate_append_same)
    finally have "rev (take n ?data @ [x, y, z]) = marker # 0xFF # rev (replicate fill 0xFF) @ rev ?pre" using data by simp
    then show ?thesis using assms(3,4) by auto
  next
    case (Cons l ls)
    then have "rest = [l]" using assms(5) by simp
    then have "rev ?data = l # marker # rev (replicate fill 0xFF) @ 0xFF # rev ?pre" by simp
    also have "\<dots> = l # marker # 0xFF # rev (replicate fill 0xFF) @ rev ?pre" by (simp add: replicate_append_same)
    finally have "rev (take n ?data @ [x, y, z]) = l # marker # 0xFF # rev (replicate fill 0xFF) @ rev ?pre" using data by simp
    then show ?thesis using assms(3,4) by auto
  qed
  then have loop: "jpeg_scan (stream_at (take n ?data) [x, y, z]) = None" by (rule scan_cut_off)
  have "jpeg_scan (stream_at ?pre (0xFF # replicate fill 0xFF @ marker # rest)) =
      jpeg_scan (fseek_cur (-1 - 2) (at_end ?data))"
    using assms(3,4) get16_end [OF assms(5), of "?pre @ 0xFF # replicate fill 0xFF @ [marker]"]
    by (subst jpeg_scan.simps) (simp add: reads Let_def)
  also have "\<dots> = jpeg_scan (stream_at (take n ?data) [x, y, z])"
    using data fseek_back [of "take n ?data" x y z] by simp
  finally show ?thesis using assms(1,2) loop by (simp add: JsImageJpegSize_def jpeg_size_file)
qed

lemma truncated_jpeg_never_returns_witness:
  "JsImageJpegSize [''a.jpg'' \<mapsto> [0xFF, 0xD8, 0xFF, 0xE0]] [''a.jpg''] = None"
  using truncated_jpeg_never_returns [of "[''a.jpg'' \<mapsto> [0xFF, 0xD8, 0xFF, 0xE0]]" "''a.jpg''" "[]" 0 "0xE0" "[]"]
  by (simp add: jpeg_file_def is_sof_def)

subsection \<open>Termination\<close>

text \<open>What the loops leave: a marker that has just been read stands behind a byte 0xFF.\<close>

lemma find_ff_progress:
  "\<not> f_eof (snd (find_ff f)) \<Longrightarrow>
     f_data (snd (find_ff f)) = f_data f \<and> f_pos f < f_pos (snd (find_ff f)) \<and>
     f_pos (snd (find_ff f)) \<le> length (f_data f) \<and> f_data f ! (f_pos (snd (find_ff f)) - 1) = 0xFF"
proof (induction f rule: find_ff.induct)
  case (1 f)
  show ?case
  proof (cases "uchar (fst (fgetc f)) \<noteq> 0xFF \<and> \<not> f_eof (snd (fgetc f))")
    case True
    then have "find_ff f = find_ff (snd (fgetc f))" using find_ff.simps [of f] by simp
    with 1 True fgetc_progress [of f] show ?thesis by auto
  next
    case False
    then have eq: "find_ff f = (uchar (fst (fgetc f)), snd (fgetc f))"
      using find_ff.simps [of f] by (simp only: False if_False)
    with "1.prems" False fgetc_progress [of f] show ?thesis by auto
  qed
qed

lemma skip_ff_progress:
  "\<not> f_eof (snd (skip_ff f)) \<Longrightarrow> 0 < f_pos f \<Longrightarrow> f_data f ! (f_pos f - 1) = 0xFF \<Longrightarrow>
     f_data (snd (skip_ff f)) = f_data f \<and> f_pos f < f_pos (snd (skip_ff f)) \<and>
     f_pos (snd (skip_ff f)) \<le> length (f_data f) \<and>
     f_data f ! (f_pos (snd (skip_ff f)) - 1) = fst (skip_ff f) \<and> fst (skip_ff f) \<noteq> 0xFF \<and>
     f_data f ! (f_pos (snd (skip_ff f)) - 2) = 0xFF"
proof (induction f rule: skip_ff.induct)
  case (1 f)
  show ?case
  proof (cases "uchar (fst (fgetc f)) = 0xFF \<and> \<not> f_eof (snd (fgetc f))")
    case True
    then have "skip_ff f = skip_ff (snd (fgetc f))" using skip_ff.simps [of f] by simp
    with 1 True fgetc_progress [of f] show ?thesis by auto
  next
    case False
    then have eq: "skip_ff f = (uchar (fst (fgetc f)), snd (fgetc f))"
      using skip_ff.simps [of f] by (simp only: False if_False)
    with 1 False fgetc_progress [of f] show ?thesis by auto
  qed
qed


lemma find_marker_progress:
  assumes "\<not> f_eof (snd (find_marker f))"
  shows "f_data (snd (find_marker f)) = f_data f" "f_pos f + 2 \<le> f_pos (snd (find_marker f))"
    "f_pos (snd (find_marker f)) \<le> length (f_data f)"
    "f_data f ! (f_pos (snd (find_marker f)) - 1) = fst (find_marker f)"
    "f_data f ! (f_pos (snd (find_marker f)) - 2) = 0xFF" "fst (find_marker f) \<noteq> 0xFF"
proof -
  have "\<not> f_eof (snd (find_ff f))"
  proof
    assume "f_eof (snd (find_ff f))"
    then have "skip_ff (snd (find_ff f)) = (0xFF, snd (find_ff f))" by (subst skip_ff.simps) (simp add: fgetc_def)
    with \<open>f_eof (snd (find_ff f))\<close> assms show False by (simp add: find_marker_def)
  qed
  note ff = find_ff_progress [OF this]
  then have "0 < f_pos (snd (find_ff f))" "f_data (snd (find_ff f)) ! (f_pos (snd (find_ff f)) - 1) = 0xFF" by auto
  from skip_ff_progress [OF _ this] assms ff
  show "f_data (snd (find_marker f)) = f_data f" "f_pos f + 2 \<le> f_pos (snd (find_marker f))"
    "f_pos (snd (find_marker f)) \<le> length (f_data f)"
    "f_data f ! (f_pos (snd (find_marker f)) - 1) = fst (find_marker f)"
    "f_data f ! (f_pos (snd (find_marker f)) - 2) = 0xFF" "fst (find_marker f) \<noteq> 0xFF"
    by (auto simp: find_marker_def)
qed

lemma last_three: "3 \<le> length xs \<Longrightarrow>
  drop (length xs - 3) xs =
    [xs ! (length xs - Suc (Suc (Suc 0))), xs ! (length xs - Suc (Suc 0)), xs ! (length xs - Suc 0)]"
  by (rule nth_equalityI) (auto simp: nth_Cons' numeral_eq_Suc less_Suc_eq)

lemma get16_inside:
  "\<not> f_eof f \<Longrightarrow> f_pos f + 2 \<le> length (f_data f) \<Longrightarrow>
     \<exists>n. get16 f = (int n, f\<lparr>f_pos := f_pos f + 2\<rparr>)"
  by (simp add: get16_def fgetc_def bits16)
    (metis nonneg_int_cases uint_ge_0 add_nonneg_nonneg mult_nonneg_nonneg zero_le_numeral)

lemma scan_returns:
  "0 < f_pos f \<Longrightarrow> \<not> cut_off (drop (length (f_data f) - 3) (f_data f)) \<Longrightarrow> \<exists>r. jpeg_scan f = Some r"
proof (induction "length (f_data f) - f_pos f" arbitrary: f rule: less_induct)
  case less
  let ?m = "fst (find_marker f)" and ?g = "snd (find_marker f)" and ?d = "f_data f"
  consider "f_eof f \<or> f_eof ?g \<or> is_sof ?m" | "\<not> f_eof f" "\<not> f_eof ?g" "\<not> is_sof ?m" by blast
  then show ?case
  proof cases
    case 1
    then show ?thesis by (subst jpeg_scan.simps) (auto simp: Let_def)
  next
    case 2
    note g = find_marker_progress [OF 2(2)]
    have "f_pos ?g + 2 \<le> length ?d"
    proof (rule ccontr)
      assume "\<not> ?thesis"
      then have n: "f_pos ?g = length ?d \<or> f_pos ?g = length ?d - 1" "3 \<le> length ?d" using g(2,3) less.prems(1) by arith+
      then have "cut_off (drop (length ?d - 3) ?d)"
        using g(4-6) 2(3) by (auto simp: last_three [OF n(2)] numeral_2_eq_2)
      with less.prems(2) show False by simp
    qed
    then obtain n where n: "get16 ?g = (int n, ?g\<lparr>f_pos := f_pos ?g + 2\<rparr>)"
      using get16_inside [OF 2(2)] g(1) by auto
    let ?f = "?g\<lparr>f_pos := f_pos ?g + n, f_eof := False\<rparr>"
    have "fseek_cur (int n - 2) (?g\<lparr>f_pos := f_pos ?g + 2\<rparr>) = ?f" by (simp add: fseek_cur_def nat_add_distrib)
    then have "jpeg_scan f = jpeg_scan ?f" using 2 n by (subst jpeg_scan.simps) (simp add: Let_def)
    moreover have "\<exists>r. jpeg_scan ?f = Some r"
      using less.prems g by (intro less.hyps) auto
    ultimately show ?thesis by simp
  qed
qed

text \<open>
  Claim C33. The scan returns on every other file: unless the last bytes of the file are a marker,
  other than a frame header's, and at most one byte after it, \<open>jpegSize\<close> returns a size or null,
  whatever the file holds.
\<close>

theorem jpeg_size_returns:
  assumes "fopen path = Some data" "\<not> cut_off (drop (length data - 3) data)"
  shows "\<exists>r. JsImageJpegSize fopen [path] = Some r"
proof (cases "\<exists>rest. data = [0xFF, 0xD8] @ rest")
  case True
  then obtain rest where d: "data = [0xFF, 0xD8] @ rest" by blast
  then have "jpeg_size data = jpeg_scan (stream_at [0xFF, 0xD8] rest)"
    using jpeg_size_file [of "[]" rest] by (simp add: jpeg_file_def)
  moreover have "\<exists>r. jpeg_scan (stream_at [0xFF, 0xD8] rest) = Some r"
    using assms(2) d by (intro scan_returns) (simp_all add: stream_at_def)
  ultimately show ?thesis using assms(1) by (simp add: JsImageJpegSize_def)
next
  case False
  have "uint (b :: 8 word) = 255 \<longleftrightarrow> b = 0xFF" "uint b = 216 \<longleftrightarrow> b = 0xD8" for b
    by (simp_all add: word_uint_eq_iff)
  with False have "jpeg_size data = Some None"
    by (cases data; cases "tl data") (auto simp: jpeg_size_def fopen_rb_def fgetc_def Let_def)
  with assms(1) show ?thesis by (simp add: JsImageJpegSize_def)
qed

lemma jpeg_size_returns_witness:
  "\<exists>r. JsImageJpegSize [''a.jpg'' \<mapsto> [0xFF, 0xD8, 0xFF, 0xE0, 0x00, 0x09, 0x41]] [''a.jpg''] = Some r"
proof (rule jpeg_size_returns)
  show "\<not> cut_off (drop (length [0xFF, 0xD8, 0xFF, 0xE0, 0x00, 0x09, 0x41] - 3) [0xFF, 0xD8, 0xFF, 0xE0, 0x00, 0x09, 0x41])"
    by code_simp
qed simp


text \<open>A file that ends within its frame header has the size -1 by -1, where null was meant.\<close>

lemma truncated_frame_negative:
  "JsImageJpegSize [''a.jpg'' \<mapsto> [0xFF, 0xD8, 0xFF, 0xC0]] [''a.jpg''] = Some (Some (-1, -1))"
proof -
  have "jpeg_scan (stream_at [0xFF, 0xD8] [0xFF, 0xC0]) = Some (Some (-1, -1))"
    using find_marker_at [of "0xC0" "[0xFF, 0xD8]" 0 "[]"] get16_end [of "[]"]
    by (subst jpeg_scan.simps) (simp add: reads Let_def is_sof_def frame_size_def get16_def)
  with jpeg_size_file [of "[]" "[0xFF, 0xC0]"] show ?thesis by (simp add: JsImageJpegSize_def jpeg_file_def)
qed

end
