(* ===== verification/HtmlHrefs.thy ===== *)
theory HtmlHrefs
  imports SharedStore
begin

text \<open>
  The function \<open>ns.html.hrefs\<close> of \<open>nsjs/nsjs.cc\<close>, which collects the targets of the anchors of an HTML
  text with pointers into a copy of it, in which it ends a tag or a value by writing a NUL. In the
  model a pointer is an index, and a read outside the buffer, which is undefined behaviour of C++,
  is the value None. The lemmas show what is read from well-formed documents, on which texts all
  reads are within the buffer, and on which they are not.
\<close>

subsection \<open>Reading the buffer\<close>

definition NUL :: char where "NUL = CHR 0x00"

definition rd :: "string \<Rightarrow> nat \<Rightarrow> char option" where
  "rd b i = (if i < length b then Some (b ! i) else None)"

lemma rd_Some: "rd b i = Some c \<longleftrightarrow> i < length b \<and> b ! i = c"
  by (simp add: rd_def)

text \<open>\<open>strchr(b + i, c)\<close>, the loops over blanks and up to a blank, and \<open>strncasecmp(b + i, "href", 4) == 0\<close>.\<close>

function strchr :: "string \<Rightarrow> char \<Rightarrow> nat \<Rightarrow> nat option option" where
  "strchr b c i = do {
     x \<leftarrow> rd b i;
     if x = c then Some (Some i) else if x = NUL then Some None else strchr b c (i + 1)
   }"
  by pat_completeness auto
termination by (relation "measure (\<lambda>(b, c, i). length b - i)") (auto simp: rd_Some)

function skip_space :: "string \<Rightarrow> nat \<Rightarrow> nat option" where
  "skip_space b i = do { x \<leftarrow> rd b i; if x \<noteq> NUL \<and> c_space x then skip_space b (i + 1) else Some i }"
  by pat_completeness auto
termination by (relation "measure (\<lambda>(b, i). length b - i)") (auto simp: rd_Some)

function to_space :: "string \<Rightarrow> nat \<Rightarrow> nat option" where
  "to_space b i = do { x \<leftarrow> rd b i; if x \<noteq> NUL \<and> \<not> c_space x then to_space b (i + 1) else Some i }"
  by pat_completeness auto
termination by (relation "measure (\<lambda>(b, i). length b - i)") (auto simp: rd_Some)

declare strchr.simps [simp del] skip_space.simps [simp del] to_space.simps [simp del]

definition href_at :: "string \<Rightarrow> nat \<Rightarrow> bool" where
  "href_at b i \<longleftrightarrow> map lower (take 4 (drop i b)) = ''href''"

lemma skip_space_le: "skip_space b i = Some j \<Longrightarrow> i \<le> j"
proof (induction b i rule: skip_space.induct)
  case (1 b i)
  from 1(2) have "rd b i = None \<or> (\<exists>x. rd b i = Some x)" by auto
  with 1 show ?case
    by (auto simp: skip_space.simps [of b i] bind_eq_Some_conv split: if_splits intro: Suc_leD)
qed

subsection \<open>The function\<close>

text \<open>The value that starts at an index: between quotes, or up to a blank.\<close>

definition quote :: "char \<Rightarrow> bool" where
  "quote c \<longleftrightarrow> c = CHR 0x27 \<or> c = CHR 0x22"

definition href_value :: "string \<Rightarrow> nat \<Rightarrow> string option" where
  "href_value b s = do {
     q \<leftarrow> rd b s;
     he \<leftarrow> (if quote q then strchr b q (s + 1) else Some None);
     let s' = (if quote q then s + 1 else s);
     he' \<leftarrow> (case he of Some h \<Rightarrow> Some h | None \<Rightarrow> to_space b s');
     Some (take (he' - s') (drop s' b))
   }"

text \<open>
  The loop over the attributes of an anchor. After \<open>href\<close> without a value it goes on behind the
  character at which it stands, which may be the NUL that ends the tag.
\<close>

function scan_href :: "string \<Rightarrow> nat \<Rightarrow> string option option" where
  "scan_href b s = do {
     c \<leftarrow> rd b s;
     if c = NUL then Some None
     else if href_at b s then do {
       s1 \<leftarrow> skip_space b (s + 4);
       c1 \<leftarrow> rd b s1;
       if c1 = CHR ''='' then do {
         s2 \<leftarrow> skip_space b (s1 + 1);
         v \<leftarrow> href_value b s2;
         Some (Some v)
       } else scan_href b (s1 + 1)
     } else scan_href b (s + 1)
   }"
  by pat_completeness auto
termination
  by (relation "measure (\<lambda>(b, s). length b - s)") (auto simp: rd_Some dest!: skip_space_le)

declare scan_href.simps [simp del]

definition scan_tag :: "string \<Rightarrow> nat \<Rightarrow> string option option" where
  "scan_tag b s = do {
     s1 \<leftarrow> skip_space b s;
     c \<leftarrow> rd b s1;
     if c = CHR ''a'' \<or> c = CHR ''A'' then do {
       c1 \<leftarrow> rd b (s1 + 1);
       if c_space c1 then scan_href b (s1 + 1) else Some None
     } else Some None
   }"

lemma strchr_found: "strchr b c i = Some (Some j) \<Longrightarrow> i \<le> j \<and> j < length b"
proof (induction b c i rule: strchr.induct)
  case (1 b c i)
  then show ?case
    by (auto simp: strchr.simps [of b c i] bind_eq_Some_conv rd_Some split: if_splits)
qed

function hrefs_loop :: "string \<Rightarrow> nat \<Rightarrow> string list option" where
  "hrefs_loop b p = do {
     s \<leftarrow> strchr b (CHR ''<'') p;
     case s of
       None \<Rightarrow> Some []
     | Some s \<Rightarrow> do {
         e \<leftarrow> strchr b (CHR ''>'') s;
         case e of
           None \<Rightarrow> Some []
         | Some e \<Rightarrow> do {
             found \<leftarrow> scan_tag (b[e := NUL]) (s + 1);
             rest \<leftarrow> hrefs_loop b (e + 1);
             Some (case found of None \<Rightarrow> rest | Some v \<Rightarrow> v # rest)
           }
       }
   }"
  by pat_completeness auto
termination
  by (relation "measure (\<lambda>(b, p). length b - p)") (auto dest!: strchr_found)

declare hrefs_loop.simps [simp del]

definition JsHtmlHrefs :: "string list \<Rightarrow> string list option" where
  "JsHtmlHrefs args = (case args of [] \<Rightarrow> Some [] | html # _ \<Rightarrow> hrefs_loop (html @ [NUL]) 0)"


subsection \<open>Loops that end at a NUL\<close>

lemma c_space_NUL [simp]: "\<not> c_space NUL"
  by (simp add: c_space_def NUL_def)

lemma rd_at [simp]: "i < length b \<Longrightarrow> rd b i = Some (b ! i)"
  by (simp add: rd_def)

lemma skip_space_total:
  assumes "i \<le> k" "k < length b" "b ! k = NUL"
  shows "\<exists>j. skip_space b i = Some j \<and> i \<le> j \<and> j \<le> k \<and> (\<forall>m. i \<le> m \<and> m < j \<longrightarrow> c_space (b ! m)) \<and> \<not> c_space (b ! j)"
  using assms
proof (induction b i rule: skip_space.induct)
  case (1 b i)
  show ?case
  proof (cases "b ! i \<noteq> NUL \<and> c_space (b ! i)")
    case True
    with "1.prems" have i: "i < k" by (cases "i = k") auto
    with 1 True obtain j where j: "skip_space b (i + 1) = Some j" "i + 1 \<le> j" "j \<le> k"
      "\<forall>m. i + 1 \<le> m \<and> m < j \<longrightarrow> c_space (b ! m)" "\<not> c_space (b ! j)"
      by fastforce
    have "\<forall>m. i \<le> m \<and> m < j \<longrightarrow> c_space (b ! m)" using j(4) True by (metis Suc_eq_plus1 le_antisym not_less_eq_eq)
    with j True "1.prems" i show ?thesis by (simp add: skip_space.simps [of b i])
  next
    case False
    with "1.prems" show ?thesis by (auto simp: skip_space.simps [of b i])
  qed
qed

lemma to_space_total:
  assumes "i \<le> k" "k < length b" "b ! k = NUL"
  shows "\<exists>j. to_space b i = Some j"
  using assms
proof (induction b i rule: to_space.induct)
  case (1 b i)
  show ?case
  proof (cases "b ! i \<noteq> NUL \<and> \<not> c_space (b ! i)")
    case True
    with "1.prems" have "i < k" by (cases "i = k") auto
    with 1 True show ?thesis by (simp add: to_space.simps [of b i])
  next
    case False
    with "1.prems" show ?thesis by (auto simp: to_space.simps [of b i])
  qed
qed

lemma strchr_total:
  assumes "i \<le> k" "k < length b" "b ! k = NUL"
  shows "\<exists>r. strchr b c i = Some r"
  using assms
proof (induction b c i rule: strchr.induct)
  case (1 b c i)
  show ?case
  proof (cases "b ! i = c \<or> b ! i = NUL")
    case False
    with "1.prems" have "i < k" by (cases "i = k") auto
    with 1 False show ?thesis by (simp add: strchr.simps [of b c i])
  next
    case True
    with "1.prems" show ?thesis by (auto simp: strchr.simps [of b c i])
  qed
qed

lemma strchr_char: "strchr b c i = Some (Some j) \<Longrightarrow> b ! j = c"
proof (induction b c i rule: strchr.induct)
  case (1 b c i)
  then show ?case
    by (auto simp: strchr.simps [of b c i] bind_eq_Some_conv rd_Some split: if_splits)
qed

lemma href_value_total:
  assumes "i \<le> k" "k < length b" "b ! k = NUL"
  shows "\<exists>v. href_value b i = Some v"
proof (cases "quote (b ! i)")
  case True
  with assms have "i < k" by (cases "i = k") (auto simp: quote_def NUL_def)
  then have "i + 1 \<le> k" by simp
  from strchr_total [OF this assms(2,3), of "b ! i"] to_space_total [OF this assms(2,3)] True assms \<open>i < k\<close>
  show ?thesis by (auto simp: href_value_def split: option.splits)
next
  case False
  with assms to_space_total [OF assms] show ?thesis by (auto simp: href_value_def)
qed

subsection \<open>Reads within the buffer\<close>

text \<open>An occurrence of \<open>href\<close> in the text after which only blanks stand before a \<open>>\<close> or the end.\<close>

definition valueless_at :: "string \<Rightarrow> nat \<Rightarrow> bool" where
  "valueless_at h i \<longleftrightarrow> href_at h i \<and>
     (case dropWhile c_space (drop (i + 4) h) of [] \<Rightarrow> True | c # _ \<Rightarrow> c = CHR ''>'' \<or> c = NUL)"

definition has_valueless :: "string \<Rightarrow> bool" where
  "has_valueless h \<longleftrightarrow> (\<exists>i < length h. valueless_at h i)"

text \<open>A text, and the buffer while a tag of it is ended by a NUL.\<close>

definition tag_buffer :: "string \<Rightarrow> nat \<Rightarrow> string" where
  "tag_buffer h e = (h @ [NUL])[e := NUL]"

lemma lower_NUL [simp]: "lower NUL = NUL"
  by (simp add: lower_def NUL_def)

lemma href_at_char:
  assumes "href_at b i"
  shows "i + 4 \<le> length b" "m < 4 \<Longrightarrow> b ! (i + m) \<noteq> NUL"
proof -
  from assms have eq: "map lower (take 4 (drop i b)) = ''href''" by (simp add: href_at_def)
  from arg_cong [where f = length, OF this] have len: "length (take 4 (drop i b)) = 4" by simp
  then show "i + 4 \<le> length b" by (simp add: min_def split: if_splits)
  assume m: "m < 4"
  have "map lower (take 4 (drop i b)) ! m = lower (b ! (i + m))"
    using m len by (subst nth_map) (simp_all add: min_def split: if_splits)
  then have "lower (b ! (i + m)) = ''href'' ! m" using eq by simp
  moreover have "\<forall>m < 4. ''href'' ! m \<noteq> NUL" by (simp add: NUL_def All_less_Suc numeral_eq_Suc)
  ultimately show "b ! (i + m) \<noteq> NUL" using m by auto
qed


text \<open>Where the buffer has no NUL, it is the text.\<close>

lemma tag_buffer_nth:
  "j < length (tag_buffer h e) \<Longrightarrow> tag_buffer h e ! j \<noteq> NUL \<Longrightarrow> j < length h \<and> h ! j = tag_buffer h e ! j"
  by (cases "j = e") (auto simp: tag_buffer_def nth_append nth_list_update less_Suc_eq)

lemma tag_buffer_NUL:
  "h ! e = CHR ''>'' \<Longrightarrow> j < length (tag_buffer h e) \<Longrightarrow> tag_buffer h e ! j = NUL \<Longrightarrow>
     length h \<le> j \<or> h ! j = CHR ''>'' \<or> h ! j = NUL"
  by (cases "j = e") (auto simp: tag_buffer_def nth_append nth_list_update less_Suc_eq split: if_splits)

lemma href_at_text:
  assumes "href_at (tag_buffer h e) i"
  shows "href_at h i"
proof -
  let ?b = "tag_buffer h e"
  have "take 4 (drop i ?b) = take 4 (drop i h)"
  proof (rule nth_equalityI)
    have in_text: "i + m < length h \<and> h ! (i + m) = ?b ! (i + m)" if "m < 4" for m
      using that href_at_char [OF assms] by (intro tag_buffer_nth) auto
    from in_text [of 3] show "length (take 4 (drop i ?b)) = length (take 4 (drop i h))"
      using href_at_char(1) [OF assms] by (simp add: min_def) arith
    fix m assume "m < length (take 4 (drop i ?b))"
    with in_text [of m] href_at_char(1) [OF assms] show "take 4 (drop i ?b) ! m = take 4 (drop i h) ! m" by simp
  qed
  with assms show ?thesis by (simp add: href_at_def)
qed

lemma dropWhile_drop:
  "i \<le> j \<Longrightarrow> j \<le> length xs \<Longrightarrow> (\<forall>m. i \<le> m \<and> m < j \<longrightarrow> P (xs ! m)) \<Longrightarrow>
     dropWhile P (drop i xs) = dropWhile P (drop j xs)"
proof (induction "j - i" arbitrary: i)
  case (Suc n)
  then have "i < j" "P (xs ! i)" by auto
  then have "dropWhile P (drop i xs) = dropWhile P (drop (i + 1) xs)"
    using Suc.prems by (simp add: Cons_nth_drop_Suc [symmetric])
  also have "\<dots> = dropWhile P (drop j xs)" using Suc by (intro Suc.hyps(1)) auto
  finally show ?case .
qed simp

lemma valueless_at_end:
  assumes "href_at (tag_buffer h e) s" "h ! e = CHR ''>''"
    and j: "skip_space (tag_buffer h e) (s + 4) = Some j" "tag_buffer h e ! j = NUL" "j < length (tag_buffer h e)"
      "s + 4 \<le> j" "\<forall>m. s + 4 \<le> m \<and> m < j \<longrightarrow> c_space (tag_buffer h e ! m)"
  shows "valueless_at h s"
proof -
  let ?b = "tag_buffer h e"
  have blanks: "m < length h \<and> c_space (h ! m)" if "s + 4 \<le> m" "m < j" for m
    using tag_buffer_nth [of m h e] j(3,5) that by (metis c_space_NUL less_trans)
  have le: "j \<le> length h"
    using j(3) by (simp add: tag_buffer_def)
  have "dropWhile c_space (drop (s + 4) h) = dropWhile c_space (drop j h)"
    using blanks j(4) le by (intro dropWhile_drop) auto
  moreover have "length h \<le> j \<or> h ! j = CHR ''>'' \<or> h ! j = NUL"
    using tag_buffer_NUL [OF assms(2) j(3,2)] .
  moreover have "\<not> c_space (CHR ''>'')" by (simp add: c_space_def)
  ultimately have "case dropWhile c_space (drop (s + 4) h) of [] \<Rightarrow> True | c # _ \<Rightarrow> c = CHR ''>'' \<or> c = NUL"
    using Cons_nth_drop_Suc [of j h, symmetric] le by (cases "j = length h") (auto simp del: dropWhile_eq_Nil_conv)
  with href_at_text [OF assms(1)] show ?thesis by (simp add: valueless_at_def)
qed

lemma scan_href_total:
  assumes "\<not> has_valueless h" "h ! e = CHR ''>''"
  shows "s \<le> k \<Longrightarrow> k < length (tag_buffer h e) \<Longrightarrow> tag_buffer h e ! k = NUL \<Longrightarrow>
    \<exists>r. scan_href (tag_buffer h e) s = Some r"
proof (induction "k - s" arbitrary: s rule: less_induct)
  case less
  let ?b = "tag_buffer h e"
  consider "?b ! s = NUL" | "?b ! s \<noteq> NUL" "\<not> href_at ?b s" | "?b ! s \<noteq> NUL" "href_at ?b s" by blast
  then show ?case
  proof cases
    case 1
    with less.prems show ?thesis by (simp add: scan_href.simps [of ?b s])
  next
    case 2
    with less.prems have "s < k" by (cases "s = k") auto
    with 2 less show ?thesis by (simp add: scan_href.simps [of ?b s])
  next
    case 3
    have "k \<noteq> s + m" if "m < 4" for m using href_at_char(2) [OF 3(2) that] less.prems(3) by auto
    from this [of 0] this [of 1] this [of 2] this [of 3] less.prems(1) have "s + 4 \<le> k" by simp
    with skip_space_total [OF this less.prems(2,3)] obtain j where
      j: "skip_space ?b (s + 4) = Some j" "s + 4 \<le> j" "j \<le> k" "\<forall>m. s + 4 \<le> m \<and> m < j \<longrightarrow> c_space (?b ! m)" by blast
    have "s < length h" using tag_buffer_nth [of s h e] 3(1) less.prems by simp
    with assms(1) have "\<not> valueless_at h s" by (auto simp: has_valueless_def)
    then have nz: "?b ! j \<noteq> NUL" using valueless_at_end [OF 3(2) assms(2) j(1)] j less.prems by fastforce
    with j(3) less.prems have jk: "j + 1 \<le> k" by (cases "j = k") auto
    show ?thesis
    proof (cases "?b ! j = CHR ''=''")
      case True
      obtain j2 where j2: "skip_space ?b (j + 1) = Some j2" "j2 \<le> k" using skip_space_total [OF jk less.prems(2,3)] by blast
      with href_value_total [OF j2(2) less.prems(2,3)] True 3 j less.prems show ?thesis
        by (auto simp: scan_href.simps [of ?b s])
    next
      case False
      with less.hyps [of "j + 1"] jk j 3 less.prems show ?thesis by (auto simp: scan_href.simps [of ?b s])
    qed
  qed
qed


lemma scan_tag_total:
  assumes "\<not> has_valueless h" "h ! e = CHR ''>''" "e < length h" "s \<le> e"
  shows "\<exists>r. scan_tag (tag_buffer h e) s = Some r"
proof -
  let ?b = "tag_buffer h e"
  have k: "e < length ?b" "?b ! e = NUL" using assms(3) by (simp_all add: tag_buffer_def)
  obtain j where j: "skip_space ?b s = Some j" "j \<le> e" using skip_space_total [OF assms(4) k] by blast
  show ?thesis
  proof (cases "?b ! j = CHR ''a'' \<or> ?b ! j = CHR ''A''")
    case True
    with j(2) k have "j + 1 \<le> e" by (cases "j = e") (auto simp: NUL_def)
    from scan_href_total [OF assms(1,2) this k] show ?thesis
      using True j k \<open>j + 1 \<le> e\<close> by (auto simp: scan_tag_def)
  next
    case False
    with j k show ?thesis by (auto simp: scan_tag_def)
  qed
qed

lemma hrefs_loop_total:
  assumes "\<not> has_valueless h"
  shows "p \<le> length h \<Longrightarrow> \<exists>r. hrefs_loop (h @ [NUL]) p = Some r"
proof (induction "length h - p" arbitrary: p rule: less_induct)
  case less
  let ?b = "h @ [NUL]"
  have k: "length h < length ?b" "?b ! length h = NUL" by simp_all
  obtain so where so: "strchr ?b (CHR ''<'') p = Some so" using strchr_total [OF less.prems k] by blast
  show ?case
  proof (cases so)
    case None
    with so show ?thesis by (simp add: hrefs_loop.simps [of ?b p])
  next
    case (Some s)
    then have s: "p \<le> s" "?b ! s = CHR ''<''" "s \<le> length h" using strchr_found [of ?b] strchr_char [of ?b] so by fastforce+
    obtain eo where eo: "strchr ?b (CHR ''>'') s = Some eo" using strchr_total [OF s(3) k] by blast
    show ?thesis
    proof (cases eo)
      case None
      with so eo Some show ?thesis by (simp add: hrefs_loop.simps [of ?b p])
    next
      case (Some e)
      then have e: "s \<le> e" "?b ! e = CHR ''>''" "e < length ?b" using strchr_found [of ?b] strchr_char [of ?b] eo by fastforce+
      then have e': "e < length h" "h ! e = CHR ''>''" by (auto simp: nth_append NUL_def split: if_splits)
      have "s \<noteq> e" using s(2) e(2) by auto
      then obtain found where "scan_tag (tag_buffer h e) (s + 1) = Some found"
        using scan_tag_total [OF assms e'(2,1), of "s + 1"] e(1) by auto
      moreover obtain rest where "hrefs_loop ?b (e + 1) = Some rest"
        using less.hyps [of "e + 1"] e e' s by force
      ultimately show ?thesis
        using so eo \<open>so = Some s\<close> Some by (simp add: hrefs_loop.simps [of ?b p] tag_buffer_def)
    qed
  qed
qed

text \<open>
  Claim C15. On every text in which each occurrence of \<open>href\<close> is followed, after blanks, by something
  other than a \<open>>\<close> or the end, \<open>hrefs\<close> returns, and all its reads are within its buffer: with
  unclosed tags, unclosed quotes, and NULs in the text.
\<close>

theorem hrefs_in_bounds:
  assumes "\<not> has_valueless html"
  shows "\<exists>urls. JsHtmlHrefs [html] = Some urls"
  using hrefs_loop_total [OF assms, of 0] by (simp add: JsHtmlHrefs_def)

definition some_html :: string where
  "some_html = ''<a href=>x</a> <A HREF ='' @ [CHR 0x22] @ ''b> <a href=c d>''"

lemma valueless_at_Cons: "valueless_at (c # h) (Suc i) = valueless_at h i"
proof -
  have "drop (Suc i + 4) (c # h) = drop (i + 4) h" by (simp only: add_Suc drop_Suc_Cons)
  then show ?thesis unfolding valueless_at_def href_at_def by simp
qed

lemma has_valueless_simps:
  "has_valueless [] \<longleftrightarrow> False"
  "has_valueless (c # h) \<longleftrightarrow> valueless_at (c # h) 0 \<or> has_valueless h"
  by (auto simp: has_valueless_def less_Suc_eq_0_disj valueless_at_Cons)

lemma hrefs_in_bounds_witness: "\<exists>urls. JsHtmlHrefs [some_html] = Some urls"
proof (rule hrefs_in_bounds)
  show "\<not> has_valueless some_html"
    by (simp add: some_html_def has_valueless_simps valueless_at_def href_at_def lower_def c_space_def NUL_def)
qed

lemma some_hrefs: "JsHtmlHrefs [some_html] = Some ['''', [CHR ''b''], [CHR ''c'']]"
  by code_simp


subsection \<open>Reading at a known position\<close>

named_theorems hreads \<open>the loops over the buffer at a known position\<close>

lemma rd_append [hreads]: "rd (pre @ c # rest) (length pre) = Some c"
  by simp

lemma strchr_append [hreads]:
  "c \<notin> set mid \<Longrightarrow> NUL \<notin> set mid \<Longrightarrow>
     strchr (pre @ mid @ c # rest) c (length pre) = Some (Some (length (pre @ mid)))"
proof (induction mid arbitrary: pre)
  case Nil
  then show ?case by (subst strchr.simps) (simp add: hreads)
next
  case (Cons x mid)
  from Cons.IH [of "pre @ [x]"] Cons.prems show ?case by (subst strchr.simps) (auto simp: hreads)
qed


lemma skip_space_append [hreads]:
  "list_all c_space sp \<Longrightarrow> \<not> c_space c \<Longrightarrow>
     skip_space (pre @ sp @ c # rest) (length pre) = Some (length (pre @ sp))"
proof (induction sp arbitrary: pre)
  case Nil
  then show ?case by (subst skip_space.simps) (simp add: hreads)
next
  case (Cons x sp)
  then have "x \<noteq> NUL" by auto
  with Cons.IH [of "pre @ [x]"] Cons.prems show ?case by (subst skip_space.simps) (simp add: hreads)
qed

lemma href_at_shift: "href_at (pre @ b) (length pre + i) = href_at b i"
  by (simp add: href_at_def)

lemma href_at_prefix: "i + 4 \<le> length x \<Longrightarrow> href_at (x @ y) i = href_at x i"
  by (simp add: href_at_def)

text \<open>No occurrence of \<open>href\<close> starts in \<open>t\<close> when \<open>t\<close> stands before \<open>u\<close>.\<close>

definition no_href :: "string \<Rightarrow> string \<Rightarrow> bool" where
  "no_href t u \<longleftrightarrow> (\<forall>i < length t. \<not> href_at (t @ u) i)"

lemma no_href_append: "3 \<le> length u \<Longrightarrow> no_href t u \<Longrightarrow> no_href t (u @ v)"
  using href_at_prefix [of _ "t @ u" v] by (auto simp: no_href_def)

lemma no_href_simps:
  "no_href [] u \<longleftrightarrow> True"
  "no_href (c # t) u \<longleftrightarrow> \<not> href_at (c # t @ u) 0 \<and> no_href t u"
  using href_at_shift [of "[c]" "t @ u"] by (auto simp: no_href_def less_Suc_eq_0_disj)

lemma scan_href_skip:
  "NUL \<notin> set t \<Longrightarrow> no_href t rest \<Longrightarrow> scan_href (pre @ t @ rest) (length pre) = scan_href (pre @ t @ rest) (length (pre @ t))"
proof (induction t arbitrary: pre)
  case (Cons c t)
  have "\<not> href_at (pre @ (c # t) @ rest) (length pre)"
    using Cons.prems(2)[unfolded no_href_simps] href_at_shift [of pre "(c # t) @ rest" 0] by simp
  moreover have "scan_href ((pre @ [c]) @ t @ rest) (length (pre @ [c])) = scan_href ((pre @ [c]) @ t @ rest) (length ((pre @ [c]) @ t))"
    using Cons.prems by (intro Cons.IH) (auto simp: no_href_simps)
  ultimately show ?case using Cons.prems(1) by (subst scan_href.simps) auto
qed simp

text \<open>The step at an occurrence of \<open>href\<close> that is not followed by an equals sign.\<close>

definition href_word :: "string \<Rightarrow> bool" where
  "href_word w \<longleftrightarrow> length w = 4 \<and> href_at w 0"

lemma href_word_at: "href_word w \<Longrightarrow> href_at (pre @ w @ rest) (length pre)"
  using href_at_shift [of pre "w @ rest" 0] href_at_prefix [of 0 w rest] by (simp add: href_word_def)

lemma href_word_NUL: "href_word w \<Longrightarrow> \<exists>c cs. w = c # cs \<and> c \<noteq> NUL"
  using href_at_char(2) [of w 0 0] by (cases w) (auto simp: href_word_def)

lemma scan_href_valueless:
  assumes "href_word w" "list_all c_space sp" "\<not> c_space c" "c \<noteq> CHR ''=''"
  shows "scan_href (pre @ w @ sp @ c # rest) (length pre) = scan_href (pre @ w @ sp @ c # rest) (length (pre @ w @ sp) + 1)"
proof -
  obtain a as where w: "w = a # as" "a \<noteq> NUL" using href_word_NUL [OF assms(1)] by blast
  have len: "length (pre @ w) = length pre + 4" using assms(1) by (simp add: href_word_def)
  have "skip_space (pre @ w @ sp @ c # rest) (length pre + 4) = Some (length (pre @ w @ sp))"
    using skip_space_append [OF assms(2,3), of "pre @ w" rest] len by simp
  moreover have "rd (pre @ w @ sp @ c # rest) (length (pre @ w @ sp)) = Some c"
    using rd_append [of "pre @ w @ sp" c rest] by simp
  moreover have "rd (pre @ w @ sp @ c # rest) (length pre) = Some a" using w by simp
  moreover have "href_at (pre @ w @ sp @ c # rest) (length pre)" using href_word_at [OF assms(1), of pre "sp @ c # rest"] .
  ultimately show ?thesis using assms(4) w(2) by (subst scan_href.simps) simp
qed


subsection \<open>Reads beyond the buffer\<close>

text \<open>
  Claim C31. An anchor whose \<open>href\<close> has no value makes the function read on into the text behind the
  tag, and when that text ends with \<open>href\<close> it reads beyond its buffer: for every such text the
  behaviour is undefined. A page that passes text of its users to \<open>hrefs\<close> is open to this.
\<close>

theorem hrefs_overread:
  assumes "NUL \<notin> set t" "no_href t ''href''"
  shows "JsHtmlHrefs [''<a href>'' @ t @ ''href''] = None"
proof -
  let ?h = "''<a href>'' @ t @ ''href''"
  let ?b = "''<a href'' @ NUL # t @ ''href'' @ [NUL]"
  have word: "href_word ''href''" by (simp add: href_word_def href_at_def lower_def)
  have nul: "\<not> c_space NUL" "NUL \<noteq> CHR ''=''" by (simp, simp add: NUL_def)
  have s: "strchr (?h @ [NUL]) (CHR ''<'') 0 = Some (Some 0)"
    using strchr_append [of "CHR ''<''" "[]" "[]" "''a href>'' @ t @ ''href'' @ [NUL]"] by simp
  have e: "strchr (?h @ [NUL]) (CHR ''>'') 0 = Some (Some 7)"
    using strchr_append [of "CHR ''>''" "''<a href''" "[]" "t @ ''href'' @ [NUL]"] by (simp add: NUL_def)
  have "scan_href ?b (length ''<a'') = scan_href ?b (length ''<a '')"
    using scan_href_skip [of "'' ''" "''href'' @ NUL # t @ ''href'' @ [NUL]" "''<a''"]
    by (simp add: NUL_def no_href_def href_at_def lower_def c_space_def)
  also have "\<dots> = scan_href ?b (length (''<a href'' @ [NUL]))"
    using scan_href_valueless [OF word _ nul, of "[]" "''<a ''" "t @ ''href'' @ [NUL]"] by simp
  also have "\<dots> = scan_href ?b (length (''<a href'' @ NUL # t))"
    using scan_href_skip [OF assms(1) no_href_append [OF _ assms(2), of "[NUL]"], of "''<a href'' @ [NUL]"] by simp
  also have "\<dots> = scan_href ?b (length ?b)"
    using scan_href_valueless [OF word _ nul, of "[]" "''<a href'' @ NUL # t" "[]"] by simp
  also have "\<dots> = None" by (subst scan_href.simps) (simp add: rd_def)
  finally have "scan_href ?b (Suc (Suc 0)) = None" by simp
  moreover have "skip_space ?b 1 = Some 1"
    using skip_space_append [of "[]" "CHR ''a''" "''<''" "'' href'' @ NUL # t @ ''href'' @ [NUL]"] by (simp add: c_space_def)
  ultimately have "scan_tag ?b 1 = None" by (simp add: scan_tag_def c_space_def)
  moreover have "(?h @ [NUL])[7 := NUL] = ?b" by simp
  ultimately have "hrefs_loop (?h @ [NUL]) 0 = None"
    using s e by (subst hrefs_loop.simps) simp
  then show ?thesis by (simp add: JsHtmlHrefs_def)
qed

lemma hrefs_overread_witness: "JsHtmlHrefs [''<a href>see href''] = None"
  using hrefs_overread [of "''see ''"] by (simp add: NUL_def no_href_simps href_at_def lower_def)

text \<open>The target of plain text behind such a tag is reported as a link.\<close>

lemma href_of_plain_text: "JsHtmlHrefs [''<a href>the href=here is text''] = Some [''here'']"
  by code_simp

subsection \<open>Well-formed documents\<close>


















end
