(* ===== verification/NsSets.thy ===== *)
theory NsSets
  imports SharedStore
begin

text \<open>
  The sets \<open>ns.set\<close> of \<open>nsjs/nsjs.cc\<close> over \<open>nsd/set.c\<close>: fields of a key and a value, in the order in
  which they were put, in an array that grows. JavaScript knows a set by a number. In the model a
  read outside the array, which is undefined behaviour of C, is the value None. The lemmas show
  that the sets are lists of fields, and on which calls the array is read outside.
\<close>

subsection \<open>The sets of the web server\<close>

text \<open>The array, with fields that were never written, and how many of it are in use.\<close>

type_synonym field = "string \<times> string"

record ns_set =
  s_size :: nat
  s_fields :: "field option list"

definition Ns_SetCreate :: ns_set where
  "Ns_SetCreate = \<lparr>s_size = 0, s_fields = replicate 10 None\<rparr>"

definition Ns_SetPut :: "string \<Rightarrow> string \<Rightarrow> ns_set \<Rightarrow> nat \<times> ns_set" where
  "Ns_SetPut key val s =
     (let index = s_size s;
          n = index + 1;
          fields = (if length (s_fields s) < n
                    then s_fields s @ replicate (n * 2 - length (s_fields s)) None else s_fields s)
      in (index, \<lparr>s_size = n, s_fields = fields[index := Some (key, val)]\<rparr>))"

text \<open>The first field whose key is equal under a comparison, or -1.\<close>

function find_from :: "(string \<Rightarrow> string \<Rightarrow> bool) \<Rightarrow> string \<Rightarrow> ns_set \<Rightarrow> nat \<Rightarrow> int" where
  "find_from cmp key s i =
     (if i < s_size s
      then (case s_fields s ! i of
              Some (name, _) \<Rightarrow> if cmp key name then int i else find_from cmp key s (i + 1)
            | None \<Rightarrow> find_from cmp key s (i + 1))
      else -1)"
  by pat_completeness auto
termination by (relation "measure (\<lambda>(cmp, key, s, i). s_size s - i)") auto

declare find_from.simps [simp del]

definition Ns_SetFindCmp :: "(string \<Rightarrow> string \<Rightarrow> bool) \<Rightarrow> string \<Rightarrow> ns_set \<Rightarrow> int" where
  "Ns_SetFindCmp cmp key s = find_from cmp key s 0"

definition Ns_SetGetCmp :: "(string \<Rightarrow> string \<Rightarrow> bool) \<Rightarrow> string \<Rightarrow> ns_set \<Rightarrow> string option" where
  "Ns_SetGetCmp cmp key s =
     (let i = Ns_SetFindCmp cmp key s in if i = -1 then None else map_option snd (s_fields s ! nat i))"

definition strcmp :: "string \<Rightarrow> string \<Rightarrow> bool" where
  "strcmp a b \<longleftrightarrow> a = b"

definition strcasecmp :: "string \<Rightarrow> string \<Rightarrow> bool" where
  "strcasecmp a b \<longleftrightarrow> map lower a = map lower b"

text \<open>
  The loop of \<open>Ns_SetDelete\<close> moves each field from the index to the last one used into its place
  from the next place, and so reads the place behind the last field.
\<close>

function shift_fields :: "nat \<Rightarrow> nat \<Rightarrow> field option list \<Rightarrow> field option list option" where
  "shift_fields n i a =
     (if i < n
      then if i + 1 < length a then shift_fields n (i + 1) (a[i := a ! (i + 1)]) else None
      else Some a)"
  by pat_completeness auto
termination by (relation "measure (\<lambda>(n, i, a). n - i)") auto

declare shift_fields.simps [simp del]

definition Ns_SetDelete :: "int \<Rightarrow> ns_set \<Rightarrow> ns_set option" where
  "Ns_SetDelete index s =
     (if index \<noteq> -1 \<and> index < int (s_size s)
      then if index < 0 then None
           else map_option (\<lambda>a. \<lparr>s_size = s_size s - 1, s_fields = a\<rparr>) (shift_fields (s_size s) (nat index) (s_fields s))
      else Some s)"

definition Ns_SetUpdate :: "string \<Rightarrow> string \<Rightarrow> ns_set \<Rightarrow> ns_set option" where
  "Ns_SetUpdate key val s = map_option (\<lambda>s. snd (Ns_SetPut key val s)) (Ns_SetDelete (Ns_SetFindCmp strcmp key s) s)"

subsection \<open>The calls of JavaScript\<close>

text \<open>The table of the sets and the counter of their numbers, a signed int of 32 bits.\<close>

record set_table =
  js_set_next_id :: int
  js_set_map :: "int \<rightharpoonup> ns_set"

definition JsSetCreate :: "set_table \<Rightarrow> (int \<times> set_table) option" where
  "JsSetCreate t =
     (let h = js_set_next_id t + 1
      in if h < 2 ^ 31 then Some (h, \<lparr>js_set_next_id = h, js_set_map = (js_set_map t)(h \<mapsto> Ns_SetCreate)\<rparr>)
         else None)"

text \<open>A call on a set replaces the set in the table; without a set it has no effect.\<close>

definition on_set :: "int \<Rightarrow> (ns_set \<Rightarrow> ns_set option) \<Rightarrow> set_table \<Rightarrow> set_table option" where
  "on_set h f t = (case js_set_map t h of
       None \<Rightarrow> Some t
     | Some s \<Rightarrow> map_option (\<lambda>s'. t\<lparr>js_set_map := (js_set_map t)(h \<mapsto> s')\<rparr>) (f s))"

definition JsSetPut :: "int \<Rightarrow> string \<Rightarrow> string \<Rightarrow> set_table \<Rightarrow> int \<times> set_table" where
  "JsSetPut h key val t = (case js_set_map t h of
       None \<Rightarrow> (-1, t)
     | Some s \<Rightarrow> (let (idx, s') = Ns_SetPut (c_str key) (c_str val) s
                  in (int idx, t\<lparr>js_set_map := (js_set_map t)(h \<mapsto> s')\<rparr>)))"

definition JsSetUpdate :: "int \<Rightarrow> string \<Rightarrow> string \<Rightarrow> set_table \<Rightarrow> set_table option" where
  "JsSetUpdate h key val t = on_set h (Ns_SetUpdate (c_str key) (c_str val)) t"

definition JsSetDelete :: "int \<Rightarrow> int \<Rightarrow> set_table \<Rightarrow> set_table option" where
  "JsSetDelete h idx t = on_set h (\<lambda>s. if 0 \<le> idx \<and> idx < int (s_size s) then Ns_SetDelete idx s else Some s) t"

definition JsSetFree :: "int \<Rightarrow> set_table \<Rightarrow> set_table" where
  "JsSetFree h t = t\<lparr>js_set_map := (js_set_map t)(h := None)\<rparr>"

definition JsSetGet :: "int \<Rightarrow> string \<Rightarrow> set_table \<Rightarrow> string option" where
  "JsSetGet h key t = Option.bind (js_set_map t h) (Ns_SetGetCmp strcmp (c_str key))"

definition JsSetIGet :: "int \<Rightarrow> string \<Rightarrow> set_table \<Rightarrow> string option" where
  "JsSetIGet h key t = Option.bind (js_set_map t h) (Ns_SetGetCmp strcasecmp (c_str key))"

definition JsSetFind :: "int \<Rightarrow> string \<Rightarrow> set_table \<Rightarrow> int" where
  "JsSetFind h key t = (case js_set_map t h of None \<Rightarrow> -1 | Some s \<Rightarrow> Ns_SetFindCmp strcmp (c_str key) s)"

definition JsSetSize :: "int \<Rightarrow> set_table \<Rightarrow> nat" where
  "JsSetSize h t = (case js_set_map t h of None \<Rightarrow> 0 | Some s \<Rightarrow> s_size s)"

text \<open>The key and the value at an index; out of range it is null.\<close>

definition field_at :: "int \<Rightarrow> int \<Rightarrow> set_table \<Rightarrow> field option" where
  "field_at h idx t = (case js_set_map t h of
       None \<Rightarrow> None
     | Some s \<Rightarrow> if idx < 0 \<or> int (s_size s) \<le> idx then None else s_fields s ! nat idx)"

definition JsSetKey :: "int \<Rightarrow> int \<Rightarrow> set_table \<Rightarrow> string option" where
  "JsSetKey h idx t = map_option fst (field_at h idx t)"

definition JsSetValue :: "int \<Rightarrow> int \<Rightarrow> set_table \<Rightarrow> string option" where
  "JsSetValue h idx t = map_option snd (field_at h idx t)"

text \<open>The properties of the object in the order in which they are set.\<close>

definition JsSetToObject :: "int \<Rightarrow> set_table \<Rightarrow> field list option" where
  "JsSetToObject h t =
     map_option (\<lambda>s. fold (\<lambda>f ps. case f of None \<Rightarrow> ps | Some (k, v) \<Rightarrow> AList.update k v ps)
       (take (s_size s) (s_fields s)) []) (js_set_map t h)"


subsection \<open>A set and the list of its fields\<close>

text \<open>The set holds a list of fields: they are the first ones of the array, which has ten places at least.\<close>

definition holds :: "ns_set \<Rightarrow> field list \<Rightarrow> bool" where
  "holds s xs \<longleftrightarrow> (\<exists>rest. s = \<lparr>s_size = length xs, s_fields = map Some xs @ rest\<rparr> \<and> 10 \<le> length (s_fields s))"

definition fields_of :: "ns_set \<Rightarrow> field list" where
  "fields_of s = map the (take (s_size s) (s_fields s))"

lemma fields_of_holds: "holds s xs \<Longrightarrow> fields_of s = xs"
  by (auto simp: holds_def fields_of_def comp_def)

lemma size_holds: "holds s xs \<Longrightarrow> s_size s = length xs \<and> length xs \<le> length (s_fields s)"
  by (auto simp: holds_def)

lemma nth_holds: "holds s xs \<Longrightarrow> i < length xs \<Longrightarrow> s_fields s ! i = Some (xs ! i)"
  by (auto simp: holds_def nth_append)

lemma holds_create: "holds Ns_SetCreate []"
  by (simp add: holds_def Ns_SetCreate_def)

lemma holds_put:
  assumes "holds s xs"
  shows "Ns_SetPut key val s = (length xs, snd (Ns_SetPut key val s))" "holds (snd (Ns_SetPut key val s)) (xs @ [(key, val)])"
proof -
  obtain rest where s: "s = \<lparr>s_size = length xs, s_fields = map Some xs @ rest\<rparr>" "10 \<le> length (s_fields s)"
    using assms by (auto simp: holds_def)
  then show "Ns_SetPut key val s = (length xs, snd (Ns_SetPut key val s))" by (simp add: Ns_SetPut_def Let_def)
  show "holds (snd (Ns_SetPut key val s)) (xs @ [(key, val)])"
  proof (cases rest)
    case Nil
    with s have "snd (Ns_SetPut key val s) =
        \<lparr>s_size = length xs + 1, s_fields = map Some (xs @ [(key, val)]) @ replicate (length xs + 1) None\<rparr>"
      by (simp add: Ns_SetPut_def Let_def list_update_append)
    with s Nil show ?thesis by (simp add: holds_def)
  next
    case (Cons r rs)
    with s have "snd (Ns_SetPut key val s) =
        \<lparr>s_size = length xs + 1, s_fields = map Some (xs @ [(key, val)]) @ rs\<rparr>"
      by (simp add: Ns_SetPut_def Let_def list_update_append)
    with s Cons show ?thesis by (simp add: holds_def)
  qed
qed

text \<open>Deleting moves the later fields; it needs a place of the array behind the last field.\<close>

lemma shift_fields_room:
  "shift_fields (length (ys @ y # zs)) (length ys) (map Some (ys @ y # zs) @ r # rest) =
     Some (map Some (ys @ zs) @ r # r # rest)"
proof (induction zs arbitrary: ys y)
  case Nil
  show ?case
    by (subst shift_fields.simps, subst shift_fields.simps) (simp add: nth_append list_update_append)
next
  case (Cons z zs)
  have "(map Some (ys @ y # z # zs) @ r # rest)[length ys := (map Some (ys @ y # z # zs) @ r # rest) ! (length ys + 1)] =
      map Some ((ys @ [z]) @ z # zs) @ r # rest"
    by (simp add: nth_append list_update_append)
  with Cons.IH [of "ys @ [z]" z] show ?case by (subst shift_fields.simps) simp
qed

lemma shift_fields_full:
  "shift_fields (length (ys @ y # zs)) (length ys) (map Some (ys @ y # zs)) = None"
proof (induction zs arbitrary: ys y)
  case Nil
  show ?case by (subst shift_fields.simps) simp
next
  case (Cons z zs)
  have "(map Some (ys @ y # z # zs))[length ys := (map Some (ys @ y # z # zs)) ! (length ys + 1)] =
      map Some ((ys @ [z]) @ z # zs)"
    by (simp add: nth_append list_update_append)
  with Cons.IH [of "ys @ [z]" z] show ?case by (subst shift_fields.simps) simp
qed

definition remove_nth :: "nat \<Rightarrow> 'a list \<Rightarrow> 'a list" where
  "remove_nth i xs = take i xs @ drop (i + 1) xs"

lemma delete_cases:
  assumes "holds s xs" "i < length xs"
  shows "if length xs < length (s_fields s)
    then \<exists>s'. Ns_SetDelete (int i) s = Some s' \<and> holds s' (remove_nth i xs)
    else Ns_SetDelete (int i) s = None"
proof -
  obtain rest where s: "s = \<lparr>s_size = length xs, s_fields = map Some xs @ rest\<rparr>" "10 \<le> length (s_fields s)"
    using assms by (auto simp: holds_def)
  define ys zs where "ys = take i xs" and "zs = drop (i + 1) xs"
  with assms(2) have xs: "xs = ys @ xs ! i # zs" and i: "i = length ys" by (simp_all add: id_take_nth_drop)
  show ?thesis
  proof (cases rest)
    case Nil
    with s i assms(2) shift_fields_full [of ys "xs ! i" zs, folded xs] show ?thesis
      by (simp add: Ns_SetDelete_def)
  next
    case (Cons r rs)
    have "remove_nth i xs = ys @ zs" "length xs = length ys + 1 + length zs"
      using assms(2) by (simp_all add: remove_nth_def ys_def zs_def)
    with s i assms(2) shift_fields_room [of ys "xs ! i" zs r rs, folded xs] Cons show ?thesis
      by (simp add: Ns_SetDelete_def holds_def)
  qed
qed


text \<open>The index of the first field with a property.\<close>

fun first_index :: "('a \<Rightarrow> bool) \<Rightarrow> 'a list \<Rightarrow> nat option" where
  "first_index P [] = None"
| "first_index P (x # xs) = (if P x then Some 0 else map_option Suc (first_index P xs))"

lemma first_index_less: "first_index P xs = Some i \<Longrightarrow> i < length xs"
  by (induction xs arbitrary: i) (auto split: if_splits)

lemma find_from_holds:
  assumes "holds s (ys @ zs)"
  shows "find_from cmp key s (length ys) =
    (case first_index (\<lambda>f. cmp key (fst f)) zs of None \<Rightarrow> -1 | Some i \<Rightarrow> int (length ys + i))"
  using assms
proof (induction zs arbitrary: ys)
  case Nil
  then show ?case using size_holds [OF Nil] by (subst find_from.simps) simp
next
  case (Cons z zs)
  have "s_fields s ! length ys = Some z" "s_size s = length ys + length zs + 1"
    using nth_holds [OF Cons.prems, of "length ys"] size_holds [OF Cons.prems] by simp_all
  moreover have "find_from cmp key s (length ys + 1) =
      (case first_index (\<lambda>f. cmp key (fst f)) zs of None \<Rightarrow> -1 | Some i \<Rightarrow> int (length ys + 1 + i))"
    using Cons.IH [of "ys @ [z]"] Cons.prems by (simp cong: option.case_cong)
  ultimately show ?case by (subst find_from.simps) (cases z; simp split: option.split)
qed

lemma FindCmp_holds:
  "holds s xs \<Longrightarrow> Ns_SetFindCmp cmp key s = (case first_index (\<lambda>f. cmp key (fst f)) xs of None \<Rightarrow> -1 | Some i \<Rightarrow> int i)"
  using find_from_holds [of s "[]" xs cmp key] by (simp add: Ns_SetFindCmp_def cong: option.case_cong)

text \<open>The value of the first field with the key.\<close>

definition first_value :: "(string \<Rightarrow> bool) \<Rightarrow> field list \<Rightarrow> string option" where
  "first_value P xs = map_option snd (find (\<lambda>f. P (fst f)) xs)"

lemma first_index_find: "find P xs = map_option ((!) xs) (first_index P xs)"
  by (induction xs) (simp_all add: option.map_comp comp_def)

lemma GetCmp_holds: "holds s xs \<Longrightarrow> Ns_SetGetCmp cmp key s = first_value (cmp key) xs"
  by (auto simp: Ns_SetGetCmp_def FindCmp_holds first_value_def first_index_find nth_holds
    dest!: first_index_less split: option.split) (metis prod.collapse)

lemma first_value_map_of: "first_value (strcmp key) xs = map_of xs key"
  by (induction xs) (auto simp: first_value_def strcmp_def)

text \<open>The list without its first field with the key.\<close>

fun remove_key :: "string \<Rightarrow> field list \<Rightarrow> field list" where
  "remove_key key [] = []"
| "remove_key key (f # fs) = (if fst f = key then fs else f # remove_key key fs)"

lemma remove_key_index:
  "remove_key key xs = (case first_index (\<lambda>f. strcmp key (fst f)) xs of None \<Rightarrow> xs | Some i \<Rightarrow> remove_nth i xs)"
  by (induction xs) (auto simp: strcmp_def remove_nth_def split: option.splits)

lemma delete_key_holds:
  assumes "holds s xs" "Ns_SetDelete (Ns_SetFindCmp strcmp key s) s = Some s'"
  shows "holds s' (remove_key key xs)"
proof (cases "first_index (\<lambda>f. strcmp key (fst f)) xs")
  case None
  with assms show ?thesis by (simp add: FindCmp_holds remove_key_index Ns_SetDelete_def)
next
  case (Some i)
  with delete_cases [OF assms(1) first_index_less [OF Some]] assms(2) show ?thesis
    by (auto simp: FindCmp_holds [OF assms(1)] remove_key_index split: if_splits)
qed

lemma update_holds:
  "holds s xs \<Longrightarrow> Ns_SetUpdate key val s = Some s' \<Longrightarrow> holds s' (remove_key key xs @ [(key, val)])"
  by (auto simp: Ns_SetUpdate_def dest: delete_key_holds intro: holds_put(2))


subsection \<open>The table and a map of lists\<close>

datatype set_call =
    SCreate
  | SPut int string string
  | SUpdate int string string
  | SDelete int int
  | SFree int

fun exec_set_call :: "set_call \<Rightarrow> set_table \<Rightarrow> set_table option" where
  "exec_set_call SCreate t = map_option snd (JsSetCreate t)"
| "exec_set_call (SPut h key val) t = Some (snd (JsSetPut h key val t))"
| "exec_set_call (SUpdate h key val) t = JsSetUpdate h key val t"
| "exec_set_call (SDelete h idx) t = JsSetDelete h idx t"
| "exec_set_call (SFree h) t = Some (JsSetFree h t)"

definition no_sets :: set_table where
  "no_sets = \<lparr>js_set_next_id = 0, js_set_map = Map.empty\<rparr>"

type_synonym spec_table = "int \<times> (int \<rightharpoonup> field list)"

definition on_list :: "int \<Rightarrow> (field list \<Rightarrow> field list) \<Rightarrow> spec_table \<Rightarrow> spec_table" where
  "on_list h f nm = (case snd nm h of None \<Rightarrow> nm | Some xs \<Rightarrow> (fst nm, (snd nm)(h \<mapsto> f xs)))"

fun spec_set_call :: "set_call \<Rightarrow> spec_table \<Rightarrow> spec_table" where
  "spec_set_call SCreate (n, m) = (n + 1, m(n + 1 \<mapsto> []))"
| "spec_set_call (SPut h key val) nm = on_list h (\<lambda>xs. xs @ [(c_str key, c_str val)]) nm"
| "spec_set_call (SUpdate h key val) nm = on_list h (\<lambda>xs. remove_key (c_str key) xs @ [(c_str key, c_str val)]) nm"
| "spec_set_call (SDelete h idx) nm =
     on_list h (\<lambda>xs. if 0 \<le> idx \<and> idx < int (length xs) then remove_nth (nat idx) xs else xs) nm"
| "spec_set_call (SFree h) (n, m) = (n, m(h := None))"

definition table_holds :: "set_table \<Rightarrow> spec_table \<Rightarrow> bool" where
  "table_holds t nm \<longleftrightarrow> js_set_next_id t = fst nm \<and> (\<forall>h. rel_option holds (js_set_map t h) (snd nm h))"

lemma table_holds_upd:
  "table_holds t nm \<Longrightarrow> holds s xs \<Longrightarrow>
     table_holds (t\<lparr>js_set_map := (js_set_map t)(h \<mapsto> s)\<rparr>) (fst nm, (snd nm)(h \<mapsto> xs))"
  by (auto simp: table_holds_def)

lemma table_holds_at: "table_holds t nm \<Longrightarrow> rel_option holds (js_set_map t h) (snd nm h)"
  by (simp add: table_holds_def)

lemma on_set_holds:
  assumes "table_holds t nm" "on_set h f t = Some t'"
    and "\<And>s xs s'. holds s xs \<Longrightarrow> f s = Some s' \<Longrightarrow> holds s' (g xs)"
  shows "table_holds t' (on_list h g nm)"
  using assms(1,2) table_holds_at [OF assms(1), of h] assms(3)
  by (cases "js_set_map t h"; cases "snd nm h") (auto simp: on_set_def on_list_def intro: table_holds_upd)

lemma delete_holds:
  "holds s xs \<Longrightarrow> (if 0 \<le> idx \<and> idx < int (s_size s) then Ns_SetDelete idx s else Some s) = Some s' \<Longrightarrow>
     holds s' (if 0 \<le> idx \<and> idx < int (length xs) then remove_nth (nat idx) xs else xs)"
  using delete_cases [of s xs "nat idx"] size_holds [of s xs] by (auto simp: nat_less_iff split: if_splits)

lemma table_call:
  assumes "table_holds t nm" "exec_set_call e t = Some t'"
  shows "table_holds t' (spec_set_call e nm)"
proof (cases e)
  case SCreate
  with assms holds_create show ?thesis
    by (cases nm) (auto simp: JsSetCreate_def Let_def table_holds_def split: if_splits)
next
  case (SPut h key val)
  with assms table_holds_at [OF assms(1), of h] holds_put [of "the (js_set_map t h)" "the (snd nm h)" "c_str key" "c_str val"]
  show ?thesis
    by (cases "js_set_map t h"; cases "snd nm h")
      (auto simp: JsSetPut_def on_list_def split: prod.splits intro: table_holds_upd)
next
  case (SUpdate h key val)
  with assms show ?thesis
    by (auto simp: JsSetUpdate_def intro: on_set_holds update_holds)
next
  case (SDelete h idx)
  with assms show ?thesis
    by (auto simp: JsSetDelete_def intro: on_set_holds delete_holds)
next
  case (SFree h)
  with assms show ?thesis by (cases nm) (auto simp: JsSetFree_def table_holds_def)
qed

lemma table_run:
  "table_holds t nm \<Longrightarrow> run_opt exec_set_call es t = Some t' \<Longrightarrow> table_holds t' (run spec_set_call es nm)"
proof (induction es arbitrary: t nm)
  case (Cons e es)
  then obtain t1 where "exec_set_call e t = Some t1" "run_opt exec_set_call es t1 = Some t'"
    by (auto simp: bind_eq_Some_conv)
  with Cons.IH [OF table_call [OF Cons.prems(1)]] show ?case by simp
qed simp

lemma table_holds_start: "table_holds no_sets (0, Map.empty)"
  by (simp add: table_holds_def no_sets_def)

lemmas no_sets_run = table_run [OF table_holds_start]

text \<open>
  Claim C18. A set is a list of fields: after every sequence of calls that is defined, a get returns
  the first value of the key in the list that the same calls make by appending, replacing and
  removing fields, and nothing for a set that was freed or never made; numbers of sets are never
  used again.
\<close>

theorem sets_are_lists:
  assumes "run_opt exec_set_call es no_sets = Some t"
  shows "JsSetGet h key t = Option.bind (snd (run spec_set_call es (0, Map.empty)) h) (\<lambda>xs. map_of xs (c_str key))"
  using table_holds_at [OF no_sets_run [OF assms], of h]
  by (cases "js_set_map t h"; cases "snd (run spec_set_call es (0, Map.empty)) h")
    (auto simp: JsSetGet_def GetCmp_holds first_value_map_of)

definition some_set_calls :: "set_call list" where
  "some_set_calls = [SCreate, SPut 1 ''a'' ''1'', SPut 1 ''b'' ''2'', SUpdate 1 ''a'' ''3'', SCreate, SFree 2, SDelete 1 0]"

lemma sets_are_lists_witness:
  "\<exists>t. run_opt exec_set_call some_set_calls no_sets = Some t \<and> JsSetGet 1 ''a'' t = Some ''3''"
proof -
  have "run_opt exec_set_call some_set_calls no_sets \<noteq> None" by code_simp
  then obtain t where t: "run_opt exec_set_call some_set_calls no_sets = Some t" by blast
  have "Option.bind (snd (run spec_set_call some_set_calls (0, Map.empty)) 1) (\<lambda>xs. map_of xs (c_str ''a'')) = Some ''3''"
    by code_simp
  with sets_are_lists [OF t] t show ?thesis by metis
qed


subsection \<open>Full arrays\<close>

lemma put_room:
  "s_size s < length (s_fields s) \<Longrightarrow>
     s_size (snd (Ns_SetPut key val s)) = s_size s + 1 \<and> length (s_fields (snd (Ns_SetPut key val s))) = length (s_fields s)"
  by (simp add: Ns_SetPut_def Let_def)

lemma ten_puts:
  "length kvs \<le> 10 \<Longrightarrow>
     \<exists>t s. run_opt exec_set_call (SCreate # map (\<lambda>(k, v). SPut 1 k v) kvs) no_sets = Some t \<and>
       js_set_map t 1 = Some s \<and> s_size s = length kvs \<and> length (s_fields s) = 10 \<and> (\<exists>xs. holds s xs)"
proof (induction kvs rule: rev_induct)
  case Nil
  show ?case using holds_create by (auto simp: JsSetCreate_def no_sets_def Ns_SetCreate_def)
next
  case (snoc kv kvs)
  then obtain t s xs where *: "run_opt exec_set_call (SCreate # map (\<lambda>(k, v). SPut 1 k v) kvs) no_sets = Some t"
    "js_set_map t 1 = Some s" "s_size s = length kvs" "length (s_fields s) = 10" "holds s xs"
    by auto
  obtain k v where kv: "kv = (k, v)" by (cases kv)
  let ?s = "snd (Ns_SetPut (c_str k) (c_str v) s)"
  let ?t = "t\<lparr>js_set_map := (js_set_map t)(1 \<mapsto> ?s)\<rparr>"
  have "exec_set_call (SPut 1 k v) t = Some ?t"
    using *(2) by (simp add: JsSetPut_def split: prod.split)
  with *(1) have "run_opt exec_set_call ((SCreate # map (\<lambda>(k, v). SPut 1 k v) kvs) @ [SPut 1 k v]) no_sets = Some ?t"
    by (simp only: run_opt_append) simp
  moreover have "s_size ?s = length kvs + 1 \<and> length (s_fields ?s) = 10"
    using put_room [of s "c_str k" "c_str v"] *(3,4) snoc.prems by simp
  ultimately show ?case using holds_put(2) [OF *(5), of "c_str k" "c_str v"] kv by (intro exI [of _ ?t] exI [of _ ?s]) auto
qed

text \<open>
  Claim C35. Deleting from a full set reads beyond its array: after ten puts into a new set the
  deletion of any of its fields is undefined behaviour.
\<close>

theorem full_set_delete_overreads:
  assumes "length kvs = 10" "0 \<le> idx" "idx < 10"
  shows "run_opt exec_set_call (SCreate # map (\<lambda>(k, v). SPut 1 k v) kvs @ [SDelete 1 idx]) no_sets = None"
proof -
  from ten_puts [of kvs] assms(1) obtain t s xs where
    *: "run_opt exec_set_call (SCreate # map (\<lambda>(k, v). SPut 1 k v) kvs) no_sets = Some t"
    "js_set_map t 1 = Some s" "s_size s = 10" "length (s_fields s) = 10" "holds s xs"
    by auto
  have "length xs = 10" using size_holds [OF *(5)] *(3) by simp
  with delete_cases [OF *(5), of "nat idx"] *(4) assms(2,3) have "Ns_SetDelete idx s = None" by simp
  with *(2,3) assms(2,3) have "exec_set_call (SDelete 1 idx) t = None" by (simp add: JsSetDelete_def on_set_def)
  with *(1) show ?thesis
    using run_opt_append [of exec_set_call "SCreate # map (\<lambda>(k, v). SPut 1 k v) kvs" "[SDelete 1 idx]" no_sets] by simp
qed

lemma full_set_delete_overreads_witness:
  "run_opt exec_set_call (SCreate # map (\<lambda>(k, v). SPut 1 k v) (replicate 10 (''k'', ''v'')) @ [SDelete 1 3]) no_sets = None"
  by (rule full_set_delete_overreads) simp_all

text \<open>With fewer fields every call is defined.\<close>

fun puts :: "set_call \<Rightarrow> nat" where
  "puts (SPut h key val) = 1"
| "puts (SUpdate h key val) = 1"
| "puts _ = 0"

definition short_lists :: "nat \<Rightarrow> spec_table \<Rightarrow> bool" where
  "short_lists n nm \<longleftrightarrow> (\<forall>h xs. snd nm h = Some xs \<longrightarrow> length xs \<le> n)"

lemma length_remove_key: "length (remove_key key xs) \<le> length xs"
  by (induction xs) auto

lemma length_remove_nth: "length (remove_nth i xs) \<le> length xs"
  by (auto simp: remove_nth_def)

lemma short_on_list:
  "short_lists n nm \<Longrightarrow> (\<And>xs. length (f xs) \<le> length xs + k) \<Longrightarrow> short_lists (n + k) (on_list h f nm)"
proof -
  assume short: "short_lists n nm" and f: "\<And>xs. length (f xs) \<le> length xs + k"
  have "length (f xs) \<le> n + k" if "snd nm h = Some xs" for xs
    using f [of xs] short that by (auto simp: short_lists_def intro: le_trans)
  moreover have "length xs \<le> n + k" if "snd nm i = Some xs" for i xs
    using short that by (auto simp: short_lists_def intro: trans_le_add1)
  ultimately show ?thesis by (auto simp: short_lists_def on_list_def split: option.split)
qed

lemma short_call: "short_lists n nm \<Longrightarrow> short_lists (n + puts e) (spec_set_call e nm)"
proof (cases e)
  case (SUpdate h key val)
  assume "short_lists n nm"
  with SUpdate length_remove_key short_on_list [of n nm _ 1 h] show ?thesis by simp
next
  case (SDelete h idx)
  assume "short_lists n nm"
  with SDelete short_on_list [of n nm "\<lambda>xs. if 0 \<le> idx \<and> idx < int (length xs) then remove_nth (nat idx) xs else xs" 0 h]
  show ?thesis by (simp add: length_remove_nth)
next
  case (SPut h key val)
  assume "short_lists n nm"
  with SPut short_on_list [of n nm _ 1 h] show ?thesis by simp
qed (cases nm; auto simp: short_lists_def)+

lemma delete_defined: "holds s xs \<Longrightarrow> length xs < 10 \<Longrightarrow> -1 \<le> idx \<Longrightarrow> \<exists>s'. Ns_SetDelete idx s = Some s'"
proof (cases "idx \<noteq> -1 \<and> idx < int (length xs)")
  case True
  assume *: "holds s xs" "length xs < 10" "-1 \<le> idx"
  then have "length xs < length (s_fields s)" by (auto simp: holds_def)
  with delete_cases [OF *(1), of "nat idx"] True * show ?thesis by (auto simp: nat_less_iff)
next
  case False
  assume "holds s xs"
  with False show ?thesis by (auto simp: Ns_SetDelete_def size_holds)
qed

lemma call_defined:
  assumes "table_holds t nm" "short_lists n nm" "n < 10" "e = SCreate \<longrightarrow> js_set_next_id t + 1 < 2 ^ 31"
  shows "\<exists>t'. exec_set_call e t = Some t'"
proof -
  have short: "length xs < 10" if s: "js_set_map t h = Some s" "holds s xs" for h s xs
  proof -
    obtain ys where ys: "snd nm h = Some ys" "holds s ys"
      using table_holds_at [OF assms(1), of h] s(1) by (auto simp: option_rel_Some1)
    then have "ys = xs" using fields_of_holds s(2) by blast
    with assms(2,3) ys(1) show ?thesis by (auto simp: short_lists_def intro: le_less_trans)
  qed
  have del: "\<exists>s'. Ns_SetDelete idx s = Some s'" if "js_set_map t h = Some s" "-1 \<le> idx" for h s idx
    using table_holds_at [OF assms(1), of h] that short delete_defined by (auto simp: option_rel_Some1)
  show ?thesis
  proof (cases e)
    case (SUpdate h key val)
    have "-1 \<le> Ns_SetFindCmp strcmp (c_str key) s" if "js_set_map t h = Some s" for s
      using table_holds_at [OF assms(1), of h] that by (auto simp: option_rel_Some1 FindCmp_holds split: option.split)
    with SUpdate del show ?thesis
      by (cases "js_set_map t h") (fastforce simp: JsSetUpdate_def on_set_def Ns_SetUpdate_def)+
  next
    case (SDelete h idx)
    with del show ?thesis by (cases "js_set_map t h") (auto simp: JsSetDelete_def on_set_def)
  qed (use assms(4) in \<open>auto simp: JsSetCreate_def Let_def\<close>)
qed


lemma creates_run: "fst (run spec_set_call es nm) = fst nm + int (length (filter (\<lambda>e. e = SCreate) es))"
proof (induction es arbitrary: nm)
  case (Cons e es)
  then show ?case by (cases e; cases nm) (auto simp: on_list_def split: option.split)
qed simp

text \<open>
  With fewer than ten puts and updates in all, every sequence of calls is defined, as long
  as the counter of the sets does not overflow.
\<close>

theorem short_histories_defined:
  assumes "sum_list (map puts es) < 10" "length (filter (\<lambda>e. e = SCreate) es) < 2 ^ 31"
  shows "\<exists>t. run_opt exec_set_call es no_sets = Some t"
proof -
  have "\<exists>t. run_opt exec_set_call es no_sets = Some t \<and> short_lists (sum_list (map puts es)) (run spec_set_call es (0, Map.empty))"
    using assms
  proof (induction es rule: rev_induct)
    case Nil
    show ?case by (simp add: short_lists_def)
  next
    case (snoc e es)
    then obtain t where t: "run_opt exec_set_call es no_sets = Some t"
      "short_lists (sum_list (map puts es)) (run spec_set_call es (0, Map.empty))"
      by auto
    note h = no_sets_run [OF t(1)]
    have "js_set_next_id t = int (length (filter (\<lambda>e. e = SCreate) es))"
      using h creates_run [of es "(0, Map.empty)"] by (simp add: table_holds_def)
    then have "e = SCreate \<longrightarrow> js_set_next_id t + 1 < 2 ^ 31" using snoc.prems by auto
    with call_defined [OF h t(2)] snoc.prems obtain t' where "exec_set_call e t = Some t'" by auto
    with t short_call [OF t(2), of e] show ?case by (auto simp: run_opt_append run_append)
  qed
  then show ?thesis by blast
qed


lemma short_histories_defined_witness: "\<exists>t. run_opt exec_set_call some_set_calls no_sets = Some t"
  by (rule short_histories_defined) (simp_all add: some_set_calls_def)

subsection \<open>Keys that occur twice\<close>

text \<open>
  An update removes the first field with the key and appends the new one, so that the get returns
  the new value only when the key had one field at most.
\<close>

lemma get_after_update:
  assumes "holds s xs" "Ns_SetUpdate key val s = Some s'"
  shows "Ns_SetGetCmp strcmp key s' = Some (case map_of (remove_key key xs) key of None \<Rightarrow> val | Some v \<Rightarrow> v)"
proof -
  from assms have "holds s' (remove_key key xs @ [(key, val)])" by (rule update_holds)
  then show ?thesis by (simp add: GetCmp_holds first_value_map_of map_add_def split: option.split)
qed

lemma remove_key_distinct: "distinct (map fst xs) \<Longrightarrow> map_of (remove_key key xs) key = None"
  by (induction xs) (auto simp: map_of_eq_None_iff)

text \<open>An object has the last value of a key where a get returns the first.\<close>

lemma toObject_last_value:
  assumes "holds s xs" "js_set_map t h = Some s"
  shows "\<exists>ps. JsSetToObject h t = Some ps \<and> map_of ps = map_of (rev xs)"
proof -
  have fold: "map_of (fold (\<lambda>f ps. case f of None \<Rightarrow> ps | Some (k, v) \<Rightarrow> AList.update k v ps) (map Some ys) ps) =
      map_of ps ++ map_of (rev ys)" for ys ps
  proof (induction ys arbitrary: ps)
    case (Cons y ys)
    then show ?case by (cases y) (simp add: update_conv' map_add_upd_left map_add_def fun_eq_iff split: option.split)
  qed simp
  have "take (s_size s) (s_fields s) = map Some xs"
    using assms(1) by (auto simp: holds_def)
  with fold [of xs "[]"] assms(2) show ?thesis by (simp add: JsSetToObject_def)
qed

text \<open>
  Objects and gets agree on sets whose keys are distinct: the property of the object that
  \<open>toObject\<close> makes is then what \<open>get\<close> returns for the key.
\<close>

theorem object_agrees_with_get:
  assumes "run_opt exec_set_call es no_sets = Some t" "snd (run spec_set_call es (0, Map.empty)) h = Some xs"
    and "distinct (map fst xs)"
  shows "map_option (\<lambda>ps. map_of ps (c_str key)) (JsSetToObject h t) = Some (JsSetGet h key t)"
proof -
  from table_holds_at [OF no_sets_run [OF assms(1)], of h] assms(2) obtain s where s: "js_set_map t h = Some s" "holds s xs"
    by (auto simp: option_rel_Some2)
  have "map_of (rev xs) = map_of xs"
    using assms(3) by (metis map_of_inject_set distinct_rev rev_map set_rev)
  with toObject_last_value [OF s(2,1)] s show ?thesis by (auto simp: JsSetGet_def GetCmp_holds first_value_map_of)
qed


lemma object_agrees_with_get_witness:
  "\<exists>t. run_opt exec_set_call some_set_calls no_sets = Some t \<and>
     map_option (\<lambda>ps. map_of ps (c_str ''a'')) (JsSetToObject 1 t) = Some (JsSetGet 1 ''a'' t)"
proof -
  have "run_opt exec_set_call some_set_calls no_sets \<noteq> None" by code_simp
  then obtain t where t: "run_opt exec_set_call some_set_calls no_sets = Some t" by blast
  have "snd (run spec_set_call some_set_calls (0, Map.empty)) 1 = Some [(''a'', ''3'')]" by code_simp
  from object_agrees_with_get [OF t this, of "''a''"] t show ?thesis by simp
qed

end
