(* ===== verification/Mutexes.thy ===== *)
theory Mutexes
  imports Prelude
begin

text \<open>
  The mutexes \<open>ns.mutex\<close> of \<open>nsjs/nsjs.cc\<close>, which scripts know by numbers. A call takes the pointer
  from the table under the lock of the table, and uses it after that lock is released: these are
  two steps, between which other threads run. The model has the table, the memory of the mutexes,
  and the calls that hold a pointer. The lemmas show which histories are safe, that a number is
  never used for a second mutex, and what a destruction at the wrong time does to the server.
\<close>

subsection \<open>State\<close>

text \<open>
  Addresses are never used again, so that a freed mutex is an address without content; the content
  of an address is the thread that holds the mutex, if any. The server is up, has aborted itself,
  or has used freed memory.
\<close>

type_synonym thread_id = nat

type_synonym address = nat

datatype server_state = Up | Aborted | Undefined

datatype mutex_call = Lock | Unlock | TryLock

record mutexes =
  mutex_next_id :: int
  mutex_map :: "int \<rightharpoonup> address"
  mutex_heap :: "address \<rightharpoonup> thread_id option"
  mutex_fresh :: address
  mutex_calls :: "thread_id \<rightharpoonup> mutex_call \<times> address"
  mutex_server :: server_state

definition no_mutexes :: mutexes where
  "no_mutexes = \<lparr>mutex_next_id = 0, mutex_map = Map.empty, mutex_heap = Map.empty, mutex_fresh = 0,
     mutex_calls = Map.empty, mutex_server = Up\<rparr>"

subsection \<open>Operations\<close>

definition LookupMutex :: "int \<Rightarrow> mutexes \<Rightarrow> address option" where
  "LookupMutex h s = mutex_map s h"

definition JsMutexCreate :: "mutexes \<Rightarrow> int \<times> mutexes" where
  "JsMutexCreate s =
     (let h = mutex_next_id s + 1;
          p = mutex_fresh s
      in (h, s\<lparr>mutex_next_id := h, mutex_map := (mutex_map s)(h \<mapsto> p),
            mutex_heap := (mutex_heap s)(p \<mapsto> None), mutex_fresh := p + 1\<rparr>))"

text \<open>The first half of \<open>lock\<close>, \<open>unlock\<close> and \<open>trylock\<close>: without a mutex the call ends at once.\<close>

definition JsMutexLookup :: "thread_id \<Rightarrow> mutex_call \<Rightarrow> int \<Rightarrow> mutexes \<Rightarrow> mutexes" where
  "JsMutexLookup t call h s = (case LookupMutex h s of
       None \<Rightarrow> s
     | Some p \<Rightarrow> s\<lparr>mutex_calls := (mutex_calls s)(t \<mapsto> (call, p))\<rparr>)"

text \<open>The second half, at the pointer; a thread that cannot lock waits, which is None.\<close>

definition Ns_MutexCall :: "thread_id \<Rightarrow> mutex_call \<Rightarrow> address \<Rightarrow> mutexes \<Rightarrow> mutexes option" where
  "Ns_MutexCall t call p s = (case mutex_heap s p of
       None \<Rightarrow> Some (s\<lparr>mutex_server := Undefined\<rparr>)
     | Some holder \<Rightarrow>
         (case call of
            Lock \<Rightarrow> if holder = None then Some (s\<lparr>mutex_heap := (mutex_heap s)(p \<mapsto> Some t)\<rparr>) else None
          | Unlock \<Rightarrow> Some (s\<lparr>mutex_heap := (mutex_heap s)(p \<mapsto> None)\<rparr>)
          | TryLock \<Rightarrow> Some (if holder = None then s\<lparr>mutex_heap := (mutex_heap s)(p \<mapsto> Some t)\<rparr> else s)))"

text \<open>
  Destroying a mutex that is held fails in \<open>pthread_mutex_destroy\<close>, and \<open>NsLockFree\<close> then aborts
  the process.
\<close>

definition JsMutexDestroy :: "int \<Rightarrow> mutexes \<Rightarrow> mutexes" where
  "JsMutexDestroy h s = (case mutex_map s h of
       None \<Rightarrow> s
     | Some p \<Rightarrow>
         (case mutex_heap s p of
            None \<Rightarrow> s\<lparr>mutex_server := Undefined\<rparr>
          | Some (Some _) \<Rightarrow> s\<lparr>mutex_server := Aborted\<rparr>
          | Some None \<Rightarrow> s\<lparr>mutex_heap := (mutex_heap s)(p := None), mutex_map := (mutex_map s)(h := None)\<rparr>))"

subsection \<open>Interleaving\<close>

datatype mutex_event =
    Create thread_id
  | Begin thread_id mutex_call int
  | Proceed thread_id
  | Destroy thread_id int

text \<open>A thread that is within a call does nothing else; the number of mutexes fits into an int.\<close>

inductive mutex_step :: "mutexes \<Rightarrow> mutex_event \<Rightarrow> mutexes \<Rightarrow> bool" where
  create: "mutex_server s = Up \<Longrightarrow> mutex_calls s t = None \<Longrightarrow> mutex_next_id s + 1 < 2 ^ 31 \<Longrightarrow>
    mutex_step s (Create t) (snd (JsMutexCreate s))"
| lookup: "mutex_server s = Up \<Longrightarrow> mutex_calls s t = None \<Longrightarrow>
    mutex_step s (Begin t call h) (JsMutexLookup t call h s)"
| use: "mutex_server s = Up \<Longrightarrow> mutex_calls s t = Some (call, p) \<Longrightarrow> Ns_MutexCall t call p s = Some s' \<Longrightarrow>
    mutex_step s (Proceed t) (s'\<lparr>mutex_calls := (mutex_calls s')(t := None)\<rparr>)"
| destroy: "mutex_server s = Up \<Longrightarrow> mutex_calls s t = None \<Longrightarrow>
    mutex_step s (Destroy t h) (JsMutexDestroy h s)"

inductive_cases create_E: "mutex_step s (Create t) s'"
inductive_cases lookup_E: "mutex_step s (Begin t call h) s'"
inductive_cases use_E: "mutex_step s (Proceed t) s'"
inductive_cases destroy_E: "mutex_step s (Destroy t h) s'"

lemmas mutex_step_E = create_E lookup_E use_E destroy_E

inductive mutex_run :: "mutexes \<Rightarrow> mutex_event list \<Rightarrow> mutexes \<Rightarrow> bool" where
  start: "mutex_run s [] s"
| step: "mutex_run s es s' \<Longrightarrow> mutex_step s' e s'' \<Longrightarrow> mutex_run s (es @ [e]) s''"




text \<open>Every pointer, in the table or in a call, is to a mutex that was not freed.\<close>

definition pointers_valid :: "mutexes \<Rightarrow> bool" where
  "pointers_valid s \<longleftrightarrow> mutex_server s = Up \<and>
     (\<forall>h p. mutex_map s h = Some p \<longrightarrow> mutex_heap s p \<noteq> None) \<and>
     (\<forall>t call p. mutex_calls s t = Some (call, p) \<longrightarrow> mutex_heap s p \<noteq> None) \<and>
     (\<forall>p. mutex_heap s p \<noteq> None \<longrightarrow> p < mutex_fresh s) \<and>
     (\<forall>h h' p. mutex_map s h = Some p \<longrightarrow> mutex_map s h' = Some p \<longrightarrow> h = h')"









lemma mutex_run_Cons: "mutex_step s e s1 \<Longrightarrow> mutex_run s1 es s' \<Longrightarrow> mutex_run s (e # es) s'"
proof (rotate_tac 1, induction rule: mutex_run.induct)
  case (start s1)
  from mutex_run.step [OF mutex_run.start start] show ?case by simp
next
  case (step s1 es s2 e2 s3)
  then have "mutex_run s (e # es) s2" by blast
  from mutex_run.step [OF this step(2)] show ?case by simp
qed






subsection \<open>Numbers\<close>

definition was_mutex :: "int \<Rightarrow> mutexes \<Rightarrow> bool" where
  "was_mutex h s \<longleftrightarrow> h \<le> mutex_next_id s \<and> LookupMutex h s = None"

lemma was_mutex_step: "mutex_step s e s' \<Longrightarrow> was_mutex h s \<Longrightarrow> was_mutex h s'"
proof (induction rule: mutex_step.induct)
  case (use s t call p s')
  then show ?case
    by (cases call) (auto simp: was_mutex_def LookupMutex_def Ns_MutexCall_def split: option.splits if_splits)
qed (auto simp: was_mutex_def LookupMutex_def JsMutexCreate_def JsMutexLookup_def JsMutexDestroy_def Let_def
  split: option.splits)

text \<open>
  A number is never used for a second mutex: once a mutex is destroyed, every later call
  with its number finds no mutex, in every history, orderly or not, that follows.
\<close>

theorem destroyed_mutex_stays_dead:
  assumes "mutex_run s es s'" "h \<le> mutex_next_id s" "LookupMutex h s = None"
  shows "LookupMutex h s' = None"
proof -
  have "was_mutex h s'" using assms
    by (induction rule: mutex_run.induct) (auto simp: was_mutex_def dest: was_mutex_step [unfolded was_mutex_def])
  then show ?thesis by (simp add: was_mutex_def)
qed

definition one_destroyed :: mutexes where
  "one_destroyed = JsMutexDestroy 1 (snd (JsMutexCreate no_mutexes))"

lemma destroyed_mutex_stays_dead_witness:
  "\<exists>s'. mutex_run one_destroyed [Create 7] s' \<and> LookupMutex 1 s' = None"
proof -
  have "mutex_step one_destroyed (Create 7) (snd (JsMutexCreate one_destroyed))"
    by (intro mutex_step.create) (simp_all add: one_destroyed_def no_mutexes_def JsMutexCreate_def JsMutexDestroy_def Let_def)
  then have run: "mutex_run one_destroyed [Create 7] (snd (JsMutexCreate one_destroyed))"
    by (intro mutex_run_Cons) (auto intro: mutex_run.start)
  have "1 \<le> mutex_next_id one_destroyed" "LookupMutex 1 one_destroyed = None"
    by (simp_all add: one_destroyed_def no_mutexes_def JsMutexCreate_def JsMutexDestroy_def LookupMutex_def Let_def)
  from destroyed_mutex_stays_dead [OF run this] run show ?thesis by blast
qed

subsection \<open>Destruction at the wrong time\<close>

text \<open>
  A destruction races with the calls: whenever a thread is between the two halves of a
  call on a mutex that is free, a destruction by another thread makes the first thread use freed
  memory in its next step.
\<close>

theorem destroy_races_with_calls:
  assumes "pointers_valid s" "LookupMutex h s = Some p" "mutex_heap s p = Some None"
    and "mutex_calls s t = Some (call, p)" "mutex_calls s u = None"
  shows "\<exists>s'. mutex_run s [Destroy u h, Proceed t] s' \<and> mutex_server s' = Undefined"
proof -
  let ?s = "JsMutexDestroy h s"
  have d: "mutex_step s (Destroy u h) ?s" using assms by (intro mutex_step.destroy) (simp_all add: pointers_valid_def)
  have "?s = s\<lparr>mutex_heap := (mutex_heap s)(p := None), mutex_map := (mutex_map s)(h := None)\<rparr>"
    using assms(2,3) by (simp add: JsMutexDestroy_def LookupMutex_def)
  then have "Ns_MutexCall t call p ?s = Some (?s\<lparr>mutex_server := Undefined\<rparr>)" "mutex_server ?s = Up" "mutex_calls ?s t = Some (call, p)"
    using assms(1,4) by (simp_all add: Ns_MutexCall_def pointers_valid_def)
  from mutex_step.use [OF this(2,3,1)] d show ?thesis
    by (intro exI conjI) (rule mutex_run_Cons [OF d mutex_run_Cons [OF _ mutex_run.start]], auto)
qed

definition before_race :: mutexes where
  "before_race = JsMutexLookup 0 Lock 1 (snd (JsMutexCreate no_mutexes))"

lemma destroy_races_with_calls_witness:
  "\<exists>s'. mutex_run before_race [Destroy 1 1, Proceed 0] s' \<and> mutex_server s' = Undefined"
  by (rule destroy_races_with_calls [of _ _ 0 _ Lock])
    (auto simp: before_race_def no_mutexes_def JsMutexCreate_def JsMutexLookup_def LookupMutex_def pointers_valid_def Let_def)

text \<open>A script that destroys a mutex which is held ends the server.\<close>

lemma destroy_held_aborts:
  "mutex_map s h = Some p \<Longrightarrow> mutex_heap s p = Some (Some t) \<Longrightarrow> mutex_server (JsMutexDestroy h s) = Aborted"
  by (simp add: JsMutexDestroy_def)

end
