(* ===== verification/UrlCodec.thy ===== *)
theory UrlCodec
  imports SharedStore StatsApi
begin

text \<open>
  The functions \<open>ns.url.encode\<close>, \<open>ns.url.decode\<close> and \<open>ns.url.parse\<close> of \<open>nsjs/nsjs.cc\<close> over
  \<open>nsd/urlencode.c\<close>. The encoding of the connection, which Tcl implements, is a parameter: none, or
  the conversions from and to UTF-8. The lemmas show that a decoder inverts the encoder and that a
  query string that is built from names and values is parsed into them.
\<close>

subsection \<open>Percent encoding\<close>

text \<open>The table \<open>enc\<close>: letters and digits stand for themselves, and which characters are hex digits.\<close>

definition alnum :: "char \<Rightarrow> bool" where
  "alnum c \<longleftrightarrow>
     (let n = of_char c :: nat in 48 \<le> n \<and> n \<le> 57 \<or> 65 \<le> n \<and> n \<le> 90 \<or> 97 \<le> n \<and> n \<le> 122)"

definition hex_value :: "char \<Rightarrow> nat option" where
  "hex_value c =
     (let n = of_char c :: nat
      in if 48 \<le> n \<and> n \<le> 57 then Some (n - 48)
         else if 65 \<le> n \<and> n \<le> 70 then Some (n - 55)
         else if 97 \<le> n \<and> n \<le> 102 then Some (n - 87) else None)"

definition url_hex :: "nat \<Rightarrow> char" where
  "url_hex n = (if n < 10 then char_of (48 + n) else char_of (87 + n))"

definition encode_char :: "char \<Rightarrow> string" where
  "encode_char c =
     (if c = CHR '' '' then ''+''
      else if alnum c then [c]
      else [CHR ''%'', url_hex (of_char c div 16), url_hex (of_char c mod 16)])"

definition escape :: "char \<Rightarrow> string \<Rightarrow> (char \<times> string) option" where
  "escape c s =
     (if c = CHR ''%'' \<and> 2 \<le> length s
      then case (hex_value (s ! 0), hex_value (s ! 1)) of
          (Some i, Some j) \<Rightarrow> Some (char_of (16 * i + j), drop 2 s)
        | _ \<Rightarrow> None
      else None)"

function decode_chars :: "string \<Rightarrow> string" where
  "decode_chars [] = []"
| "decode_chars (c # s) =
     (case escape c s of
        Some (x, rest) \<Rightarrow> x # decode_chars rest
      | None \<Rightarrow> (if c = CHR ''+'' then CHR '' '' else c) # decode_chars s)"
  by pat_completeness auto
termination
  by (relation "measure length") (auto simp: escape_def split: if_splits option.splits)

text \<open>The conversions of the encoding of a connection: to it, and back to UTF-8.\<close>

type_synonym url_encoding = "((string \<Rightarrow> string) \<times> (string \<Rightarrow> string)) option"

definition Ns_EncodeUrlCharset :: "url_encoding \<Rightarrow> string \<Rightarrow> string" where
  "Ns_EncodeUrlCharset encoding s =
     concat (map encode_char (c_str (case encoding of None \<Rightarrow> s | Some (to_ext, _) \<Rightarrow> to_ext s)))"

definition Ns_DecodeUrlCharset :: "url_encoding \<Rightarrow> string \<Rightarrow> string" where
  "Ns_DecodeUrlCharset encoding s =
     (case encoding of None \<Rightarrow> decode_chars s | Some (_, to_utf) \<Rightarrow> to_utf (decode_chars s))"

subsection \<open>The calls of JavaScript\<close>

text \<open>Texts are passed and returned as C strings.\<close>

definition JsUrlEncode :: "url_encoding \<Rightarrow> string list \<Rightarrow> string" where
  "JsUrlEncode encoding args = (case args of
       [] \<Rightarrow> '''' | s # _ \<Rightarrow> c_str (Ns_EncodeUrlCharset encoding (c_str s)))"

definition JsUrlDecode :: "url_encoding \<Rightarrow> string list \<Rightarrow> string" where
  "JsUrlDecode encoding args = (case args of
       [] \<Rightarrow> '''' | s # _ \<Rightarrow> c_str (Ns_DecodeUrlCharset encoding (c_str s)))"

text \<open>The loop over the parts between ampersands; an empty part is skipped.\<close>

definition put_pair :: "url_encoding \<Rightarrow> string \<Rightarrow> props \<Rightarrow> props" where
  "put_pair encoding pair obj =
     (if pair = [] then obj
      else let rawKey = takeWhile (\<lambda>c. c \<noteq> CHR ''='') pair;
               rawValue = drop (length rawKey + 1) pair
           in js_put (JsUrlDecode encoding [rawKey]) (Str (JsUrlDecode encoding [rawValue])) obj)"

function put_pairs :: "url_encoding \<Rightarrow> string \<Rightarrow> nat \<Rightarrow> props \<Rightarrow> props" where
  "put_pairs encoding qs pos obj =
     (if pos \<le> length qs
      then let pair = takeWhile (\<lambda>c. c \<noteq> CHR ''&'') (drop pos qs);
               amp = pos + length pair
           in put_pairs encoding qs (amp + 1) (put_pair encoding pair obj)
      else obj)"
  by pat_completeness auto
termination by (relation "measure (\<lambda>(encoding, qs, pos, obj). length qs + 1 - pos)") auto

declare put_pairs.simps [simp del]

definition JsUrlParse :: "url_encoding \<Rightarrow> string list \<Rightarrow> jv" where
  "JsUrlParse encoding args = (case args of [] \<Rightarrow> Obj [] | qs # _ \<Rightarrow> Obj (put_pairs encoding qs 0 []))"

subsection \<open>The decoder inverts the encoder\<close>

lemma url_hex_digits:
  assumes "n < 16"
  shows "hex_value (url_hex n) = Some n" "alnum (url_hex n)"
  using assms by (simp_all add: hex_value_def url_hex_def alnum_def Let_def)

lemma plain_char: "alnum c \<Longrightarrow> c \<notin> {CHR ''%'', CHR ''+'', CHR ''&'', CHR ''='', CHR 0x00}"
  by (auto simp: alnum_def Let_def)

lemma decode_encode_char: "decode_chars (encode_char c @ s) = c # decode_chars s"
proof -
  have "of_char c < (16 * 16 :: nat)" by simp
  then have "of_char c div 16 < (16 :: nat)" by (rule less_mult_imp_div_less)
  moreover have "16 * (of_char c div 16) + of_char c mod 16 = (of_char c :: nat)" by simp
  ultimately show ?thesis
    using url_hex_digits(1) [of "of_char c div 16"] url_hex_digits(1) [of "of_char c mod 16"] plain_char [of c]
    by (auto simp: encode_char_def escape_def)
qed


lemma decode_encode: "decode_chars (concat (map encode_char s)) = s"
  by (induction s) (simp_all add: decode_encode_char del: decode_chars.simps(2))

text \<open>What an encoded text is made of.\<close>

lemma encoded_chars:
  "c \<in> set (concat (map encode_char s)) \<Longrightarrow> alnum c \<or> c = CHR ''%'' \<or> c = CHR ''+''"
proof -
  have "alnum (url_hex (of_char x div 16)) \<and> alnum (url_hex (of_char x mod 16))" for x
  proof -
    have "of_char x < (16 * 16 :: nat)" by simp
    then have "of_char x div 16 < (16 :: nat)" by (rule less_mult_imp_div_less)
    with url_hex_digits(2) show ?thesis by simp
  qed
  then show "c \<in> set (concat (map encode_char s)) \<Longrightarrow> alnum c \<or> c = CHR ''%'' \<or> c = CHR ''+''"
    by (auto simp: encode_char_def split: if_splits)
qed

text \<open>An encoding that loses nothing of a text.\<close>

definition keeps :: "url_encoding \<Rightarrow> string \<Rightarrow> bool" where
  "keeps encoding s \<longleftrightarrow> CHR 0x00 \<notin> set s \<and>
     (case encoding of None \<Rightarrow> True | Some (to_ext, to_utf) \<Rightarrow> CHR 0x00 \<notin> set (to_ext s) \<and> to_utf (to_ext s) = s)"

lemma encoded_plain:
  assumes "keeps encoding s"
  shows "CHR 0x00 \<notin> set (Ns_EncodeUrlCharset encoding s)" "CHR ''&'' \<notin> set (Ns_EncodeUrlCharset encoding s)"
    "CHR ''='' \<notin> set (Ns_EncodeUrlCharset encoding s)"
  using encoded_chars plain_char by (fastforce simp: Ns_EncodeUrlCharset_def)+

lemma decode_encoded: "keeps encoding s \<Longrightarrow> Ns_DecodeUrlCharset encoding (Ns_EncodeUrlCharset encoding s) = s"
  by (auto simp: Ns_DecodeUrlCharset_def Ns_EncodeUrlCharset_def keeps_def decode_encode split: option.splits)

lemma url_decode_encode: "keeps encoding s \<Longrightarrow> JsUrlDecode encoding [JsUrlEncode encoding [s]] = s"
  using encoded_plain [of encoding s] by (simp add: JsUrlDecode_def JsUrlEncode_def decode_encoded keeps_def)

interpretation url: codec "\<lambda>s. JsUrlEncode encoding [s]" "\<lambda>s. Some (JsUrlDecode encoding [s])" "\<lambda>s. s" "keeps encoding"
  by unfold_locales (simp add: url_decode_encode)

subsection \<open>Query strings\<close>

fun join_with :: "char \<Rightarrow> string list \<Rightarrow> string" where
  "join_with c [] = []"
| "join_with c [s] = s"
| "join_with c (s # ss) = s @ c # join_with c ss"

definition pair_text :: "url_encoding \<Rightarrow> string \<times> string \<Rightarrow> string" where
  "pair_text encoding kv = JsUrlEncode encoding [fst kv] @ ''='' @ JsUrlEncode encoding [snd kv]"

definition query_string :: "url_encoding \<Rightarrow> (string \<times> string) list \<Rightarrow> string" where
  "query_string encoding kvs = join_with (CHR ''&'') (map (pair_text encoding) kvs)"

lemma takeWhile_stops:
  "x \<notin> set p \<Longrightarrow> takeWhile (\<lambda>c. c \<noteq> x) (p @ x # rest) = p"
  "x \<notin> set p \<Longrightarrow> takeWhile (\<lambda>c. c \<noteq> x) p = p"
  by (induction p) auto

lemma put_pairs_last:
  "CHR ''&'' \<notin> set p \<Longrightarrow> put_pairs encoding (pre @ p) (length pre) obj = put_pair encoding p obj"
  by (subst put_pairs.simps, subst put_pairs.simps) (simp add: Let_def takeWhile_stops)

lemma put_pairs_next:
  "CHR ''&'' \<notin> set p \<Longrightarrow>
     put_pairs encoding (pre @ p @ CHR ''&'' # rest) (length pre) obj =
     put_pairs encoding (pre @ p @ CHR ''&'' # rest) (length (pre @ p @ ''&'')) (put_pair encoding p obj)"
  by (subst put_pairs.simps) (simp add: Let_def takeWhile_stops)

lemma put_pairs_join:
  "ps \<noteq> [] \<Longrightarrow> \<forall>p \<in> set ps. CHR ''&'' \<notin> set p \<Longrightarrow>
     put_pairs encoding (pre @ join_with (CHR ''&'') ps) (length pre) obj = fold (put_pair encoding) ps obj"
proof (induction ps arbitrary: pre obj)
  case (Cons p ps)
  show ?case
  proof (cases ps)
    case Nil
    with Cons.prems show ?thesis by (simp add: put_pairs_last)
  next
    case (Cons q qs)
    then have "join_with (CHR ''&'') (p # ps) = p @ CHR ''&'' # join_with (CHR ''&'') ps" by simp
    with Cons Cons.prems Cons.IH [of "pre @ p @ ''&''"] put_pairs_next [of p encoding pre "join_with (CHR ''&'') ps" obj]
    show ?thesis by simp
  qed
qed simp

lemma put_pair_text:
  assumes "keeps encoding (fst kv)" "keeps encoding (snd kv)"
  shows "put_pair encoding (pair_text encoding kv) obj = js_put (fst kv) (Str (snd kv)) obj"
proof -
  have eq: "CHR ''='' \<notin> set (JsUrlEncode encoding [fst kv])"
    using encoded_plain [OF assms(1)] assms(1) by (simp add: JsUrlEncode_def keeps_def)
  then have "takeWhile (\<lambda>c. c \<noteq> CHR ''='') (pair_text encoding kv) = JsUrlEncode encoding [fst kv]"
    by (simp add: pair_text_def takeWhile_stops)
  with url_decode_encode [OF assms(1)] url_decode_encode [OF assms(2)] show ?thesis
    by (simp add: put_pair_def Let_def) (simp add: pair_text_def)
qed

text \<open>
  Claim C36. A query string is parsed into what it was built from: of names and values, encoded by
  \<open>ns.url.encode\<close> and joined, \<open>ns.url.parse\<close> makes the object with these properties, a later value
  of a name replacing an earlier one, under every encoding that keeps the texts.
\<close>

theorem query_round_trip:
  assumes "\<forall>kv \<in> set kvs. keeps encoding (fst kv) \<and> keeps encoding (snd kv)"
  shows "JsUrlParse encoding [query_string encoding kvs] = Obj (fold (\<lambda>kv. js_put (fst kv) (Str (snd kv))) kvs [])"
proof (cases "kvs = []")
  case True
  then show ?thesis
    using put_pairs_last [of "[]" encoding "[]" "[]"] by (simp add: JsUrlParse_def query_string_def put_pair_def)
next
  case False
  have "CHR ''&'' \<notin> set (pair_text encoding kv)" if "kv \<in> set kvs" for kv
    using encoded_plain [of encoding "fst kv"] encoded_plain [of encoding "snd kv"] assms that
    by (auto simp: pair_text_def JsUrlEncode_def keeps_def)
  with False have "put_pairs encoding (query_string encoding kvs) 0 [] = fold (put_pair encoding) (map (pair_text encoding) kvs) []"
    using put_pairs_join [of "map (pair_text encoding) kvs" encoding "[]" "[]"] by (auto simp: query_string_def)
  also have "\<dots> = fold (\<lambda>kv. js_put (fst kv) (Str (snd kv))) kvs []"
    unfolding fold_map using assms by (intro fold_cong) (simp_all add: put_pair_text fun_eq_iff)
  finally show ?thesis by (simp add: JsUrlParse_def)
qed

lemma query_round_trip_witness:
  "JsUrlParse None [query_string None [(''q'', ''a b&c=d''), (''e'', ''100%''), (''q'', ''1'')]] =
     Obj (fold (\<lambda>kv. js_put (fst kv) (Str (snd kv))) [(''q'', ''a b&c=d''), (''e'', ''100%''), (''q'', ''1'')] [])"
  by (rule query_round_trip) (simp add: keeps_def)

end
