(* ===== verification/CacheStats.thy ===== *)
theory CacheStats
  imports System HostCache
begin

text \<open>
  From the caches of the scripts to the dashboard: the counters of a cache of \<open>ns.cache\<close>, as the
  web server's command \<open>ns_cache_stats\<close> prints them, are what the table of the page shows.
\<close>

text \<open>The table that the client makes of its data has a row of a cache with a counter.\<close>

definition row_shows :: "jv \<Rightarrow> string \<Rightarrow> string \<Rightarrow> nat \<Rightarrow> bool" where
  "row_shows d name k n \<longleftrightarrow> (\<exists>v rows row. Caches [(''caches'', opt_get d ''caches'')] = Some v \<and>
     cache_table_rows v = Arr rows \<and> row \<in> set rows \<and> opt_get row ''name'' = Str name \<and>
     opt_get row k = Num (Fin (of_nat n)))"

text \<open>
  The web server answers for a cache of the scripts: the command lists it among distinct names and
  prints its counters; \<open>strtod\<close> reads a decimal number exactly.
\<close>

definition answers_for :: "host_env \<Rightarrow> string \<Rightarrow> ns_cache \<Rightarrow> bool" where
  "answers_for h name c \<longleftrightarrow> reads_doubles h \<and> name \<noteq> ''__proto__'' \<and>
     tcl_eval h ''ns_cache_names'' \<noteq> [] \<and>
     (\<exists>names. split_list h (tcl_eval h ''ns_cache_names'') = Some names \<and> distinct names \<and> name \<in> set names) \<and>
     tcl_eval h (''ns_cache_stats '' @ name) = cache_stats_text c \<and>
     split_list h (cache_stats_text c) = Some (pair_list (cache_stats c)) \<and>
     (\<forall>n. n < 2 ^ 31 \<longrightarrow> strtod h (int_str (int n)) = (Fin (of_nat n), []))"

lemma cache_stats_keys:
  "map (\<lambda>p. strip_colon (strip_colon (fst p))) (cache_stats c) = [''entries'', ''flushed'', ''hits'', ''misses'', ''hitrate'']"
  by (simp add: cache_stats_def strip_colon_def)

lemma counter_of_cache:
  assumes "answers_for h name c" "json_parse (stringify (api_data (host_api h))) = Some d"
    and "(k @ '':'', int_str (int n)) \<in> set (cache_stats c)" "n < 2 ^ 31"
    and "k \<in> {''entries'', ''hits'', ''misses'', ''flushed'', ''hitrate''}"
  shows "row_shows d name k n"
proof -
  from assms(1) obtain names where names: "tcl_eval h ''ns_cache_names'' \<noteq> []"
    "split_list h (tcl_eval h ''ns_cache_names'') = Some names" "distinct names" "name \<in> set names" "name \<noteq> ''__proto__''"
    and stats: "tcl_eval h (''ns_cache_stats '' @ name) \<noteq> []"
      "split_list h (tcl_eval h (''ns_cache_stats '' @ name)) = Some (pair_list (cache_stats c))"
    and read: "strtod h (int_str (int n)) = (Fin (of_nat n), [])" and h: "reads_doubles h"
    using assms(4) by (auto simp: answers_for_def cache_stats_text_def cache_stats_def)
  have k: "strip_colon (k @ '':'') = k" "strip_colon k = k" "k \<noteq> ''__proto__''"
    using assms(5) by (auto simp: strip_colon_def)
  have keys: "distinct (map (\<lambda>p. strip_colon (strip_colon (fst p))) (cache_stats c))"
    "''__proto__'' \<notin> (\<lambda>p. strip_colon (strip_colon (fst p))) ` set (cache_stats c)"
    unfolding cache_stats_keys set_map [symmetric] by simp_all
  obtain cs s where "ns_call (host_api h) ''cache.statsAll'' = Obj cs" "distinct (map fst cs)" "(name, Obj s) \<in> set cs"
    "\<forall>(n, t) \<in> set cs. flat t" "distinct (map (\<lambda>p. strip_colon (fst p)) s)"
    "''__proto__'' \<notin> (\<lambda>p. strip_colon (fst p)) ` set s" "(strip_colon (k @ '':''), Num (Fin (of_nat n))) \<in> set s"
    using host_cache_stats [OF names stats keys(1) assms(3) read _ keys(2)] k by metis
  from counter_shown [OF this(1) host_wf [OF h] assms(2) this(2,3) names(5) this(4-7)] k assms(5) show ?thesis
    by (simp add: row_shows_def)
qed

text \<open>
  Claim C17. The dashboard shows what the scripts did with a cache: after every history of fewer than
  two thousand million calls of all threads on a cache, the row of the cache has as its hits the
  number of calls that found their key, and as its misses the number of the others that had one.
\<close>

theorem script_cache_shown:
  assumes "answers_for h name (run call_cache es (CacheCreate m))"
    and "json_parse (stringify (api_data (host_api h))) = Some d" "length (filter keyed es) < 2 ^ 31"
  shows "row_shows d name ''hits'' (hits_of es (CacheCreate m)) \<and>
    row_shows d name ''misses'' (length (filter keyed es) - hits_of es (CacheCreate m))"
proof -
  let ?c = "run call_cache es (CacheCreate m)" and ?n = "length (filter keyed es)" and ?h = "hits_of es (CacheCreate m)"
  have wf: "wf_cache (CacheCreate m)" by (simp add: CacheCreate_def wf_cache_def)
  have hits: "c_hits ?c = of_nat ?h" using hits_run [OF wf] by (simp add: CacheCreate_def)
  have "c_hits ?c + c_misses ?c = of_nat ?n" using hits_and_misses_run [OF wf] by (simp add: CacheCreate_def)
  moreover have le: "?h \<le> ?n" by (rule hits_of_le)
  ultimately have misses: "c_misses ?c = of_nat (?n - ?h)" by (simp add: hits of_nat_diff algebra_simps)
  have small: "?h < 2 ^ 31" "?n - ?h < 2 ^ 31" using le assms(3) by linarith+
  have "sint (c_hits ?c) = int ?h" "sint (c_misses ?c) = int (?n - ?h)"
    unfolding hits misses by (rule sint_small [OF small(1)], rule sint_small [OF small(2)])
  then have "(''hits'' @ '':'', int_str (int ?h)) \<in> set (cache_stats ?c)"
    "(''misses'' @ '':'', int_str (int (?n - ?h))) \<in> set (cache_stats ?c)"
    by (simp_all only: cache_stats_def list.set append.simps) blast+
  with counter_of_cache [OF assms(1,2)] small show ?thesis by blast
qed

subsection \<open>A server with one cache\<close>

definition caching_host :: "ns_cache \<Rightarrow> host_env" where
  "caching_host c = (small_host no_stats)\<lparr>tcl_eval := (\<lambda>cmd. if cmd = ''ns_cache_names'' then ''page''
     else if cmd = ''ns_cache_stats page'' then cache_stats_text c else [])\<rparr>"

lemma split_words_word: "CHR '' '' \<notin> set s \<Longrightarrow> split_words w (s @ t) = split_words (w @ s) t"
  by (induction s arbitrary: w) auto

lemma int_str_word: "CHR '' '' \<notin> set (int_str n)" "int_str n \<noteq> []"
proof -
  have "\<not> is_digit CHR '' ''" by (simp add: is_digit_def digit_val_def)
  then have "CHR '' '' \<notin> set (nat_str m)" for m using all_digits_nat_str [of m] by (auto simp: list_all_iff)
  then show "CHR '' '' \<notin> set (int_str n)" by (simp add: int_str_def)
  show "int_str n \<noteq> []" by (simp add: int_str_def)
qed

lemma split_stats: "split_words [] (cache_stats_text c) = pair_list (cache_stats c)"
proof -
  have "split_words w (int_str n @ t) = split_words (w @ int_str n) t" "split_words w (int_str n) = [w @ int_str n]" for w n t
    using split_words_word [OF int_str_word(1), of w n] split_words_word [OF int_str_word(1), of w n "[]"]
    by (simp_all add: int_str_word)
  then show ?thesis by (simp add: cache_stats_text_def cache_stats_def pair_list_def int_str_word)
qed

lemma small_strtod_nat: "n < 2 ^ 31 \<Longrightarrow> small_strtod (int_str (int n)) = (Fin (of_nat n), [])"
proof -
  assume n: "n < 2 ^ 31"
  then have "strtol (int_str (int n)) = int n" by (intro strtol_int_str) (simp_all add: long_min_def long_max_def)
  moreover have "number_value (of_int (int n)) = Fin (of_int (int n))" using n by (intro number_value_int) simp
  moreover have "list_all (\<lambda>c. digit_val c \<noteq> None) (int_str (int n))"
    using all_digits_nat_str [of n] by (simp add: int_str_def is_digit_def [abs_def])
  ultimately show ?thesis by (simp add: small_strtod_def int_str_word)
qed

lemma caching_host_ok: "reads_doubles (caching_host c)"
  using representable_int [of 0] by (simp add: caching_host_def small_host_def reads_doubles_def small_strtod_def)

lemma caching_host_answers: "answers_for (caching_host c) ''page'' c"
  using caching_host_ok [of c] small_strtod_nat split_stats [of c]
  by (simp add: answers_for_def caching_host_def small_host_def)

lemma script_cache_shown_witness:
  "\<exists>d. json_parse (stringify (api_data (host_api (caching_host (run call_cache [CSet ''a'' ''1'', CGet ''a''] (CacheCreate 0)))))) = Some d \<and>
    row_shows d ''page'' ''hits'' 1 \<and> row_shows d ''page'' ''misses'' 1"
proof -
  let ?es = "[CSet ''a'' ''1'', CGet ''a'']"
  let ?h = "caching_host (run call_cache ?es (CacheCreate 0))"
  have "json_parse (stringify (api_data (host_api ?h))) = Some (arrives (api_data (host_api ?h)))"
    by (rule wire.dec_enc) (intro api_data_sendable host_wf caching_host_ok)
  moreover have "hits_of ?es (CacheCreate 0) = 1" by code_simp
  ultimately show ?thesis
    using script_cache_shown [OF caching_host_answers, of ?es 0] by simp
qed

text \<open>The entries of the cache are shown as well.\<close>

lemma script_cache_entries_shown:
  assumes "answers_for h name c" "json_parse (stringify (api_data (host_api h))) = Some d"
    and "length (c_entries c) < 2 ^ 31"
  shows "row_shows d name ''entries'' (length (c_entries c))"
proof (rule counter_of_cache [OF assms(1,2) _ assms(3)])
  show "(''entries'' @ '':'', int_str (int (length (c_entries c)))) \<in> set (cache_stats c)"
    by (simp add: cache_stats_def)
qed simp

end
