(* ===== verification/Spec2Isabelle.thy ===== *)
theory Spec2Isabelle
  imports System AllocatorReport PageStore ControlPort Polyfill Build Theme
    HostCache ImageSize HtmlHrefs NsSets Mutexes UrlCodec CacheStats
begin

text \<open>
  Verification library of the statistics dashboard of AOLserver and of its JavaScript host
  (\<open>src/nsjs/\<close>).

  The program. A page of the server, \<open>pages/stats.jsadp\<close>, checks the credentials, inlines the
  bundled client and prints a document with the current statistics in it. The client,
  \<open>dashboard/src/client-entry.jsx\<close>, renders the component \<open>App\<close> and polls the JSON endpoint
  \<open>pages/stats-api.js\<close> every five seconds. \<open>App\<close> distributes the data over eight tabs, each a
  component under \<open>dashboard/src/sections\<close>, made of the components under
  \<open>dashboard/src/components\<close>. \<open>dashboard/build.mjs\<close> bundles all this. The module \<open>nsjs.cc\<close> runs the
  scripts in the server: it compiles templates, caches compiled scripts per thread and counts,
  keeps the shared store in which the page caches its files, turns the answers of the web
  server's Tcl commands into the objects that the endpoint sends, and listens on a control port. It also
  gives the scripts caches, sets, mutexes, and functions on images, HTML texts and URLs.

  Foundations.
  \<^item> Prelude: exceptions as options, runs of a state machine (locales \<open>machine\<close> and
    \<open>guarded_machine\<close>), refinements (\<open>forward_simulation\<close>, \<open>simulation\<close>), writers and readers (locale
    \<open>codec\<close>), the end of a list.
  \<^item> Rounding, JsNumber: binary64 rounding to nearest even (locale \<open>rounding\<close>), the Number type
    with its arithmetic, \<open>toString\<close> and \<open>toFixed\<close>. Monotonicity and exactness carry the bounds of
    the components.
  \<^item> JsValue: values, conversions, operators, objects in the order of enumeration. React
    elements and closures are values, so a component is a function from properties to a value.
  \<^item> JsSort: \<open>Array.prototype.sort\<close> (locale \<open>array_sort\<close>: permutation, sortedness, stability).
  \<^item> NumberText: a Number is determined by its text; seventeen digits are always enough.
  \<^item> Json: \<open>JSON.stringify\<close> and the grammar of JSON. The reader runs on fuel, as much as the text
    has characters, which is proved to be enough for every text of \<open>stringify\<close>.

  Components, each with the record of its state, a definition per function and its lemmas.
  \<^item> Ui: the stateless components \<open>Badge\<close>, \<open>Card\<close>, \<open>StatCard\<close>, \<open>ProgressBar\<close>, \<open>RingGauge\<close>,
    \<open>SparkBars\<close>, \<open>MiniBar\<close>. Widths and arcs in range, colours monotone.
  \<^item> DataTable: sort state, comparator, sorted rows, table. Sorting by value or collation, empty
    cells last, stable; the state after any history of clicks.
  \<^item> Tabs: selection, address fragment, \<open>hashchange\<close> listener and its clean-up as a machine.
  \<^item> Charts: \<open>EChartsWrapper\<close>, the charts and observers it owns, as a machine, and which options it
    can show.
  \<^item> Overview, JsEngine, ServerStats, Memory, Listings (\<open>Caches\<close>, \<open>Drivers\<close>, \<open>AdpCache\<close>, \<open>Log\<close>):
    the sections, with the accuracy and round trip of their texts, the proportions and colours
    they show, and the tables they fill.
  \<^item> App: the page and \<open>server-entry.jsx\<close>. An inductive predicate says when an element renders:
    every component that is called returns, no object is a child, and every chart has an option
    of registered parts. It does for all data of the shape of the endpoint.
  \<^item> Client: polls as an inductive step relation with a step for each point where a poll is
    resumed; the history refines the list of all samples; every poll ends.
  \<^item> StatsApi, Wire: the endpoint, its credentials, the shape of its data, and what of the data
    arrives at the client.
  \<^item> StatsPage: the cache of the inlined files as a machine whose steps are the atomic calls of
    concurrent requests; the text of the page.
  \<^item> Build, Polyfill: the build script with its error paths, and the two classes that it puts in
    front of the server bundle, on 16-bit code units and bytes.
  \<^item> Theme: the colours of \<open>tailwind.config.js\<close> with the variables of \<open>styles.css\<close>.

  The host (\<open>nsjs.cc\<close>), a definition per function under its name.
  \<^item> JsAdp: \<open>CompileJsAdp\<close> against the grammar of templates, and what its output prints. StatsPage
    shows that the model of the page is what the compiled template prints.
  \<^item> ScriptCache: \<open>JsRequest\<close>, \<open>JsAdpRequest\<close>, the caches and data of the threads, the counters on
    64-bit words, as a machine of requests, thread ends and resets. A cached answer is the answer
    of a direct run.
  \<^item> ScriptStats: \<open>ns.js.stats\<close>, and what its counters mean after any history of the host.
  \<^item> SharedStore: \<open>ns.shared\<close> refines a map; every call is one step under the lock, and a run that
    would overflow a long is None. PageStore: the page's cache of its files on this store.
  \<^item> ControlPort: the lines, the login, the commands and the number of sessions.
  \<^item> HostApi: the functions that the endpoint calls, on any answers of the web server.
    AllocatorReport: what is read from the allocator's report. System: what the functions return
    can be sent, and its way to the page.
  \<^item> HostCache: \<open>ns.cache\<close> over \<open>nsd/cache.c\<close>: an abstract map that the caches never contradict,
    the entries that the limit keeps, and what removals do to it. Sizes and counters are words.
    CacheStats: the counters of such a cache, from the calls of the scripts to the page.
  \<^item> NsSets: \<open>ns.set\<close> over \<open>nsd/set.c\<close>, as lists of fields under numbers; UrlCodec: \<open>ns.url\<close> over
    \<open>nsd/urlencode.c\<close>, query strings that are parsed into what they were built from.
  \<^item> ImageSize: \<open>ns.image\<close> on streams; the loop over the markers of a JPEG file is a partial
    function, whose value None means that it never returns. HtmlHrefs: \<open>ns.html.hrefs\<close>, with
    pointers as indices. In these two and in NsSets a read outside a buffer is the value None, and
    the lemmas say on which inputs there is none.
  \<^item> Mutexes: \<open>ns.mutex\<close> as a step relation in which other threads run between the lookup of a
    mutex and its use; orderly histories are safe, others reach freed memory.
  This theory joins host, endpoint, wire, client and page.

  Parameters. What the host finds is the record \<open>host_env\<close>: the answers of Tcl commands, Tcl's
  lists, \<open>strtod\<close> (of which only is used that it returns doubles), allocator, protocols, log,
  configuration and the request's credentials. V8 is the compiler and the runs of a request and
  the engine of a session; a socket is the text that arrives and the answers of \<open>send\<close>. The
  endpoint is stated over the record \<open>server_api\<close>, which \<open>host_api\<close> makes from the host. The
  collation and time formats of the locale are the record
  \<open>env\<close>; \<open>renderToString\<close> of React, esbuild, Tailwind and the file system are arguments. Fetch,
  the clock and the timer are the events of the client.

  Conventions. Strings hold the UTF-8 bytes of the source's strings, except in Polyfill. A
  TypeError is None; the dashboard raises no other exception. The style classes and labels of
  the elements are those of the source.

  Not modelled: what React and ECharts do with elements and options, beyond the calls that the
  wrapper makes; \<open>postcss.config.js\<close>, which names two plugins; the minified bundles, generated from
  the sources modelled here; the other functions of the host (files, sockets, HTTP, schedules,
  processes, time, read-write locks, semaphores and conditions), which pass their arguments on to
  the operating system, the thread library or the web server; of the web server itself (\<open>nsd\<close>, C)
  only the caches, the sets and the URL encoding that the host uses. The size of an \<open>Ns_Set\<close> is not
  bounded by an int, and the loop of \<open>ns.image.jpegSize\<close> reads the two bytes of a number from left
  to right, an order that C++ leaves open. Reads of the script statistics without a lock are taken
  to be atomic. The files that the page inlines are taken to exist, and escapes of
  surrogates, which \<open>stringify\<close> does not write, are not read by the JSON reader.
\<close>

subsection \<open>The small server\<close>

lemma small_host_ok: "reads_doubles (small_host g)" "authorised (host_api (small_host g))"
  using representable_int [of 0]
  by (simp_all add: small_host_def reads_doubles_def small_strtod_def authorised_def host_api_def JsConfig_def or_null_def)

lemma small_host_sends:
  "json_parse (stringify (api_data (host_api (small_host g)))) = Some (arrives (api_data (host_api (small_host g))))"
  by (rule wire.dec_enc) (intro api_data_sendable host_wf small_host_ok)

subsection \<open>The endpoint and the client\<close>

text \<open>The data that the client reads has the shape that the page needs.\<close>

lemma served_data_valid:
  assumes "documented_shapes ns" "wf_api ns" "ReturnHtml 200 body \<in> set (stats_api ns)" "json_parse body = Some d"
  shows "valid_data d"
proof -
  have "body = stringify (api_data ns)" using assms(3) by (simp add: stats_api_def split: if_splits)
  with wire.dec_transfers [where P = "\<lambda>v. v = api_data ns" and Q = valid_data, OF api_data_sendable [OF assms(2)] refl]
    assms(4) arrived_data_valid [OF assms(1)] show ?thesis by simp
qed

text \<open>Whatever returns the documented shapes, every page of a client renders.\<close>

lemma polled_dashboard_renders:
  assumes "client_run d es c"
    and "documented_shapes ns" "wf_api ns" "json_parse (stringify (api_data ns)) = Some d"
    and "\<forall>n t data. Body n t data \<in> set es \<longrightarrow> (\<exists>ns body. documented_shapes ns \<and> wf_api ns \<and>
      ReturnHtml 200 body \<in> set (stats_api ns) \<and> json_parse body = Some data)"
  shows "renders e u (page c)"
proof (rule polled_page_renders [OF assms(1)])
  show "valid_data d"
    using assms(4) wire.dec_unique [OF api_data_sendable [OF assms(3)]] arrived_data_valid [OF assms(2)] by simp
  show "\<forall>n t data. Body n t data \<in> set es \<longrightarrow> valid_data data"
    using assms(5) served_data_valid by blast
qed

text \<open>
  Claim C1. The whole dashboard never crashes in the browser: the page starts with the data that
  one server state embedded in it, every poll reads the body that the endpoint sends in some
  server state, and then after every run of overlapping, failing and late polls the page renders
  and all its charts have options that can be shown, whichever tab is open, however the tables
  are sorted, and whatever the Tcl commands, the allocator, the protocols and the log of the
  server answer.
\<close>

theorem dashboard_renders:
  assumes "client_run d es c"
    and "reads_doubles h" "json_parse (stringify (api_data (host_api h))) = Some d"
    and "\<forall>n t data. Body n t data \<in> set es \<longrightarrow> (\<exists>h body. reads_doubles h \<and>
      ReturnHtml 200 body \<in> set (stats_api (host_api h)) \<and> json_parse body = Some data)"
  shows "renders e u (page c)"
  using polled_dashboard_renders [OF assms(1) host_documented_shapes host_wf [OF assms(2)] assms(3)]
    assms(4) host_documented_shapes host_wf by blast

lemma idle_run:
  assumes "d = Obj ps"
  shows "\<exists>c. client_run d [Interval, Response 0 True, Body 0 7 d] c"
proof -
  let ?c = "client_init d"
  have init: "pending ?c = []" "next_poll ?c = 0" by (simp_all add: client_init_def)
  obtain c1 where 1: "client_run d ([] @ [Interval]) c1" "pending c1 = [(0, Fetching)]"
    using client_run.step [OF client_run.start client_step.interval] init by fastforce
  have "(0, Fetching) \<in> set (pending c1)" by (simp add: 1(2))
  from client_run.step [OF 1(1) client_step.ok [OF this]] 1(2)
  obtain c2 where 2: "client_run d (([] @ [Interval]) @ [Response 0 True]) c2" "pending c2 = [(0, Reading)]"
    by fastforce
  obtain h where h: "poll_sample 7 d = Some h" using assms by (auto simp: poll_sample_def)
  have "(0, Reading) \<in> set (pending c2)" by (simp add: 2(2))
  from client_run.step [OF 2(1) client_step.body [OF this h]] show ?thesis by auto
qed

lemma dashboard_renders_witness:
  "\<exists>d c. client_run d [Interval, Response 0 True, Body 0 7 d] c \<and>
     json_parse (stringify (api_data (host_api (small_host no_stats)))) = Some d \<and>
     renders plain_env \<lparr>ui_tab = 2, ui_sort = table_init\<rparr> (page c)"
proof -
  let ?ns = "host_api (small_host no_stats)"
  let ?d = "arrives (api_data ?ns)"
  have "ReturnHtml 200 (stringify (api_data ?ns)) \<in> set (stats_api ?ns)"
    by (simp add: stats_api_def small_host_ok)
  with small_host_ok(1) small_host_sends have served: "\<exists>h body. reads_doubles h \<and>
      ReturnHtml 200 body \<in> set (stats_api (host_api h)) \<and> json_parse body = Some ?d" by blast
  have "\<exists>ps. ?d = Obj ps" by (simp add: arrives_def api_data_def build_obj_def)
  then obtain c where c: "client_run ?d [Interval, Response 0 True, Body 0 7 ?d] c" using idle_run by blast
  have "renders plain_env \<lparr>ui_tab = 2, ui_sort = table_init\<rparr> (page c)"
    by (rule dashboard_renders [OF c small_host_ok(1) small_host_sends]) (use served in simp)
  with c small_host_sends show ?thesis by blast
qed

text \<open>
  Claim C4. A counter keeps its value from the server's Tcl command to the screen: when the command
  lists a cache, and the counters of the cache have distinct names, then the table that the
  client shows has a row with the cache's name in which the counter has the number that its text
  denotes, under its name with or without a colon.
\<close>

theorem cache_counter_shown:
  assumes "reads_doubles h" "json_parse (stringify (api_data (host_api h))) = Some d"
    and names: "tcl_eval h ''ns_cache_names'' \<noteq> []" "split_list h (tcl_eval h ''ns_cache_names'') = Some names"
      "distinct names" "name \<in> set names" "name \<noteq> ''__proto__''"
    and stats: "tcl_eval h (''ns_cache_stats '' @ name) \<noteq> []"
      "split_list h (tcl_eval h (''ns_cache_stats '' @ name)) = Some (pair_list kvs)"
      "distinct (map (\<lambda>p. strip_colon (strip_colon (fst p))) kvs)"
    and counter: "(k, v) \<in> set kvs" "strtod h v = (Fin x, [])" "strip_colon k \<noteq> ''__proto__''"
      "''__proto__'' \<notin> (\<lambda>p. strip_colon (strip_colon (fst p))) ` set kvs"
      "strip_colon (strip_colon k) \<in> {''entries'', ''hits'', ''misses'', ''flushed'', ''hitrate''}"
  shows "\<exists>v rows row. Caches [(''caches'', opt_get d ''caches'')] = Some v \<and> cache_table_rows v = Arr rows \<and>
    row \<in> set rows \<and> opt_get row ''name'' = Str name \<and> opt_get row (strip_colon (strip_colon k)) = Num (Fin x)"
proof -
  obtain cs s where "ns_call (host_api h) ''cache.statsAll'' = Obj cs" "distinct (map fst cs)" "(name, Obj s) \<in> set cs"
    "\<forall>(n, t) \<in> set cs. flat t" "distinct (map (\<lambda>p. strip_colon (fst p)) s)"
    "''__proto__'' \<notin> (\<lambda>p. strip_colon (fst p)) ` set s" "(strip_colon k, Num (Fin x)) \<in> set s"
    by (rule host_cache_stats [OF names stats counter(1-4)])
  from counter_shown [OF this(1) host_wf [OF assms(1)] assms(2) this(2,3) names(5) this(4-7) counter(5)]
  show ?thesis .
qed

lemma cache_counter_shown_witness:
  "\<exists>d v rows row. json_parse (stringify (api_data (host_api (small_host no_stats)))) = Some d \<and>
    Caches [(''caches'', opt_get d ''caches'')] = Some v \<and> cache_table_rows v = Arr rows \<and>
    row \<in> set rows \<and> opt_get row ''name'' = Str ''adp'' \<and> opt_get row ''hits'' = Num (Fin 3)"
proof -
  let ?h = "small_host no_stats" and ?kvs = "[(''hits:'', ''3''), (''misses:'', ''1'')]"
  have "split_list ?h (tcl_eval ?h ''ns_cache_names'') = Some [''adp'']"
      "split_list ?h (tcl_eval ?h (''ns_cache_stats '' @ ''adp'')) = Some (pair_list ?kvs)"
    by (simp_all add: small_host_def pair_list_def)
  moreover have "strtol ''3'' = 3" by code_simp
  then have "strtod ?h ''3'' = (Fin 3, [])"
    using number_value_int [of 3] by (simp add: small_host_def small_strtod_def digit_val_def)
  ultimately have "\<exists>v rows row. Caches [(''caches'', opt_get (arrives (api_data (host_api ?h))) ''caches'')] = Some v \<and>
      cache_table_rows v = Arr rows \<and> row \<in> set rows \<and> opt_get row ''name'' = Str ''adp'' \<and>
      opt_get row (strip_colon (strip_colon ''hits:'')) = Num (Fin 3)"
    by (intro cache_counter_shown [OF small_host_ok(1) small_host_sends, where names = "[''adp'']" and kvs = ?kvs])
      (auto simp: small_host_def strip_colon_def)
  then show ?thesis using small_host_sends by (auto simp: strip_colon_def)
qed



text \<open>
  Claim C23. The data of the endpoint has the shape that the page needs, whatever the web server's
  Tcl commands answer, also when they fail or their lists are malformed.
\<close>

theorem host_data_shape: "valid_data (api_data (host_api h))"
  by (rule api_data_valid [OF host_documented_shapes])

text \<open>
  Claim C9. Who gets the data: the endpoint answers with the statistics exactly to a request whose
  user and password are the configured ones of the server's section, or, where the configuration
  has none, \<open>nsadmin\<close> and the empty password.
\<close>

theorem endpoint_access:
  "ReturnHtml 200 (stringify (api_data (host_api h))) \<in> set (stats_api (host_api h)) \<longleftrightarrow>
     (let sec = c_str (''ns/server/'' @ server_text h ''serverName'' @ ''/module/nsjs'');
          conf = (\<lambda>key d. case config_value h sec key of Some v \<Rightarrow> v | None \<Rightarrow> d)
      in conn_auth_user h = Some (conf ''stats_user'' ''nsadmin'') \<and>
         conn_auth_passwd h = Some (conf ''stats_password'' []))"
proof -
  have name: "ns_call (host_api h) ''info.serverName'' = Str (server_text h ''serverName'')"
    by (simp add: host_api_def host_functions_def lookup_def)
  have "cfgSection (host_api h) = Str (''ns/server/'' @ server_text h ''serverName'' @ ''/module/nsjs'')"
    by (simp add: cfgSection_def name js_add_def)
  moreover have "strict_eq (or_null a) (case b of Some v \<Rightarrow> Str v | None \<Rightarrow> Str d) \<longleftrightarrow>
      a = Some (case b of Some v \<Rightarrow> v | None \<Rightarrow> d)" for a b d
    by (cases a; cases b) (simp_all add: or_null_def)
  ultimately show ?thesis
    by (simp add: stats_api_def authorised_def host_api_def JsConfig_def Let_def)
qed

end
